(* ===== verification/Prelude.thy ===== *)
theory Prelude
  imports Main "HOL-Library.Word" "HOL-Library.Monad_Syntax"
begin

text \<open>
  Shared vocabulary of the development: the machine integers of the Rust sources, the arithmetic
  of the standard library the sources use (wrapping, checked and saturating), little-endian byte
  codecs, slicing of byte vectors, and the collections of rewrite rules the component theories
  share.

  Conventions.
  \<^item> \<open>u8\<close>, \<open>u16\<close>, \<open>u32\<close> values that carry bit patterns or identities are words of that width.
  \<^item> \<open>u64\<close> and \<open>usize\<close> quantities (lengths, offsets, counters) are natural numbers below
    \<open>2 ^ 64\<close>; where the code can wrap around, the wrap-around is written out (\<open>add64\<close>, \<open>mul64\<close>,
    \<open>sub64\<close>: the release profile has no overflow checks). The canisters are built for wasm64,
    so \<open>usize\<close> has 64 bits.
  \<^item> A panic or trap is the value \<open>None\<close> of an option type; an error returned by the code is an
    \<open>Inl\<close> value of a sum type.
\<close>

unbundle bit_operations_syntax

section \<open>Machine integers\<close>

type_synonym u8 = "8 word"
type_synonym u16 = "16 word"
type_synonym u32 = "32 word"
type_synonym u64 = "64 word"
type_synonym bytes = "8 word list"

named_theorems u64_arith \<open>wrapping arithmetic that does not wrap\<close>
named_theorems codec_simps \<open>encode/decode rewrite rules\<close>

abbreviation u64_max :: nat where
  "u64_max \<equiv> 18446744073709551615"

lemma u64_max_eq: "u64_max = 2 ^ 64 - 1"
  by simp

definition add64 :: "nat \<Rightarrow> nat \<Rightarrow> nat" where
  "add64 a b = (a + b) mod 2 ^ 64"

definition sub64 :: "nat \<Rightarrow> nat \<Rightarrow> nat" where
  "sub64 a b = (a + 2 ^ 64 - b) mod 2 ^ 64"

definition mul64 :: "nat \<Rightarrow> nat \<Rightarrow> nat" where
  "mul64 a b = (a * b) mod 2 ^ 64"

definition sat_add64 :: "nat \<Rightarrow> nat \<Rightarrow> nat" where
  "sat_add64 a b = min (a + b) u64_max"

definition sat_mul64 :: "nat \<Rightarrow> nat \<Rightarrow> nat" where
  "sat_mul64 a b = min (a * b) u64_max"

definition checked_add64 :: "nat \<Rightarrow> nat \<Rightarrow> nat option" where
  "checked_add64 a b = (if a + b \<le> u64_max then Some (a + b) else None)"

definition checked_mul64 :: "nat \<Rightarrow> nat \<Rightarrow> nat option" where
  "checked_mul64 a b = (if a * b \<le> u64_max then Some (a * b) else None)"

definition checked_sub64 :: "nat \<Rightarrow> nat \<Rightarrow> nat option" where
  "checked_sub64 a b = (if b \<le> a then Some (a - b) else None)"

text \<open>\<open>div_ceil\<close> of the standard library; the callers divide by a positive number.\<close>

definition div_ceil :: "nat \<Rightarrow> nat \<Rightarrow> nat" where
  "div_ceil a b = a div b + (if a mod b = 0 then 0 else 1)"

lemma add64_exact [u64_arith]: "a + b < 2 ^ 64 \<Longrightarrow> add64 a b = a + b"
  by (simp add: add64_def)

lemma mul64_exact [u64_arith]: "a * b < 2 ^ 64 \<Longrightarrow> mul64 a b = a * b"
  by (simp add: mul64_def)

lemma sub64_exact [u64_arith]: "b \<le> a \<Longrightarrow> a < 2 ^ 64 \<Longrightarrow> sub64 a b = a - b"
proof -
  assume "b \<le> a" and "a < 2 ^ 64"
  then have "a + 2 ^ 64 - b = 2 ^ 64 + (a - b)" and "a - b < 2 ^ 64"
    by auto
  then show ?thesis
    by (simp only: sub64_def mod_add_self1 mod_less)
qed

lemma checked_add64_Some [u64_arith]: "a + b \<le> u64_max \<Longrightarrow> checked_add64 a b = Some (a + b)"
  by (simp add: checked_add64_def)

lemma checked_mul64_Some [u64_arith]: "a * b \<le> u64_max \<Longrightarrow> checked_mul64 a b = Some (a * b)"
  by (simp add: checked_mul64_def)

lemma sat_add64_ge: "a \<le> u64_max \<Longrightarrow> a \<le> sat_add64 a b"
  by (simp add: sat_add64_def)

lemma sat_add64_less: "sat_add64 a b < c \<Longrightarrow> c \<le> u64_max \<Longrightarrow> sat_add64 a b = a + b"
  by (simp add: sat_add64_def min_def split: if_splits)

lemma div_ceil_mult: "0 < b \<Longrightarrow> a \<le> div_ceil a b * b"
proof -
  assume b: "0 < b"
  have "a = a div b * b + a mod b" by simp
  moreover have "a mod b < b" using b by simp
  ultimately have "a \<le> a div b * b + b" and "a mod b = 0 \<Longrightarrow> a \<le> a div b * b"
    by linarith+
  then show ?thesis
    by (auto simp: div_ceil_def)
qed

lemma div_ceil_mono: "0 < b \<Longrightarrow> a \<le> c \<Longrightarrow> div_ceil a b \<le> div_ceil c b"
proof -
  assume b: "0 < b" and ac: "a \<le> c"
  show ?thesis
  proof (cases "a div b = c div b")
    case True
    then have "a mod b \<le> c mod b"
      using ac by (metis add_le_cancel_left mult_div_mod_eq)
    with True show ?thesis by (auto simp: div_ceil_def)
  next
    case False
    with ac div_le_mono [of a c b] have "a div b < c div b" by simp
    then show ?thesis by (auto simp: div_ceil_def)
  qed
qed

lemma div_ceil_less_mult: "0 < b \<Longrightarrow> i * b < a \<longleftrightarrow> i < div_ceil a b"
proof -
  assume b: "0 < b"
  have a: "a = a div b * b + a mod b" by simp
  have m: "a mod b < b" using b by simp
  show ?thesis
  proof
    assume "i * b < a"
    show "i < div_ceil a b"
    proof (rule ccontr)
      assume "\<not> i < div_ceil a b"
      then have "div_ceil a b * b \<le> i * b" by simp
      with div_ceil_mult [OF b, of a] \<open>i * b < a\<close> show False by simp
    qed
  next
    assume i: "i < div_ceil a b"
    show "i * b < a"
    proof (cases "a mod b = 0")
      case True
      with i have "i < a div b" by (simp add: div_ceil_def)
      then have "i * b < a div b * b" using b by (rule mult_less_mono1)
      also have "\<dots> \<le> a" by simp
      finally show ?thesis .
    next
      case False
      with i have "i \<le> a div b" by (simp add: div_ceil_def)
      then have "i * b \<le> a div b * b" by simp
      with a False show ?thesis by linarith
    qed
  qed
qed

lemma unat_u8_less: "unat (w :: u8) < 256"
  by (rule order.strict_trans2 [OF unsigned_less]) simp

lemma unat_u16_less: "unat (w :: u16) < 65536"
  by (rule order.strict_trans2 [OF unsigned_less]) simp

lemma unat_u32_less: "unat (w :: u32) < 4294967296"
  by (rule order.strict_trans2 [OF unsigned_less]) simp

lemma unat_u64_less: "unat (w :: u64) < 18446744073709551616"
  by (rule order.strict_trans2 [OF unsigned_less]) simp

lemma mod_eq_close_le: "(a :: nat) mod n = b mod n \<Longrightarrow> a \<le> b \<Longrightarrow> b - a < n \<Longrightarrow> a = b"
proof -
  assume eq: "a mod n = b mod n" and le: "a \<le> b" and less: "b - a < n"
  have "n dvd b - a" using mod_eq_dvd_iff_nat [OF le, of n] eq by simp
  with less have "b - a = 0" using nat_dvd_not_less by blast
  with le show ?thesis by simp
qed

lemma mod_eq_close: "(a :: nat) mod n = b mod n \<Longrightarrow> a \<le> b + d \<Longrightarrow> b \<le> a + d \<Longrightarrow> d < n \<Longrightarrow> a = b"
proof -
  assume eq: "a mod n = b mod n" and d: "a \<le> b + d" "b \<le> a + d" "d < n"
  from d have "b - a < n" "a - b < n" by linarith+
  then show ?thesis
    using mod_eq_close_le [OF eq] mod_eq_close_le [OF eq [symmetric]] by (metis nat_le_linear)
qed

section \<open>Little-endian codecs\<close>

text \<open>\<open>to_le n x\<close> is the \<open>n\<close>-byte little-endian encoding, \<open>from_le\<close> the decoding.\<close>

fun to_le :: "nat \<Rightarrow> nat \<Rightarrow> bytes" where
  "to_le 0 x = []"
| "to_le (Suc n) x = word_of_nat (x mod 256) # to_le n (x div 256)"

fun from_le :: "bytes \<Rightarrow> nat" where
  "from_le [] = 0"
| "from_le (b # bs) = unat b + 256 * from_le bs"

lemma length_to_le [simp]: "length (to_le n x) = n"
  by (induction n arbitrary: x) auto

lemma unat_word_of_nat_byte [simp]: "unat (word_of_nat (x mod 256) :: u8) = x mod 256"
  by (simp add: unat_of_nat)

lemma from_le_to_le: "from_le (to_le n x) = x mod 256 ^ n"
proof (induction n arbitrary: x)
  case 0
  then show ?case by simp
next
  case (Suc n)
  have "x mod 256 ^ Suc n = 256 * (x div 256 mod 256 ^ n) + x mod 256"
    by (simp add: mod_mult2_eq)
  with Suc.IH show ?case by simp
qed

lemma from_le_to_le_id [codec_simps]: "x < 256 ^ n \<Longrightarrow> from_le (to_le n x) = x"
  by (simp add: from_le_to_le)

lemma from_le_less: "from_le bs < 256 ^ length bs"
proof (induction bs)
  case Nil
  then show ?case by simp
next
  case (Cons b bs)
  have "unat b < 256" by (rule unat_u8_less)
  with Cons show ?case by simp
qed

lemma to_le_from_le [codec_simps]: "n = length bs \<Longrightarrow> to_le n (from_le bs) = bs"
proof (induction bs arbitrary: n)
  case Nil
  then show ?case by simp
next
  case (Cons b bs)
  have "unat b < 256" by (rule unat_u8_less)
  with Cons show ?case by simp
qed

lemma to_le_inject: "x < 256 ^ n \<Longrightarrow> y < 256 ^ n \<Longrightarrow> to_le n x = to_le n y \<longleftrightarrow> x = y"
  by (metis from_le_to_le_id)

text \<open>The fixed-width integer types of the sources.\<close>

definition u16_to_le :: "u16 \<Rightarrow> bytes" where
  "u16_to_le w = to_le 2 (unat w)"

definition u16_from_le :: "bytes \<Rightarrow> u16" where
  "u16_from_le bs = word_of_nat (from_le bs)"

definition u32_to_le :: "u32 \<Rightarrow> bytes" where
  "u32_to_le w = to_le 4 (unat w)"

definition u32_from_le :: "bytes \<Rightarrow> u32" where
  "u32_from_le bs = word_of_nat (from_le bs)"

definition u64_to_le :: "u64 \<Rightarrow> bytes" where
  "u64_to_le w = to_le 8 (unat w)"

definition u64_from_le :: "bytes \<Rightarrow> u64" where
  "u64_from_le bs = word_of_nat (from_le bs)"

lemma length_u16_to_le [simp]: "length (u16_to_le w) = 2"
  by (simp add: u16_to_le_def)

lemma length_u32_to_le [simp]: "length (u32_to_le w) = 4"
  by (simp add: u32_to_le_def)

lemma length_u64_to_le [simp]: "length (u64_to_le w) = 8"
  by (simp add: u64_to_le_def)

lemma u16_from_to_le [simp]: "u16_from_le (u16_to_le w) = w"
  using unat_u16_less [of w]
  by (simp add: u16_from_le_def u16_to_le_def from_le_to_le)

lemma u32_from_to_le [simp]: "u32_from_le (u32_to_le w) = w"
  using unat_u32_less [of w]
  by (simp add: u32_from_le_def u32_to_le_def from_le_to_le)

lemma u64_from_to_le [simp]: "u64_from_le (u64_to_le w) = w"
  using unat_u64_less [of w]
  by (simp add: u64_from_le_def u64_to_le_def from_le_to_le)

lemma u32_to_from_le: "length bs = 4 \<Longrightarrow> u32_to_le (u32_from_le bs) = bs"
  using from_le_less [of bs]
  by (simp add: u32_from_le_def u32_to_le_def unat_of_nat to_le_from_le)

section \<open>Slices of byte vectors\<close>

text \<open>
  \<open>subslice xs a b\<close> is \<open>&xs[a..b]\<close>, which panics unless \<open>a \<le> b \<le> xs.len()\<close>; \<open>slice_from xs a\<close> is
  \<open>&xs[a..]\<close>; \<open>index xs i\<close> is \<open>xs[i]\<close>, which panics out of range; \<open>get xs i\<close> is \<open>xs.get(i)\<close>.
\<close>

definition subslice :: "'a list \<Rightarrow> nat \<Rightarrow> nat \<Rightarrow> 'a list option" where
  "subslice xs a b = (if a \<le> b \<and> b \<le> length xs then Some (take (b - a) (drop a xs)) else None)"

definition slice_from :: "'a list \<Rightarrow> nat \<Rightarrow> 'a list option" where
  "slice_from xs a = (if a \<le> length xs then Some (drop a xs) else None)"

definition index :: "'a list \<Rightarrow> nat \<Rightarrow> 'a option" where
  "index xs i = (if i < length xs then Some (xs ! i) else None)"

abbreviation get :: "'a list \<Rightarrow> nat \<Rightarrow> 'a option" where
  "get \<equiv> index"

text \<open>\<open>assert!\<close>: the computation goes on, or panics.\<close>

definition guard :: "bool \<Rightarrow> unit option" where
  "guard b = (if b then Some () else None)"

lemma guard_simps [simp]: "guard True = Some ()" "guard False = None"
  by (simp_all add: guard_def)

lemma subslice_append: "length as = a \<Longrightarrow> length xs = n \<Longrightarrow> b = a + n \<Longrightarrow> subslice (as @ xs @ bs) a b = Some xs"
  by (auto simp: subslice_def)

lemma slice_from_append: "length as = a \<Longrightarrow> slice_from (as @ xs) a = Some xs"
  by (auto simp: slice_from_def)

lemma index_append: "length as = a \<Longrightarrow> index (as @ x # bs) a = Some x"
  by (auto simp: index_def)

lemma subslice_SomeD: "subslice xs a b = Some ys \<Longrightarrow> a \<le> b \<and> b \<le> length xs \<and> length ys = b - a"
  by (auto simp: subslice_def split: if_splits)

lemma bind_eq_SomeE:
  assumes "Option.bind x f = Some y"
  obtains z where "x = Some z" "f z = Some y"
  using assms by (cases x) auto

lemma guard_eq_Some [simp]: "guard b = Some u \<longleftrightarrow> b"
  by (simp add: guard_def)

lemma guard_bind_Some: "Option.bind (guard b) f = Some y \<longleftrightarrow> b \<and> f () = Some y"
  by (simp add: guard_def)

section \<open>Concatenations of fixed-width fields\<close>

lemma length_concat_const:
  "(\<And>x. x \<in> set xs \<Longrightarrow> length (f x) = w) \<Longrightarrow> length (concat (map f xs)) = length xs * w"
  by (induction xs) simp_all

lemma concat_split:
  "i < length xs \<Longrightarrow> concat (map f xs) = concat (map f (take i xs)) @ f (xs ! i) @ concat (map f (drop (Suc i) xs))"
  using arg_cong [OF id_take_nth_drop [of i xs], of "\<lambda>ys. concat (map f ys)"] by simp

lemma subslice_inner:
  "length pre = n \<Longrightarrow> b \<le> length xs \<Longrightarrow> subslice (pre @ xs @ post) (n + a) (n + b) = subslice xs a b"
  by (auto simp: subslice_def)

lemma subslice_field:
  assumes "i < length xs" "\<And>x. x \<in> set xs \<Longrightarrow> length (f x) = w" "b \<le> w"
  shows "subslice (pre @ concat (map f xs) @ post) (length pre + i * w + a) (length pre + i * w + b)
    = subslice (f (xs ! i)) a b"
proof -
  let ?A = "pre @ concat (map f (take i xs))"
  have len: "length ?A = length pre + i * w"
    using assms(1) length_concat_const [of "take i xs" f w] assms(2) by (auto dest: in_set_takeD)
  have "pre @ concat (map f xs) @ post = ?A @ f (xs ! i) @ (concat (map f (drop (Suc i) xs)) @ post)"
    using concat_split [OF assms(1), of f] by simp
  moreover have "length (f (xs ! i)) = w" using assms(1,2) by simp
  ultimately show ?thesis
    using subslice_inner [OF len, of b "f (xs ! i)"] assms(3) by (simp only: append_assoc)
qed

lemma those_map_Some: "(\<And>x. x \<in> set xs \<Longrightarrow> f x = Some (g x)) \<Longrightarrow> those (map f xs) = Some (map g xs)"
  by (induction xs) simp_all

end
