(* ===== verification/Instruction_Budget.thy ===== *)
theory Instruction_Budget
  imports Prelude
begin

text \<open>
  The instruction-budget policy (\<open>crates/instruction-budget/src/lib.rs\<close>) and its two direct
  clients: the resumable ordered-batch loop of the graph canister
  (\<open>crates/graph/src/canister/handlers.rs\<close>, \<open>resumable_prefix_len\<close>) and the between-chunk guard of
  the router (\<open>crates/router/src/gql.rs\<close>, \<open>graph_batch_chunk_within_update_budget\<close>).
  Instruction counts are \<open>u64\<close> values, here naturals with saturating addition written out.
\<close>

section \<open>Constants\<close>

definition MAX_UPDATE_CALL_INSTRUCTIONS :: nat where
  "MAX_UPDATE_CALL_INSTRUCTIONS = 40000000000"

definition UPDATE_CALL_INSTRUCTION_HEADROOM :: nat where
  "UPDATE_CALL_INSTRUCTION_HEADROOM = 5000000000"

definition MAX_DYNAMIC_UPDATE_INSTRUCTIONS :: nat where
  "MAX_DYNAMIC_UPDATE_INSTRUCTIONS = MAX_UPDATE_CALL_INSTRUCTIONS - UPDATE_CALL_INSTRUCTION_HEADROOM"

definition GRAPH_BATCH_INSTRUCTION_ESTIMATE_PER_OPERATION :: nat where
  "GRAPH_BATCH_INSTRUCTION_ESTIMATE_PER_OPERATION = 500000000"

definition GRAPH_BATCH_FINAL_BOOKKEEPING_INSTRUCTION_HEADROOM :: nat where
  "GRAPH_BATCH_FINAL_BOOKKEEPING_INSTRUCTION_HEADROOM = 2000000000"

definition ROUTER_BATCH_WORK_INSTRUCTION_HEADROOM :: nat where
  "ROUTER_BATCH_WORK_INSTRUCTION_HEADROOM = 4000000000"

definition ROUTER_BATCH_CHUNK_WORK_INSTRUCTION_ESTIMATE :: nat where
  "ROUTER_BATCH_CHUNK_WORK_INSTRUCTION_ESTIMATE = 50000000"

definition MIN_OP_INSTRUCTION_ESTIMATE :: nat where
  "MIN_OP_INSTRUCTION_ESTIMATE = 50000000"

lemmas budget_constants =
  MAX_UPDATE_CALL_INSTRUCTIONS_def UPDATE_CALL_INSTRUCTION_HEADROOM_def
  MAX_DYNAMIC_UPDATE_INSTRUCTIONS_def GRAPH_BATCH_INSTRUCTION_ESTIMATE_PER_OPERATION_def
  GRAPH_BATCH_FINAL_BOOKKEEPING_INSTRUCTION_HEADROOM_def ROUTER_BATCH_WORK_INSTRUCTION_HEADROOM_def
  ROUTER_BATCH_CHUNK_WORK_INSTRUCTION_ESTIMATE_def MIN_OP_INSTRUCTION_ESTIMATE_def

section \<open>Admission and cutoff\<close>

datatype budget_error =
  ExceedsBudget (operation_count: nat) (estimate_per_operation: nat) (safe_budget: nat)

definition max_operation_count :: "nat \<Rightarrow> nat \<Rightarrow> nat" where
  "max_operation_count estimate_per_op safe_budg = safe_budg div (max estimate_per_op 1)"

definition preflight_operation_count :: "nat \<Rightarrow> nat \<Rightarrow> nat \<Rightarrow> budget_error + unit" where
  "preflight_operation_count count estimate_per_op safe_budg =
     (if max_operation_count estimate_per_op safe_budg < count
      then Inl (ExceedsBudget count estimate_per_op safe_budg) else Inr ())"

definition should_cutoff :: "nat \<Rightarrow> nat \<Rightarrow> nat \<Rightarrow> nat \<Rightarrow> nat \<Rightarrow> bool" where
  "should_cutoff ceiling used next_op_est response_reserve drain_reserve =
     (ceiling \<le> sat_add64 (sat_add64 (sat_add64 used next_op_est) response_reserve) drain_reserve)"

record op_cost_tracker =
  fallback_estimate :: nat
  tracker_max_seen :: nat


definition observe :: "nat \<Rightarrow> op_cost_tracker \<Rightarrow> op_cost_tracker" where
  "observe cost t = t\<lparr>tracker_max_seen := max (tracker_max_seen t) cost\<rparr>"

definition next_op_estimate :: "op_cost_tracker \<Rightarrow> nat" where
  "next_op_estimate t = max (tracker_max_seen t) (fallback_estimate t)"

definition graph_batch_chunk_within_update_budget :: "nat \<Rightarrow> bool" where
  "graph_batch_chunk_within_update_budget used_instructions =
     (\<not> should_cutoff MAX_UPDATE_CALL_INSTRUCTIONS used_instructions
          ROUTER_BATCH_CHUNK_WORK_INSTRUCTION_ESTIMATE ROUTER_BATCH_WORK_INSTRUCTION_HEADROOM 0)"

definition ensure_ordered_batch_instruction_budget :: "nat \<Rightarrow> budget_error + unit" where
  "ensure_ordered_batch_instruction_budget count =
     preflight_operation_count count GRAPH_BATCH_INSTRUCTION_ESTIMATE_PER_OPERATION
       MAX_DYNAMIC_UPDATE_INSTRUCTIONS"

section \<open>The resumable prefix loop\<close>



section \<open>Lemmas\<close>

lemma sat_add64_mono_ceiling:
  "c \<le> u64_max \<Longrightarrow> c \<le> sat_add64 a b \<longleftrightarrow> c \<le> a + b"
  by (auto simp: sat_add64_def)

text \<open>Saturation never hides an overflow: the predicate decides the exact, unbounded sum.\<close>

lemma should_cutoff_exact:
  assumes "ceiling \<le> u64_max"
  shows "should_cutoff ceiling used e r d \<longleftrightarrow> ceiling \<le> used + e + r + d"
  using assms by (auto simp: should_cutoff_def sat_add64_def min_def)

lemma preflight_Inr_iff:
  "preflight_operation_count n e b = Inr () \<longleftrightarrow> n * max e 1 \<le> b"
proof -
  have "n \<le> b div max e 1 \<longleftrightarrow> n * max e 1 \<le> b"
    by (rule less_eq_div_iff_mult_less_eq) simp
  then show ?thesis
    by (auto simp: preflight_operation_count_def max_operation_count_def)
qed

lemma ensure_ordered_batch_instruction_budget_iff:
  "ensure_ordered_batch_instruction_budget n =
     (if n * GRAPH_BATCH_INSTRUCTION_ESTIMATE_PER_OPERATION + UPDATE_CALL_INSTRUCTION_HEADROOM
           \<le> MAX_UPDATE_CALL_INSTRUCTIONS
      then Inr () else Inl (ExceedsBudget n GRAPH_BATCH_INSTRUCTION_ESTIMATE_PER_OPERATION
                              MAX_DYNAMIC_UPDATE_INSTRUCTIONS))"
  by (auto simp: ensure_ordered_batch_instruction_budget_def preflight_operation_count_def
      max_operation_count_def budget_constants)

lemma graph_batch_chunk_within_update_budget_iff:
  "graph_batch_chunk_within_update_budget used \<longleftrightarrow>
     used + ROUTER_BATCH_CHUNK_WORK_INSTRUCTION_ESTIMATE + ROUTER_BATCH_WORK_INSTRUCTION_HEADROOM
       < MAX_UPDATE_CALL_INSTRUCTIONS"
  unfolding graph_batch_chunk_within_update_budget_def
  by (subst should_cutoff_exact) (auto simp: budget_constants)

lemma next_op_estimate_observe:
  "next_op_estimate (observe c t) = max (next_op_estimate t) c"
  by (auto simp: next_op_estimate_def observe_def)

lemma fallback_observe [simp]: "fallback_estimate (observe c t) = fallback_estimate t"
  by (simp add: observe_def)

lemma next_op_estimate_fold:
  "next_op_estimate (fold observe cs t) = foldr max cs (next_op_estimate t)"
proof (induction cs arbitrary: t)
  case Nil
  then show ?case by simp
next
  case (Cons c cs)
  have "foldr max cs (max a c) = max c (foldr max cs a)" for a
    by (induction cs) (auto simp: max.left_commute max.commute)
  with Cons show ?case by (simp add: next_op_estimate_observe)
qed




section \<open>Properties\<close>



end
