(* ===== verification/Message_Sizing.thy ===== *)
theory Message_Sizing
  imports Prelude
begin

text \<open>
  Adaptive sizing of prefix-shaped messages (\<open>crates/message-sizing/src/lib.rs\<close>). The caller's
  measurement closure is the parameter \<open>msr\<close>: the encoded length of the payload with the first
  \<open>n\<close> entries, or the caller's error. Byte counts are \<open>usize\<close> values; the 128-bit products of the
  code never wrap for them and the narrowing casts back to \<open>usize\<close> are written out as \<open>mod 2 ^ 64\<close>.
\<close>

record sizing_policy =
  hard_limit_bytes :: nat
  target_bytes :: nat
  sample_entries :: nat

definition MAX_SAFE_INTER_CANISTER_REQUEST_PAYLOAD_BYTES :: nat where
  "MAX_SAFE_INTER_CANISTER_REQUEST_PAYLOAD_BYTES = 2 * 1024 * 1024"

definition INTER_CANISTER_MESSAGE_HEADROOM_BYTES :: nat where
  "INTER_CANISTER_MESSAGE_HEADROOM_BYTES = 500 * 1024"

definition INTER_CANISTER_TARGET_PAYLOAD_BYTES :: nat where
  "INTER_CANISTER_TARGET_PAYLOAD_BYTES =
     MAX_SAFE_INTER_CANISTER_REQUEST_PAYLOAD_BYTES - INTER_CANISTER_MESSAGE_HEADROOM_BYTES"

definition INTER_CANISTER_INITIAL_SAMPLE_ENTRIES :: nat where
  "INTER_CANISTER_INITIAL_SAMPLE_ENTRIES = 96"

definition inter_canister :: sizing_policy where
  "inter_canister = \<lparr>hard_limit_bytes = MAX_SAFE_INTER_CANISTER_REQUEST_PAYLOAD_BYTES,
     target_bytes = INTER_CANISTER_TARGET_PAYLOAD_BYTES,
     sample_entries = INTER_CANISTER_INITIAL_SAMPLE_ENTRIES\<rparr>"

definition normalized :: "sizing_policy \<Rightarrow> sizing_policy" where
  "normalized p = (let hard = max (hard_limit_bytes p) 1 in
     \<lparr>hard_limit_bytes = hard, target_bytes = min (max (target_bytes p) 1) hard,
      sample_entries = max (sample_entries p) 1\<rparr>)"

type_synonym size_hint = nat

record fitted_prefix =
  entry_count :: nat
  encoded_bytes :: nat

datatype 'e fit_error =
    Measure 'e
  | NoEntryFits nat nat

text \<open>\<open>clamp(1, length)\<close>; every caller has \<open>length \<ge> 1\<close>, for which it does not panic.\<close>

definition clamp1 :: "nat \<Rightarrow> nat \<Rightarrow> nat" where
  "clamp1 x len = (if x < 1 then 1 else if len < x then len else x)"

definition estimate_count :: "nat \<Rightarrow> sizing_policy \<Rightarrow> nat \<Rightarrow> nat \<Rightarrow> nat \<Rightarrow> nat" where
  "estimate_count len policy base_bytes sample_count sample_bytes =
     (if sample_bytes \<le> base_bytes then max (min sample_count len) 1
      else let variable_bytes = sample_bytes - base_bytes;
               available = target_bytes policy - base_bytes;
               estimate = (available * sample_count div variable_bytes) mod 2 ^ 64
           in clamp1 estimate len)"

definition proportional_count :: "nat \<Rightarrow> nat \<Rightarrow> nat \<Rightarrow> nat" where
  "proportional_count count target measured_bytes =
     (if measured_bytes = 0 then max (sat_mul64 count 2) (sat_add64 count 1)
      else (count * target div measured_bytes) mod 2 ^ 64)"

text \<open>The fresh-sample estimate, which the code has twice: before and after a stale hint.\<close>

definition sample_estimate ::
  "nat \<Rightarrow> sizing_policy \<Rightarrow> (nat \<Rightarrow> 'e + nat) \<Rightarrow> 'e fit_error + nat" where
  "sample_estimate len policy msr =
     (let sample = max (min (sample_entries policy) len) 1 in
      case msr 0 of
        Inl e \<Rightarrow> Inl (Measure e)
      | Inr base \<Rightarrow>
          (if hard_limit_bytes policy < base then Inl (NoEntryFits base (hard_limit_bytes policy))
           else case msr sample of
               Inl e \<Rightarrow> Inl (Measure e)
             | Inr sample_bytes \<Rightarrow> Inr (estimate_count len policy base sample sample_bytes)))"

text \<open>
  The shrinking loop: the candidate strictly decreases and stays positive (every candidate of the
  code is at least 1, so its test \<open>candidate == 1\<close> is \<open>candidate \<le> 1\<close> here).
\<close>

definition shrink :: "sizing_policy \<Rightarrow> nat \<Rightarrow> nat \<Rightarrow> nat" where
  "shrink policy candidate measured =
     max (min (proportional_count candidate (target_bytes policy) measured) (candidate - 1)) 1"

function fit_loop ::
  "sizing_policy \<Rightarrow> (nat \<Rightarrow> 'e + nat) \<Rightarrow> nat \<Rightarrow> nat \<Rightarrow> 'e fit_error + fitted_prefix option" where
  "fit_loop policy msr candidate measured =
     (if hard_limit_bytes policy < measured then
        (if candidate \<le> 1 then Inl (NoEntryFits measured (hard_limit_bytes policy))
         else let next_count = shrink policy candidate measured in
           case msr next_count of
             Inl e \<Rightarrow> Inl (Measure e)
           | Inr m \<Rightarrow> fit_loop policy msr next_count m)
      else Inr (Some \<lparr>entry_count = candidate, encoded_bytes = measured\<rparr>))"
  by pat_completeness auto
termination
  by (relation "measure (\<lambda>(_, _, candidate, _). candidate)") (auto simp: shrink_def)

declare fit_loop.simps [simp del]

definition adaptive_fitting_prefix ::
  "nat \<Rightarrow> size_hint option \<Rightarrow> sizing_policy \<Rightarrow> (nat \<Rightarrow> 'e + nat)
   \<Rightarrow> 'e fit_error + fitted_prefix option" where
  "adaptive_fitting_prefix len hint policy0 msr =
     (if len = 0 then Inr None
      else let policy = normalized policy0 in
        case (case hint of Some h \<Rightarrow> Inr (clamp1 h len) | None \<Rightarrow> sample_estimate len policy msr) of
          Inl e \<Rightarrow> Inl e
        | Inr candidate \<Rightarrow>
            (case msr candidate of
               Inl e \<Rightarrow> Inl (Measure e)
             | Inr measured \<Rightarrow>
                 (if hint \<noteq> None \<and> hard_limit_bytes policy < measured then
                    (case sample_estimate len policy msr of
                       Inl e \<Rightarrow> Inl e
                     | Inr candidate' \<Rightarrow>
                         (case msr candidate' of
                            Inl e \<Rightarrow> Inl (Measure e)
                          | Inr measured' \<Rightarrow> fit_loop policy msr candidate' measured'))
                  else fit_loop policy msr candidate measured)))"

section \<open>Lemmas\<close>

lemma clamp1_bounds: "0 < len \<Longrightarrow> 1 \<le> clamp1 x len \<and> clamp1 x len \<le> len"
  by (simp add: clamp1_def)

lemma estimate_count_bounds:
  "0 < len \<Longrightarrow> 1 \<le> estimate_count len p b s m \<and> estimate_count len p b s m \<le> len"
  using clamp1_bounds by (auto simp: estimate_count_def Let_def)

lemma shrink_bounds: "1 < c \<Longrightarrow> 1 \<le> shrink p c m \<and> shrink p c m < c"
  by (auto simp: shrink_def)

text \<open>The loop returns a measured prefix within the limit, no longer than where it started.\<close>

lemma fit_loop_sound:
  assumes "fit_loop p msr c m = Inr r" "msr c = Inr m" "1 \<le> c"
  shows "\<exists>f. r = Some f \<and> 1 \<le> entry_count f \<and> entry_count f \<le> c
    \<and> msr (entry_count f) = Inr (encoded_bytes f) \<and> encoded_bytes f \<le> hard_limit_bytes p"
  using assms
proof (induction p msr c m rule: fit_loop.induct)
  case (1 p msr c m)
  show ?case
  proof (cases "hard_limit_bytes p < m")
    case True
    with "1.prems" have c: "\<not> c \<le> 1"
      by (subst (asm) fit_loop.simps) (auto split: if_splits)
    with True "1.prems"(1) obtain m' where m': "msr (shrink p c m) = Inr m'"
        "fit_loop p msr (shrink p c m) m' = Inr r"
      by (subst (asm) fit_loop.simps) (auto simp: Let_def split: sum.splits)
    have b: "1 \<le> shrink p c m" "shrink p c m < c"
      using c shrink_bounds [of c p m] by auto
    from "1.IH" [OF True c refl m'(1) m'(2) m'(1) b(1)] b(2) show ?thesis
      by (metis less_imp_le order_trans)
  next
    case False
    with "1.prems" show ?thesis
      by (subst (asm) fit_loop.simps) auto
  qed
qed

text \<open>The loop refuses only after measuring a single entry that is over the limit.\<close>

lemma fit_loop_refuse:
  assumes "fit_loop p msr c m = Inl (NoEntryFits b h)" "msr c = Inr m" "1 \<le> c"
  shows "msr 1 = Inr b \<and> h = hard_limit_bytes p \<and> h < b"
  using assms
proof (induction p msr c m rule: fit_loop.induct)
  case (1 p msr c m)
  have over: "hard_limit_bytes p < m"
    using "1.prems"(1) by (subst (asm) fit_loop.simps) (auto split: if_splits)
  show ?case
  proof (cases "c \<le> 1")
    case True
    with over "1.prems" show ?thesis
      by (subst (asm) fit_loop.simps) auto
  next
    case False
    with over "1.prems"(1) obtain m' where m': "msr (shrink p c m) = Inr m'"
        "fit_loop p msr (shrink p c m) m' = Inl (NoEntryFits b h)"
      by (subst (asm) fit_loop.simps) (auto simp: Let_def split: sum.splits)
    have "1 \<le> shrink p c m" using False shrink_bounds [of c p m] by auto
    with "1.IH" [OF over False refl m'(1) m'(2) m'(1)] show ?thesis by blast
  qed
qed

lemma fit_loop_no_measure_error:
  assumes "\<And>n. n \<le> c \<Longrightarrow> \<exists>b. msr n = Inr b"
  shows "fit_loop p msr c m \<noteq> Inl (Measure e)"
  using assms
proof (induction p msr c m rule: fit_loop.induct)
  case (1 p msr c m)
  have "fit_loop p msr (shrink p c m) m' \<noteq> Inl (Measure e)"
    if "hard_limit_bytes p < m" "\<not> c \<le> 1" "msr (shrink p c m) = Inr m'" for m'
    using "1.IH" [OF that(1,2) refl that(3)] "1.prems" shrink_bounds [of c p m] that(2) by simp
  then show ?case
    using "1.prems" [of "shrink p c m"] shrink_bounds [of c p m]
    by (subst fit_loop.simps) (auto simp: Let_def split: sum.splits)
qed

lemma sample_estimate_bounds:
  "sample_estimate len p msr = Inr c \<Longrightarrow> 0 < len \<Longrightarrow> 1 \<le> c \<and> c \<le> len"
  using estimate_count_bounds
  by (auto simp: sample_estimate_def Let_def split: sum.splits if_splits)

lemma adaptive_fitting_prefix_runs:
  assumes "0 < len" "adaptive_fitting_prefix len hint p msr = res" "\<And>n. \<exists>b. msr n = Inr b"
  obtains (loop) c m where "1 \<le> c" "c \<le> len" "msr c = Inr m"
      "res = fit_loop (normalized p) msr c m"
    | (base) b where "msr 0 = Inr b" "hard_limit_bytes (normalized p) < b"
      "res = Inl (NoEntryFits b (hard_limit_bytes (normalized p)))"
proof -
  let ?p = "normalized p"
  have est: "(\<exists>c. sample_estimate len ?p msr = Inr c) \<or> (\<exists>b. msr 0 = Inr b \<and> hard_limit_bytes ?p < b
      \<and> sample_estimate len ?p msr = Inl (NoEntryFits b (hard_limit_bytes ?p)))"
    using assms(3) [of 0] assms(3) [of "max (min (sample_entries ?p) len) 1"]
    by (auto simp: sample_estimate_def Let_def)
  show thesis
  proof (cases hint)
    case None
    from est show thesis
    proof (elim disjE exE conjE)
      fix c assume c: "sample_estimate len ?p msr = Inr c"
      obtain m where "msr c = Inr m" using assms(3) by blast
      with c None assms sample_estimate_bounds [OF c] show thesis
        by (intro loop [of c m]) (auto simp: adaptive_fitting_prefix_def Let_def)
    next
      fix b assume "msr 0 = Inr b" "hard_limit_bytes ?p < b"
        "sample_estimate len ?p msr = Inl (NoEntryFits b (hard_limit_bytes ?p))"
      with None assms show thesis
        by (intro base [of b]) (auto simp: adaptive_fitting_prefix_def Let_def)
    qed
  next
    case (Some h)
    obtain m where m: "msr (clamp1 h len) = Inr m" using assms(3) by blast
    show thesis
    proof (cases "hard_limit_bytes ?p < m")
      case False
      with Some m assms clamp1_bounds [of len h] show thesis
        by (intro loop [of "clamp1 h len" m]) (auto simp: adaptive_fitting_prefix_def Let_def)
    next
      case True
      from est show thesis
      proof (elim disjE exE conjE)
        fix c assume c: "sample_estimate len ?p msr = Inr c"
        obtain m' where "msr c = Inr m'" using assms(3) by blast
        with c Some m True assms sample_estimate_bounds [OF c] show thesis
          by (intro loop [of c m']) (auto simp: adaptive_fitting_prefix_def Let_def)
      next
        fix b assume "msr 0 = Inr b" "hard_limit_bytes ?p < b"
          "sample_estimate len ?p msr = Inl (NoEntryFits b (hard_limit_bytes ?p))"
        with Some m True assms show thesis
          by (intro base [of b]) (auto simp: adaptive_fitting_prefix_def Let_def)
      qed
    qed
  qed
qed

section \<open>Properties\<close>

text \<open>
  C25. The message-sizing search. For a payload whose encoded size \<open>f\<close> is monotone in the number of
  entries, the search ends, whatever the hint and the policy: it returns a nonempty prefix of the
  entries together with its measured size, which is within the hard limit; and it refuses only
  when not even one entry fits (the hard limit is below the size of one entry).
\<close>

theorem adaptive_fitting_prefix_correct:
  assumes "mono f" and "0 < len"
  shows "case adaptive_fitting_prefix len hint p (\<lambda>n. Inr (f n)) of
      Inr None \<Rightarrow> False
    | Inr (Some r) \<Rightarrow> 1 \<le> entry_count r \<and> entry_count r \<le> len \<and> encoded_bytes r = f (entry_count r)
        \<and> encoded_bytes r \<le> max 1 (hard_limit_bytes p)
    | Inl e \<Rightarrow> max 1 (hard_limit_bytes p) < f 1"
proof -
  let ?msr = "\<lambda>n. Inr (f n) :: 'a + nat"
  have hard: "hard_limit_bytes (normalized p) = max 1 (hard_limit_bytes p)"
    by (simp add: normalized_def Let_def)
  consider (loop) c m where "1 \<le> c" "c \<le> len" "?msr c = Inr m"
      "adaptive_fitting_prefix len hint p ?msr = fit_loop (normalized p) ?msr c m"
    | (base) b where "?msr 0 = Inr b" "hard_limit_bytes (normalized p) < b"
      "adaptive_fitting_prefix len hint p ?msr
         = Inl (NoEntryFits b (hard_limit_bytes (normalized p)))"
    using adaptive_fitting_prefix_runs [OF assms(2) refl, of ?msr hint p] by blast
  then show ?thesis
  proof cases
    case loop
    have "fit_loop (normalized p) ?msr c m \<noteq> Inl (Measure e)" for e
      by (rule fit_loop_no_measure_error) simp
    then consider (ok) r where "fit_loop (normalized p) ?msr c m = Inr r"
      | (refuse) b h where "fit_loop (normalized p) ?msr c m = Inl (NoEntryFits b h)"
      by (metis fit_error.exhaust sum.exhaust)
    then show ?thesis
    proof cases
      case ok
      with fit_loop_sound [OF ok loop(3) loop(1)] loop(2,4) hard show ?thesis by auto
    next
      case refuse
      with fit_loop_refuse [OF refuse loop(3) loop(1)] loop(4) hard show ?thesis by auto
    qed
  next
    case base
    with monoD [OF assms(1), of 0 1] hard show ?thesis by auto
  qed
qed

text \<open>C25 on 1000 entries of 4096 bytes with the inter-canister policy.\<close>

theorem adaptive_fitting_prefix_correct_witness:
  "mono (\<lambda>n. 64 + 4096 * n :: nat) \<and>
   (\<exists>r. (adaptive_fitting_prefix 1000 None inter_canister (\<lambda>n. Inr (64 + 4096 * n)) :: unit fit_error + _)
       = Inr (Some r) \<and> entry_count r = 386 \<and> entry_count r \<le> 1000
       \<and> encoded_bytes r \<le> max 1 (hard_limit_bytes inter_canister))"
proof -
  let ?f = "\<lambda>n. 64 + 4096 * n :: nat"
  let ?run = "adaptive_fitting_prefix 1000 None inter_canister (\<lambda>n. Inr (?f n)) :: unit fit_error + _"
  have mono: "mono ?f" by (simp add: mono_def)
  have run: "?run = Inr (Some \<lparr>entry_count = 386, encoded_bytes = ?f 386\<rparr>)"
    by (simp add: adaptive_fitting_prefix_def inter_canister_def normalized_def sample_estimate_def
        estimate_count_def clamp1_def fit_loop.simps INTER_CANISTER_TARGET_PAYLOAD_BYTES_def
        MAX_SAFE_INTER_CANISTER_REQUEST_PAYLOAD_BYTES_def INTER_CANISTER_MESSAGE_HEADROOM_BYTES_def
        INTER_CANISTER_INITIAL_SAMPLE_ENTRIES_def)
  show ?thesis
    using mono run adaptive_fitting_prefix_correct [OF mono, where len = 1000 and hint = None
        and p = inter_canister and 'a = unit]
    unfolding run by simp
qed

end
