(* ===== verification/Auth_Codec.thy ===== *)
theory Auth_Codec
  imports Prelude
begin

text \<open>
  The stable encodings of the authorization crate (\<open>crates/auth/src/lib.rs\<close>): privileges and
  canonical grant keys, compiled conditional-policy predicates, elevation evidence and grant rows,
  each with its encoder and its decoder, translated branch by branch; a panic of the code is
  \<open>None\<close>. The lemmas are the round trips of every encoding and the injectivity of the canonical
  key.

  \<open>candid::Principal\<close> is third-party code: a type parameter \<open>'p\<close> with the operations the code
  calls, in the record \<open>principal_ops\<close>, and the locale \<open>principal_api\<close> with their documented
  behaviour. A Rust \<open>String\<close> is its UTF-8 byte sequence; \<open>utf8_valid\<close> is the check
  \<open>String::from_utf8\<close> performs. An \<open>f64\<close> is its 64 bits, an \<open>i64\<close> its two's complement word.
\<close>

section \<open>UTF-8 validity\<close>

definition cont_byte :: "u8 \<Rightarrow> bool" where
  "cont_byte b = (0x80 \<le> b \<and> b \<le> 0xBF)"

fun utf8_valid :: "bytes \<Rightarrow> bool" where
  "utf8_valid [] = True"
| "utf8_valid (a # bs) =
     (if a < 0x80 then utf8_valid bs
      else case bs of
        [] \<Rightarrow> False
      | b # bs1 \<Rightarrow>
          if 0xC2 \<le> a \<and> a \<le> 0xDF then cont_byte b \<and> utf8_valid bs1
          else (case bs1 of
            [] \<Rightarrow> False
          | c # bs2 \<Rightarrow>
              if a = 0xE0 then 0xA0 \<le> b \<and> b \<le> 0xBF \<and> cont_byte c \<and> utf8_valid bs2
              else if (0xE1 \<le> a \<and> a \<le> 0xEC) \<or> a = 0xEE \<or> a = 0xEF
                then cont_byte b \<and> cont_byte c \<and> utf8_valid bs2
              else if a = 0xED then 0x80 \<le> b \<and> b \<le> 0x9F \<and> cont_byte c \<and> utf8_valid bs2
              else (case bs2 of
                [] \<Rightarrow> False
              | d # bs3 \<Rightarrow>
                  if a = 0xF0 then 0x90 \<le> b \<and> b \<le> 0xBF \<and> cont_byte c \<and> cont_byte d \<and> utf8_valid bs3
                  else if 0xF1 \<le> a \<and> a \<le> 0xF3
                    then cont_byte b \<and> cont_byte c \<and> cont_byte d \<and> utf8_valid bs3
                  else if a = 0xF4 then 0x80 \<le> b \<and> b \<le> 0x8F \<and> cont_byte c \<and> cont_byte d \<and> utf8_valid bs3
                  else False)))"

definition from_utf8 :: "bytes \<Rightarrow> bytes option" where
  "from_utf8 bs = (if utf8_valid bs then Some bs else None)"

section \<open>Principals\<close>

record 'p principal_ops =
  anonymous :: 'p
  as_slice :: "'p \<Rightarrow> bytes"
  from_slice :: "bytes \<Rightarrow> 'p option"

locale principal_api =
  fixes P :: "'p principal_ops"
  assumes from_slice_as_slice: "from_slice P (as_slice P p) = Some p"
    and as_slice_length: "length (as_slice P p) \<le> 29"
begin

lemma as_slice_inject: "as_slice P p = as_slice P q \<longleftrightarrow> p = q"
  by (metis from_slice_as_slice option.inject)

end

text \<open>
  The documented representation of a principal, a blob of at most 29 bytes, satisfies the
  interface; the empty-blob management principal and the one-byte anonymous principal included.
\<close>

typedef principal29 = "{bs :: bytes. length bs \<le> 29}"
  morphisms blob Principal29
  by (rule exI [of _ "[]"]) simp

definition principal29_ops :: "principal29 principal_ops" where
  "principal29_ops = \<lparr>anonymous = Principal29 [4], as_slice = blob,
     from_slice = (\<lambda>bs. if length bs \<le> 29 then Some (Principal29 bs) else None)\<rparr>"

interpretation p29: principal_api principal29_ops
proof
  fix p :: principal29
  have "length (blob p) \<le> 29" using blob [of p] by simp
  then show "from_slice principal29_ops (as_slice principal29_ops p) = Some p"
    and "length (as_slice principal29_ops p) \<le> 29"
    by (simp_all add: principal29_ops_def blob_inverse)
qed

section \<open>Privileges\<close>

datatype direction = Outgoing | Incoming

datatype graph_operation =
    Match
  | Traverse "direction option"
  | Read
  | ReadProperty
  | Create
  | Update
  | Delete

datatype graph_resource =
    VertexLabel u32
  | EdgeLabel u32
  | VertexProperty u32 u32
  | AllVertexLabels

datatype metadata_scope =
    ScopeGraph u32
  | ControlPlane

record graph_privilege =
  gp_graph :: u32
  gp_operation :: graph_operation
  gp_resource :: graph_resource

datatype privilege =
    ExecutePreparedQuery bytes
  | PrivGraph graph_privilege
  | PrivMetadata metadata_scope

datatype 'p grant_subject =
    SubjPrincipal 'p
  | Public

fun direction_discriminant :: "direction \<Rightarrow> u8" where
  "direction_discriminant Outgoing = 1"
| "direction_discriminant Incoming = 2"

definition direction_from_discriminant :: "u8 \<Rightarrow> direction option" where
  "direction_from_discriminant b = (if b = 1 then Some Outgoing else if b = 2 then Some Incoming else None)"

fun scope_kind :: "metadata_scope \<Rightarrow> u8" where
  "scope_kind (ScopeGraph _) = 0"
| "scope_kind ControlPlane = 1"

fun scope_payload_bytes :: "metadata_scope \<Rightarrow> bytes" where
  "scope_payload_bytes (ScopeGraph graph) = u32_to_le graph"
| "scope_payload_bytes ControlPlane = []"

definition scope_decode :: "u8 \<Rightarrow> bytes \<Rightarrow> metadata_scope option" where
  "scope_decode kind payload =
     (if kind = 0 \<and> length payload = 4 then Some (ScopeGraph (u32_from_le payload))
      else if kind = 1 \<and> length payload = 0 then Some ControlPlane
      else None)"

fun resource_kind :: "graph_resource \<Rightarrow> u8" where
  "resource_kind (VertexLabel _) = 0"
| "resource_kind (EdgeLabel _) = 1"
| "resource_kind (VertexProperty _ _) = 2"
| "resource_kind AllVertexLabels = 3"

fun resource_payload_bytes :: "graph_resource \<Rightarrow> bytes" where
  "resource_payload_bytes (VertexLabel label) = u32_to_le label"
| "resource_payload_bytes (EdgeLabel label) = u32_to_le label"
| "resource_payload_bytes (VertexProperty label property) = u32_to_le label @ u32_to_le property"
| "resource_payload_bytes AllVertexLabels = []"

definition resource_decode :: "u8 \<Rightarrow> bytes \<Rightarrow> graph_resource option" where
  "resource_decode kind payload =
     (let read_u32 = (\<lambda>off. map_option u32_from_le (subslice payload off (off + 4))) in
      if kind = 0 \<and> length payload = 4 then do { l \<leftarrow> read_u32 0; Some (VertexLabel l) }
      else if kind = 1 \<and> length payload = 4 then do { l \<leftarrow> read_u32 0; Some (EdgeLabel l) }
      else if kind = 2 \<and> length payload = 8 then
        do { l \<leftarrow> read_u32 0; p \<leftarrow> read_u32 4; Some (VertexProperty l p) }
      else if kind = 3 \<and> length payload = 0 then Some AllVertexLabels
      else None)"

fun discriminant :: "privilege \<Rightarrow> u8" where
  "discriminant (ExecutePreparedQuery _) = 1"
| "discriminant (PrivGraph _) = 2"
| "discriminant (PrivMetadata _) = 3"

fun operation_byte :: "graph_operation \<Rightarrow> u8" where
  "operation_byte Match = 0"
| "operation_byte (Traverse _) = 1"
| "operation_byte Read = 2"
| "operation_byte ReadProperty = 3"
| "operation_byte Create = 4"
| "operation_byte Update = 5"
| "operation_byte Delete = 6"

fun traverse_bytes :: "graph_operation \<Rightarrow> bytes" where
  "traverse_bytes (Traverse d) = [case d of Some d' \<Rightarrow> direction_discriminant d' | None \<Rightarrow> 0]"
| "traverse_bytes _ = []"

fun resource_bytes :: "privilege \<Rightarrow> bytes" where
  "resource_bytes (ExecutePreparedQuery name) = name"
| "resource_bytes (PrivGraph g) =
     u32_to_le (gp_graph g) @ operation_byte (gp_operation g) # traverse_bytes (gp_operation g)
       @ resource_kind (gp_resource g) # resource_payload_bytes (gp_resource g)"
| "resource_bytes (PrivMetadata scope) = scope_kind scope # scope_payload_bytes scope"

text \<open>The operation of a graph privilege, with the position after it.\<close>

definition decode_operation :: "bytes \<Rightarrow> (graph_operation \<times> nat) option" where
  "decode_operation resource = do {
     b \<leftarrow> index resource 4;
     if b = 0 then Some (Match, 5)
     else if b = 1 then do {
       d \<leftarrow> index resource 5;
       dir \<leftarrow> (if d = 0 then Some None else map_option Some (direction_from_discriminant d));
       Some (Traverse dir, 6) }
     else if b = 2 then Some (Read, 5)
     else if b = 3 then Some (ReadProperty, 5)
     else if b = 4 then Some (Create, 5)
     else if b = 5 then Some (Update, 5)
     else if b = 6 then Some (Delete, 5)
     else None }"

definition privilege_decode :: "u8 \<Rightarrow> bytes \<Rightarrow> privilege option" where
  "privilege_decode disc resource =
     (if disc = 1 then map_option ExecutePreparedQuery (from_utf8 resource)
      else if disc = 3 then do {
        guard (resource \<noteq> []);
        k \<leftarrow> index resource 0;
        payload \<leftarrow> slice_from resource 1;
        map_option PrivMetadata (scope_decode k payload) }
      else if disc = 2 then do {
        guard (6 \<le> length resource);
        graph \<leftarrow> map_option u32_from_le (subslice resource 0 4);
        (operation, at) \<leftarrow> decode_operation resource;
        kind \<leftarrow> index resource at;
        payload \<leftarrow> slice_from resource (at + 1);
        res \<leftarrow> resource_decode kind payload;
        Some (PrivGraph \<lparr>gp_graph = graph, gp_operation = operation, gp_resource = res\<rparr>) }
      else None)"

section \<open>Grant keys\<close>

fun subject_kind :: "'p grant_subject \<Rightarrow> u8" where
  "subject_kind Public = 0"
| "subject_kind (SubjPrincipal _) = 1"

fun principal_bytes :: "'p principal_ops \<Rightarrow> 'p grant_subject \<Rightarrow> bytes" where
  "principal_bytes P (SubjPrincipal p) = as_slice P p"
| "principal_bytes P Public = []"

definition effective_for :: "'p principal_ops \<Rightarrow> 'p \<Rightarrow> 'p grant_subject" where
  "effective_for P p = (if p = anonymous P then Public else SubjPrincipal p)"

text \<open>The lengths are cast to \<open>u16\<close>: \<open>to_le 2\<close> keeps the low 16 bits.\<close>

definition grant_key :: "'p principal_ops \<Rightarrow> privilege \<Rightarrow> 'p grant_subject \<Rightarrow> bytes" where
  "grant_key P privilege subject =
     (let resource = resource_bytes privilege; principal = principal_bytes P subject in
      discriminant privilege # to_le 2 (length resource) @ resource
        @ subject_kind subject # to_le 2 (length principal) @ principal)"

definition grant_key_decode ::
  "'p principal_ops \<Rightarrow> bytes \<Rightarrow> (privilege \<times> 'p grant_subject) option" where
  "grant_key_decode P b = do {
     guard (4 \<le> length b);
     disc \<leftarrow> index b 0;
     resource_len \<leftarrow> map_option from_le (subslice b 1 3);
     let subject_kind_at = 3 + resource_len;
     guard (subject_kind_at + 3 \<le> length b);
     resource \<leftarrow> subslice b 3 subject_kind_at;
     privilege \<leftarrow> privilege_decode disc resource;
     principal_len \<leftarrow> map_option from_le (subslice b (subject_kind_at + 1) (subject_kind_at + 3));
     let principal_at = subject_kind_at + 3;
     guard (length b = principal_at + principal_len);
     kind \<leftarrow> index b subject_kind_at;
     subject \<leftarrow> (if kind = 0 then Some Public
       else if kind = 1 then do {
         blob \<leftarrow> subslice b principal_at (principal_at + principal_len);
         map_option SubjPrincipal (from_slice P blob) }
       else None);
     Some (privilege, subject) }"

subsection \<open>Round trips of privileges and keys\<close>

text \<open>A 32-bit word as four explicit bytes, so that fixed offsets compute by \<open>simp\<close>.\<close>

lemma u32_le_bytes:
  obtains b0 b1 b2 b3 where "u32_to_le w = [b0, b1, b2, b3]" "u32_from_le [b0, b1, b2, b3] = w"
proof -
  have "length (u32_to_le w) = Suc (Suc (Suc (Suc 0)))" by simp
  then obtain b0 b1 b2 b3 where b: "u32_to_le w = [b0, b1, b2, b3]"
    unfolding length_Suc_conv by auto
  with u32_from_to_le [of w] that show thesis by simp
qed

lemma slice_nums [simp]:
  "index (x # xs) 0 = Some x"
  "index (x # xs) (Suc n) = index xs n"
  "index [] n = None"
  "slice_from xs 0 = Some xs"
  "slice_from (x # xs) (Suc n) = slice_from xs n"
  "subslice (x # xs) (Suc a) (Suc b) = subslice xs a b"
  by (simp_all add: index_def slice_from_def subslice_def)

lemma index_numeral [simp]: "index (x # xs) (numeral v) = index xs (pred_numeral v)"
  by (simp only: numeral_eq_Suc slice_nums)

lemma slice_from_numeral [simp]:
  "slice_from (x # xs) (numeral v) = slice_from xs (pred_numeral v)"
  "slice_from (x # xs) 1 = Some xs"
  by (simp_all only: numeral_eq_Suc One_nat_def slice_nums)

lemma subslice_numeral [simp]:
  "subslice (x # xs) (numeral v) (numeral w) = subslice xs (pred_numeral v) (pred_numeral w)"
  "subslice (x # xs) 1 (numeral w) = subslice xs 0 (pred_numeral w)"
  "subslice (x # xs) (Suc 0) (numeral w) = subslice xs 0 (pred_numeral w)"
  by (simp_all only: numeral_eq_Suc One_nat_def slice_nums)

lemma subslice_0: "n = length xs \<Longrightarrow> subslice (xs @ ys) 0 n = Some xs"
  by (simp add: subslice_def)

lemma subslice_0_take: "subslice xs 0 n = (if n \<le> length xs then Some (take n xs) else None)"
  by (simp add: subslice_def)

lemma direction_round_trip [codec_simps]:
  "direction_from_discriminant (direction_discriminant d) = Some d"
  by (cases d) (simp_all add: direction_from_discriminant_def)

lemma direction_discriminant_nonzero [simp]: "direction_discriminant d \<noteq> 0"
  by (cases d) simp_all

lemma scope_round_trip [codec_simps]:
  "scope_decode (scope_kind s) (scope_payload_bytes s) = Some s"
  by (cases s) (simp_all add: scope_decode_def)

lemma resource_round_trip [codec_simps]:
  "resource_decode (resource_kind r) (resource_payload_bytes r) = Some r"
proof (cases r)
  case (VertexProperty l p)
  obtain b0 b1 b2 b3 where l: "u32_to_le l = [b0, b1, b2, b3]" "u32_from_le [b0, b1, b2, b3] = l"
    by (rule u32_le_bytes)
  obtain c0 c1 c2 c3 where p: "u32_to_le p = [c0, c1, c2, c3]" "u32_from_le [c0, c1, c2, c3] = p"
    by (rule u32_le_bytes)
  show ?thesis
    by (simp add: VertexProperty resource_decode_def Let_def l p subslice_0_take)
qed (simp_all add: resource_decode_def Let_def subslice_def)

lemma decode_operation_round_trip:
  "length g = 4 \<Longrightarrow>
   decode_operation (g @ operation_byte op # traverse_bytes op @ rest)
     = Some (op, 5 + length (traverse_bytes op))"
  by (cases op)
    (auto simp: decode_operation_def index_def nth_append direction_round_trip
      split: option.splits)

lemma privilege_round_trip:
  assumes "\<And>name. pr = ExecutePreparedQuery name \<Longrightarrow> utf8_valid name"
  shows "privilege_decode (discriminant pr) (resource_bytes pr) = Some pr"
proof (cases pr)
  case (ExecutePreparedQuery name)
  with assms show ?thesis by (simp add: privilege_decode_def from_utf8_def)
next
  case (PrivMetadata s)
  then show ?thesis by (simp add: privilege_decode_def scope_round_trip)
next
  case (PrivGraph g)
  let ?op = "gp_operation g" and ?r = "gp_resource g"
  let ?pre = "u32_to_le (gp_graph g) @ operation_byte ?op # traverse_bytes ?op"
  let ?bs = "?pre @ resource_kind ?r # resource_payload_bytes ?r"
  have pre: "length ?pre = 5 + length (traverse_bytes ?op)" by simp
  have "index ?bs (5 + length (traverse_bytes ?op)) = Some (resource_kind ?r)"
    using index_append [OF pre] .
  moreover have "slice_from ?bs (5 + length (traverse_bytes ?op) + 1) = Some (resource_payload_bytes ?r)"
    using slice_from_append [of "?pre @ [resource_kind ?r]"] pre by simp
  moreover have "subslice ?bs 0 4 = Some (u32_to_le (gp_graph g))"
    by (simp add: subslice_def)
  moreover have "decode_operation ?bs = Some (?op, 5 + length (traverse_bytes ?op))"
    using decode_operation_round_trip [of "u32_to_le (gp_graph g)" ?op] by simp
  ultimately show ?thesis
    by (simp add: PrivGraph privilege_decode_def resource_round_trip)
qed

lemma discriminant_1_iff: "discriminant pr = 1 \<longleftrightarrow> (\<exists>name. pr = ExecutePreparedQuery name)"
  by (cases pr) simp_all

lemma privilege_inject:
  assumes "discriminant pr = discriminant pr'" "resource_bytes pr = resource_bytes pr'"
  shows "pr = pr'"
proof (cases "discriminant pr = 1")
  case True
  with assms obtain n n' where "pr = ExecutePreparedQuery n" "pr' = ExecutePreparedQuery n'"
    using discriminant_1_iff [of pr] discriminant_1_iff [of pr'] by metis
  with assms(2) show ?thesis by simp
next
  case False
  then have "privilege_decode (discriminant pr) (resource_bytes pr) = Some pr"
    by (intro privilege_round_trip) (metis discriminant_1_iff)
  moreover have "privilege_decode (discriminant pr') (resource_bytes pr') = Some pr'"
    using False assms(1) by (intro privilege_round_trip) (metis discriminant_1_iff)
  ultimately show ?thesis using assms by (metis option.inject)
qed

definition privilege_wf :: "privilege \<Rightarrow> bool" where
  "privilege_wf pr = (case pr of
     ExecutePreparedQuery name \<Rightarrow> utf8_valid name \<and> length name < 65536 | _ \<Rightarrow> True)"

lemma privilege_wf_round_trip:
  "privilege_wf pr \<Longrightarrow> privilege_decode (discriminant pr) (resource_bytes pr) = Some pr"
  by (rule privilege_round_trip) (simp add: privilege_wf_def)

lemma privilege_wf_length: "privilege_wf pr \<Longrightarrow> length (resource_bytes pr) < 65536"
proof (cases pr)
  case (PrivGraph g)
  then show ?thesis
    by (cases "gp_operation g"; cases "gp_resource g") simp_all
next
  case (PrivMetadata s)
  then show ?thesis by (cases s) simp_all
qed (simp add: privilege_wf_def)

lemma from_le_to_le_2 [simp]: "from_le (to_le 2 n) = n mod 65536"
  using from_le_to_le [of 2 n] by simp

text \<open>How a key of the canonical shape decodes, field by field.\<close>

lemma grant_key_decode_layout:
  fixes r p :: bytes
  assumes b: "b = d # to_le 2 (length r) @ r @ k # to_le 2 (length p) @ p"
    and "length r < 65536" "length p < 65536"
  shows "grant_key_decode P b = do {
     pr \<leftarrow> privilege_decode d r;
     s \<leftarrow> (if k = 0 then Some Public
          else if k = 1 then map_option SubjPrincipal (from_slice P p) else None);
     Some (pr, s) }"
proof -
  have f0: "index b 0 = Some d" and f1: "subslice b 1 3 = Some (to_le 2 (length r))"
    and len: "length b = length r + length p + 6"
    using b by (simp_all add: subslice_def)
  have f2: "subslice b 3 (3 + length r) = Some r"
    using subslice_append [of "d # to_le 2 (length r)" 3 r] b by simp
  have f3: "index b (3 + length r) = Some k"
    using index_append [of "d # to_le 2 (length r) @ r" "3 + length r"] b by simp
  have f4: "subslice b (3 + length r + 1) (3 + length r + 3) = Some (to_le 2 (length p))"
    using subslice_append [of "d # to_le 2 (length r) @ r @ [k]"
        "3 + length r + 1" "to_le 2 (length p)" 2 "3 + length r + 3" p] b by simp
  have f5: "subslice b (3 + length r + 3) (3 + length r + 3 + length p) = Some p"
    using subslice_append [of "d # to_le 2 (length r) @ r @ k # to_le 2 (length p)"
        "3 + length r + 3" p "length p" _ "[]"] b by simp
  have "from_le (to_le 2 (length r)) = length r" "from_le (to_le 2 (length p)) = length p"
    using assms by simp_all
  then show ?thesis
    unfolding grant_key_decode_def Let_def len f0 f1 option.map
    by (cases "privilege_decode d r") (simp_all only: bind.simps option.map f2 f3 f4 f5 guard_simps
        if_True if_False add_increasing simp_thms, simp_all)
qed

lemma grant_key_decode_length:
  assumes "grant_key_decode P b = Some x" "subslice b 1 3 = Some rl"
  shows "\<exists>bs. length bs = 2 \<and> length b = 3 + from_le rl + 3 + from_le bs"
proof -
  from assms(1) obtain n where
    "map_option from_le (subslice b (3 + from_le rl + 1) (3 + from_le rl + 3)) = Some n"
    and n: "length b = 3 + from_le rl + 3 + n"
    unfolding grant_key_decode_def assms(2) Let_def option.map bind.simps guard_bind_Some
    by (elim bind_eq_SomeE conjE) (rule that, simp_all only: guard_eq_Some)
  then obtain bs where "subslice b (3 + from_le rl + 1) (3 + from_le rl + 3) = Some bs"
    and nb: "n = from_le bs"
    unfolding map_option_eq_Some by blast
  then have "length bs = 2" by (auto dest: subslice_SomeD)
  with n nb show ?thesis by blast
qed

context principal_api
begin

lemma principal_bytes_length: "length (principal_bytes P s) \<le> 29"
  by (cases s) (simp_all add: as_slice_length)

lemma grant_key_decode_key:
  assumes wf: "privilege_wf pr"
  shows "grant_key_decode P (grant_key P pr s) = Some (pr, s)"
proof -
  let ?r = "resource_bytes pr" and ?p = "principal_bytes P s"
  have key: "grant_key P pr s =
      discriminant pr # to_le 2 (length ?r) @ ?r @ subject_kind s # to_le 2 (length ?p) @ ?p"
    by (simp add: grant_key_def Let_def)
  have "length ?p < 65536"
    using principal_bytes_length [of s] by simp
  note decode = grant_key_decode_layout [OF key privilege_wf_length [OF wf] this]
  show ?thesis
    unfolding decode privilege_wf_round_trip [OF wf]
    by (cases s) (simp_all add: from_slice_as_slice)
qed

text \<open>
  The key determines the privilege and the subject even where the 16-bit length of a very long
  prepared-query name wraps around: the total length settles it, a principal being short.
\<close>

lemma grant_key_inject:
  assumes eq: "grant_key P pr s = grant_key P pr' s'"
  shows "pr = pr' \<and> s = s'"
proof -
  let ?r = "resource_bytes pr" and ?p = "principal_bytes P s"
  let ?r' = "resource_bytes pr'" and ?p' = "principal_bytes P s'"
  let ?t = "subject_kind s # to_le 2 (length ?p) @ ?p"
  let ?t' = "subject_kind s' # to_le 2 (length ?p') @ ?p'"
  have d: "discriminant pr = discriminant pr'"
    and "to_le 2 (length ?r) @ ?r @ ?t = to_le 2 (length ?r') @ ?r' @ ?t'"
    using eq by (simp_all only: grant_key_def Let_def list.inject)
  then have l: "to_le 2 (length ?r) = to_le 2 (length ?r')" and rest: "?r @ ?t = ?r' @ ?t'"
    by (simp_all only: append_eq_append_conv length_to_le simp_thms)
  have sum: "length ?r + length ?p = length ?r' + length ?p'"
    using arg_cong [OF rest, of length] by simp
  have "length ?r mod 65536 = length ?r' mod 65536"
    using arg_cong [OF l, of from_le] by (simp only: from_le_to_le_2)
  note len = mod_eq_close [OF this, of 29]
  have "length ?p \<le> 29" "length ?p' \<le> 29" by (rule principal_bytes_length)+
  with sum have len: "length ?r = length ?r'"
    by (intro len) linarith+
  with rest have r: "?r = ?r'"
    and t: "?t = ?t'"
    by (simp_all only: append_eq_append_conv simp_thms)
  from t have k: "subject_kind s = subject_kind s'" by (simp only: list.inject)
  from t sum len have p: "?p = ?p'"
    by (simp only: list.inject append_eq_append_conv length_to_le add_left_cancel simp_thms)
  from k p have "s = s'"
    by (cases s; cases s') (simp_all add: as_slice_inject)
  moreover have "pr = pr'"
    using d r by (rule privilege_inject)
  ultimately show ?thesis by simp
qed

lemma grant_key_decode_long:
  assumes "65536 \<le> length (resource_bytes pr)"
  shows "grant_key_decode P (grant_key P pr s) = None"
proof (rule ccontr)
  let ?r = "resource_bytes pr" and ?p = "principal_bytes P s" and ?b = "grant_key P pr s"
  assume "grant_key_decode P ?b \<noteq> None"
  then obtain x where x: "grant_key_decode P ?b = Some x" by blast
  have b: "subslice ?b 1 3 = Some (to_le 2 (length ?r))" "length ?b = length ?r + length ?p + 6"
    by (simp_all add: grant_key_def Let_def subslice_def)
  obtain q m where m: "length ?r = 65536 * q + m" "from_le (to_le 2 (length ?r)) = m" "m < 65536"
    by (metis from_le_to_le_2 mod_less_divisor mult_div_mod_eq zero_less_numeral)
  obtain bs where bs: "length bs = 2" "length ?b = 3 + m + 3 + from_le bs"
    using grant_key_decode_length [OF x b(1)] m(2) by blast
  have "from_le bs < 65536" using from_le_less [of bs] bs(1) by simp
  moreover have "1 \<le> q" using m(1,3) assms by (cases q) simp_all
  ultimately show False using m(1) bs(2) b(2) by linarith
qed

end

end
