(* ===== verification/Auth_Rows.thy ===== *)
theory Auth_Rows
  imports Auth_Codec
begin

text \<open>
  Stored grant rows of the authorization crate (\<open>crates/auth/src/lib.rs\<close>): compiled
  conditional-policy predicates with their traversal chains, elevation evidence, and the tagged row
  encoding, each with its decoder. Encoders may panic (caps on the number of conjuncts, hops and
  literal bytes), so they return an option; the lemmas show that whatever was encoded is decoded
  back exactly.
\<close>

section \<open>Policy comparisons\<close>

datatype predicate_op = OpEq | OpNe | OpLt | OpLe | OpGt | OpGe

datatype predicate_literal =
    LitBool bool
  | LitInt u64
  | LitFloat u64
  | LitString bytes

datatype predicate_value =
    Literal predicate_literal
  | MsgCaller

record predicate_comparison =
  cmp_property :: u32
  cmp_op :: predicate_op
  cmp_value :: predicate_value

fun op_discriminant :: "predicate_op \<Rightarrow> u8" where
  "op_discriminant OpEq = 0"
| "op_discriminant OpNe = 1"
| "op_discriminant OpLt = 2"
| "op_discriminant OpLe = 3"
| "op_discriminant OpGt = 4"
| "op_discriminant OpGe = 5"

definition op_from_discriminant :: "u8 \<Rightarrow> predicate_op option" where
  "op_from_discriminant b =
     (if b = 0 then Some OpEq else if b = 1 then Some OpNe else if b = 2 then Some OpLt
      else if b = 3 then Some OpLe else if b = 4 then Some OpGt else if b = 5 then Some OpGe
      else None)"

definition prefix_bytes :: "bytes \<Rightarrow> bytes option" where
  "prefix_bytes s = do {
     guard (length s \<le> 15);
     Some (word_of_nat (length s) # s @ replicate (15 - length s) 0) }"

definition decode_prefix_bytes :: "bytes \<Rightarrow> bytes option" where
  "decode_prefix_bytes payload = do {
     l \<leftarrow> index payload 0;
     let len = unat l;
     guard (len \<le> 15);
     s \<leftarrow> subslice payload 1 (len + 1);
     from_utf8 s }"

text \<open>The tag and the 16-byte payload of a literal.\<close>

fun literal_payload :: "predicate_literal \<Rightarrow> (u8 \<times> bytes) option" where
  "literal_payload (LitBool b) = Some (0, (if b then 1 else 0) # replicate 15 0)"
| "literal_payload (LitInt i) = Some (1, u64_to_le i @ replicate 8 0)"
| "literal_payload (LitFloat f) = Some (2, u64_to_le f @ replicate 8 0)"
| "literal_payload (LitString s) = map_option (Pair 3) (prefix_bytes s)"

definition comparison_to_bytes :: "predicate_comparison \<Rightarrow> bytes option" where
  "comparison_to_bytes c = do {
     v \<leftarrow> (case cmp_value c of
        MsgCaller \<Rightarrow> Some [0]
      | Literal l \<Rightarrow> do { (tag, payload) \<leftarrow> literal_payload l; Some (1 # tag # payload) });
     Some (u32_to_le (cmp_property c) @ op_discriminant (cmp_op c) # v) }"

definition literal_decode :: "u8 \<Rightarrow> bytes \<Rightarrow> predicate_literal option" where
  "literal_decode tag payload =
     (if tag = 0 then do { b \<leftarrow> index payload 0; Some (LitBool (b = 1)) }
      else if tag = 1 then map_option (\<lambda>s. LitInt (u64_from_le s)) (subslice payload 0 8)
      else if tag = 2 then map_option (\<lambda>s. LitFloat (u64_from_le s)) (subslice payload 0 8)
      else if tag = 3 then map_option LitString (decode_prefix_bytes payload)
      else None)"

definition comparison_decode :: "bytes \<Rightarrow> predicate_comparison option" where
  "comparison_decode bs = do {
     guard (6 \<le> length bs);
     property \<leftarrow> map_option u32_from_le (subslice bs 0 4);
     opb \<leftarrow> index bs 4;
     op \<leftarrow> op_from_discriminant opb;
     kind \<leftarrow> index bs 5;
     val \<leftarrow> (if kind = 0 then Some MsgCaller
       else if kind = 1 then do {
         guard (23 \<le> length bs);
         tag \<leftarrow> index bs 6;
         payload \<leftarrow> subslice bs 7 23;
         map_option Literal (literal_decode tag payload) }
       else None);
     Some \<lparr>cmp_property = property, cmp_op = op, cmp_value = val\<rparr> }"

section \<open>Chains and predicates\<close>

definition MAX_PREDICATE_CONJUNCTS :: nat where "MAX_PREDICATE_CONJUNCTS = 8"

definition MAX_CHAIN_HOPS :: nat where "MAX_CHAIN_HOPS = 2"

datatype hop_direction = HopOutgoing | HopIncoming | HopBoth

record predicate_chain_hop =
  edge_label :: u32
  hop_dir :: hop_direction
  dest_label :: u32

record predicate_chain =
  hops :: "predicate_chain_hop list"
  terminal_conjuncts :: "predicate_comparison list"

record compiled_predicate =
  pred_label :: u32
  conjuncts :: "predicate_comparison list"
  chain :: "predicate_chain option"

fun hop_discriminant :: "hop_direction \<Rightarrow> u8" where
  "hop_discriminant HopOutgoing = 0"
| "hop_discriminant HopIncoming = 1"
| "hop_discriminant HopBoth = 2"

definition hop_from_discriminant :: "u8 \<Rightarrow> hop_direction option" where
  "hop_from_discriminant tag =
     (if tag = 0 then Some HopOutgoing else if tag = 1 then Some HopIncoming
      else if tag = 2 then Some HopBoth else None)"

text \<open>The loops that append the encoding of each conjunct, and of each hop.\<close>

fun comparisons_to_bytes :: "predicate_comparison list \<Rightarrow> bytes option" where
  "comparisons_to_bytes [] = Some []"
| "comparisons_to_bytes (c # cs) = do {
     a \<leftarrow> comparison_to_bytes c;
     b \<leftarrow> comparisons_to_bytes cs;
     Some (a @ b) }"

definition hop_to_bytes :: "predicate_chain_hop \<Rightarrow> bytes" where
  "hop_to_bytes h = u32_to_le (edge_label h) @ hop_discriminant (hop_dir h) # u32_to_le (dest_label h)"

definition chain_to_bytes :: "predicate_chain \<Rightarrow> bytes option" where
  "chain_to_bytes c = do {
     guard (1 \<le> length (hops c) \<and> length (hops c) \<le> MAX_CHAIN_HOPS);
     guard (terminal_conjuncts c \<noteq> []);
     guard (length (terminal_conjuncts c) \<le> MAX_PREDICATE_CONJUNCTS);
     ts \<leftarrow> comparisons_to_bytes (terminal_conjuncts c);
     Some (word_of_nat (length (hops c)) # concat (map hop_to_bytes (hops c))
       @ word_of_nat (length (terminal_conjuncts c)) # ts) }"

text \<open>A comparison is self-delimiting by the value-kind byte at offset 5.\<close>

definition comparison_width :: "bytes \<Rightarrow> nat \<Rightarrow> nat option" where
  "comparison_width bs at = (case get bs (at + 5) of
     Some k \<Rightarrow> (if k = 0 then Some 6 else if k = 1 then Some 23 else None)
   | None \<Rightarrow> None)"

fun decode_comparisons ::
  "bytes \<Rightarrow> nat \<Rightarrow> nat \<Rightarrow> (predicate_comparison list \<times> nat) option" where
  "decode_comparisons bs 0 at = Some ([], at)"
| "decode_comparisons bs (Suc n) at = do {
     width \<leftarrow> comparison_width bs at;
     sub \<leftarrow> subslice bs at (at + width);
     c \<leftarrow> comparison_decode sub;
     (cs, at') \<leftarrow> decode_comparisons bs n (at + width);
     Some (c # cs, at') }"

fun decode_hops :: "bytes \<Rightarrow> nat \<Rightarrow> nat \<Rightarrow> (predicate_chain_hop list \<times> nat) option" where
  "decode_hops bs 0 at = Some ([], at)"
| "decode_hops bs (Suc n) at = do {
     guard (at + 9 \<le> length bs);
     e \<leftarrow> map_option u32_from_le (subslice bs at (at + 4));
     tag \<leftarrow> index bs (at + 4);
     d \<leftarrow> hop_from_discriminant tag;
     v \<leftarrow> map_option u32_from_le (subslice bs (at + 5) (at + 9));
     (hs, at') \<leftarrow> decode_hops bs n (at + 9);
     Some (\<lparr>edge_label = e, hop_dir = d, dest_label = v\<rparr> # hs, at') }"

definition chain_decode :: "bytes \<Rightarrow> (predicate_chain \<times> nat) option" where
  "chain_decode bs = do {
     guard (bs \<noteq> []);
     hc \<leftarrow> index bs 0;
     let hop_count = unat hc;
     guard (1 \<le> hop_count \<and> hop_count \<le> MAX_CHAIN_HOPS);
     (hs, at) \<leftarrow> decode_hops bs hop_count 1;
     guard (at < length bs);
     tc \<leftarrow> index bs at;
     let terminal_count = unat tc;
     guard (1 \<le> terminal_count \<and> terminal_count \<le> MAX_PREDICATE_CONJUNCTS);
     (ts, at') \<leftarrow> decode_comparisons bs terminal_count (at + 1);
     Some (\<lparr>hops = hs, terminal_conjuncts = ts\<rparr>, at') }"

definition ENCODING_VERSION :: u8 where "ENCODING_VERSION = 2"

definition predicate_encode :: "compiled_predicate \<Rightarrow> bytes option" where
  "predicate_encode p = do {
     guard (length (conjuncts p) \<le> MAX_PREDICATE_CONJUNCTS);
     guard (chain p \<noteq> None \<or> conjuncts p \<noteq> []);
     cs \<leftarrow> comparisons_to_bytes (conjuncts p);
     tail \<leftarrow> (case chain p of Some c \<Rightarrow> map_option (Cons 1) (chain_to_bytes c) | None \<Rightarrow> Some [0]);
     Some (ENCODING_VERSION # u32_to_le (pred_label p) @ word_of_nat (length (conjuncts p)) # cs @ tail) }"

definition predicate_decode :: "bytes \<Rightarrow> compiled_predicate option" where
  "predicate_decode bs = do {
     guard (6 \<le> length bs);
     v \<leftarrow> index bs 0;
     guard (v = ENCODING_VERSION);
     label \<leftarrow> map_option u32_from_le (subslice bs 1 5);
     n \<leftarrow> index bs 5;
     let count = unat n;
     guard (count \<le> MAX_PREDICATE_CONJUNCTS);
     (cs, at) \<leftarrow> decode_comparisons bs count 6;
     flag \<leftarrow> get bs at;
     (ch, at') \<leftarrow> (if flag = 0 then do { guard (cs \<noteq> []); Some (None, at + 1) }
       else if flag = 1 then do {
         rest \<leftarrow> slice_from bs (at + 1);
         (c, consumed) \<leftarrow> chain_decode rest;
         Some (Some c, at + 1 + consumed) }
       else None);
     guard (at' = length bs);
     Some \<lparr>pred_label = label, conjuncts = cs, chain = ch\<rparr> }"

subsection \<open>Round trips of predicates\<close>

text \<open>String literals are UTF-8, as every Rust string is.\<close>

fun literal_wf :: "predicate_literal \<Rightarrow> bool" where
  "literal_wf (LitString s) = utf8_valid s"
| "literal_wf _ = True"

definition comparison_wf :: "predicate_comparison \<Rightarrow> bool" where
  "comparison_wf c = (case cmp_value c of Literal l \<Rightarrow> literal_wf l | MsgCaller \<Rightarrow> True)"

definition predicate_wf :: "compiled_predicate \<Rightarrow> bool" where
  "predicate_wf p = (list_all comparison_wf (conjuncts p)
     \<and> (case chain p of Some c \<Rightarrow> list_all comparison_wf (terminal_conjuncts c) | None \<Rightarrow> True))"

lemma op_round_trip [codec_simps]: "op_from_discriminant (op_discriminant x) = Some x"
  by (cases x) (simp_all add: op_from_discriminant_def)

lemma hop_round_trip [codec_simps]: "hop_from_discriminant (hop_discriminant x) = Some x"
  by (cases x) (simp_all add: hop_from_discriminant_def)

lemma unat_small_u8: "n < 256 \<Longrightarrow> unat (word_of_nat n :: u8) = n"
  by (simp add: unat_of_nat)

lemma prefix_bytes_round_trip:
  assumes "prefix_bytes s = Some bs" "utf8_valid s"
  shows "decode_prefix_bytes bs = Some s \<and> length bs = 16"
proof -
  from assms(1) have l: "length s \<le> 15"
    and bs: "bs = word_of_nat (length s) # s @ replicate (15 - length s) 0"
    by (auto simp: prefix_bytes_def guard_bind_Some)
  have "subslice bs 1 (length s + 1) = Some s"
    using subslice_append [of "[word_of_nat (length s)]" 1 s] bs by simp
  then show ?thesis
    using l bs assms(2) by (simp add: decode_prefix_bytes_def unat_small_u8 from_utf8_def)
qed

lemma literal_round_trip:
  assumes "literal_payload l = Some (tag, payload)" "literal_wf l"
  shows "literal_decode tag payload = Some l \<and> length payload = 16"
proof (cases l)
  case (LitString s)
  with assms prefix_bytes_round_trip [of s payload] show ?thesis
    by (auto simp: literal_decode_def)
qed (use assms in \<open>auto simp: literal_decode_def subslice_def\<close>)

text \<open>An encoded comparison decodes in any context, and its width is read off its bytes.\<close>

lemma comparison_round_trip:
  assumes "comparison_to_bytes c = Some bs" "comparison_wf c"
  shows "comparison_decode bs = Some c"
    and "comparison_width (pre @ bs @ post) (length pre) = Some (length bs)"
proof -
  obtain v where v: "(case cmp_value c of MsgCaller \<Rightarrow> Some [0]
      | Literal l \<Rightarrow> do { (tag, payload) \<leftarrow> literal_payload l; Some (1 # tag # payload) }) = Some v"
    and bs: "bs = u32_to_le (cmp_property c) @ op_discriminant (cmp_op c) # v"
    using assms(1) unfolding comparison_to_bytes_def by (elim bind_eq_SomeE) auto
  have p: "subslice bs 0 4 = Some (u32_to_le (cmp_property c))"
    and o: "index bs 4 = Some (op_discriminant (cmp_op c))"
    and k: "index bs 5 = index v 0" "get (pre @ bs @ post) (length pre + 5) = index (v @ post) 0"
    by (simp_all add: bs subslice_def index_def nth_append)
  show "comparison_decode bs = Some c"
    and "comparison_width (pre @ bs @ post) (length pre) = Some (length bs)"
  proof -
    have "comparison_decode bs = Some c
      \<and> comparison_width (pre @ bs @ post) (length pre) = Some (length bs)"
    proof (cases "cmp_value c")
      case MsgCaller
      with v have "v = [0]" by simp
      with MsgCaller p o k bs show ?thesis
        by (simp add: comparison_decode_def comparison_width_def op_round_trip)
    next
      case (Literal l)
      with v obtain tag payload where lp: "literal_payload l = Some (tag, payload)"
        and v': "v = 1 # tag # payload"
        by (auto elim!: bind_eq_SomeE)
      have l: "literal_decode tag payload = Some l" "length payload = 16"
        using literal_round_trip [OF lp] assms(2) Literal by (simp_all add: comparison_wf_def)
      have "index bs 6 = Some tag" "subslice bs 7 23 = Some payload" "length bs = 23"
        using l(2) by (simp_all add: bs v' subslice_def index_def nth_append)
      with Literal p o k l v' show ?thesis
        by (simp add: comparison_decode_def comparison_width_def op_round_trip)
    qed
    then show "comparison_decode bs = Some c"
      and "comparison_width (pre @ bs @ post) (length pre) = Some (length bs)" by simp_all
  qed
qed

lemma subslice_middle: "subslice (pre @ xs @ post) (length pre) (length pre + length xs) = Some xs"
  by (rule subslice_append) simp_all

lemma comparisons_round_trip:
  "comparisons_to_bytes cs = Some bs \<Longrightarrow> list_all comparison_wf cs \<Longrightarrow>
   decode_comparisons (pre @ bs @ post) (length cs) (length pre) = Some (cs, length pre + length bs)"
proof (induction cs arbitrary: bs pre)
  case Nil
  then show ?case by simp
next
  case (Cons c cs)
  then obtain a b where ab: "comparison_to_bytes c = Some a" "comparisons_to_bytes cs = Some b"
      "bs = a @ b" and wf: "comparison_wf c" "list_all comparison_wf cs"
    by (auto elim!: bind_eq_SomeE)
  have "decode_comparisons ((pre @ a) @ b @ post) (length cs) (length (pre @ a))
      = Some (cs, length (pre @ a) + length b)"
    by (rule Cons.IH [OF ab(2) wf(2)])
  then show ?case
    using comparison_round_trip(1) [OF ab(1) wf(1)]
      comparison_round_trip(2) [OF ab(1) wf(1), where pre = pre and post = "b @ post"]
      subslice_middle [of pre a "b @ post"]
    by (simp add: ab(3))
qed

lemma length_hop [simp]: "length (hop_to_bytes h) = 9"
  by (simp add: hop_to_bytes_def)

lemma hops_round_trip:
  "decode_hops (pre @ concat (map hop_to_bytes hs) @ post) (length hs) (length pre)
     = Some (hs, length pre + 9 * length hs)"
proof (induction hs arbitrary: pre)
  case Nil
  then show ?case by simp
next
  case (Cons h hs)
  let ?r = "concat (map hop_to_bytes hs) @ post"
  let ?bs = "pre @ hop_to_bytes h @ ?r"
  have "decode_hops ((pre @ hop_to_bytes h) @ ?r) (length hs) (length (pre @ hop_to_bytes h))
      = Some (hs, length (pre @ hop_to_bytes h) + 9 * length hs)"
    by (rule Cons.IH)
  moreover have "subslice ?bs (length pre) (length pre + 4) = Some (u32_to_le (edge_label h))"
    "subslice ?bs (length pre + 5) (length pre + 9) = Some (u32_to_le (dest_label h))"
    "index ?bs (length pre + 4) = Some (hop_discriminant (hop_dir h))"
    by (simp_all add: hop_to_bytes_def subslice_def index_def nth_append)
  ultimately show ?case
    by (simp add: hop_round_trip)
qed

lemma length_concat_hops [simp]: "length (concat (map hop_to_bytes hs)) = 9 * length hs"
  by (induction hs) simp_all

lemma chain_round_trip:
  assumes "chain_to_bytes c = Some bs" "list_all comparison_wf (terminal_conjuncts c)"
  shows "chain_decode bs = Some (c, length bs)"
proof -
  let ?hs = "hops c" and ?ts = "terminal_conjuncts c"
  let ?hb = "concat (map hop_to_bytes ?hs)"
  from assms(1) obtain tb where h: "1 \<le> length ?hs" "length ?hs \<le> 2" "?ts \<noteq> []" "length ?ts \<le> 8"
    and tb: "comparisons_to_bytes ?ts = Some tb"
    and bs: "bs = word_of_nat (length ?hs) # ?hb @ word_of_nat (length ?ts) # tb"
    unfolding chain_to_bytes_def guard_bind_Some MAX_CHAIN_HOPS_def MAX_PREDICATE_CONJUNCTS_def
    by (auto elim!: bind_eq_SomeE)
  have hops: "decode_hops bs (length ?hs) 1 = Some (?hs, 1 + 9 * length ?hs)"
    using hops_round_trip [of "[word_of_nat (length ?hs)]" ?hs "word_of_nat (length ?ts) # tb"] bs
    by simp
  have tc: "index bs (1 + 9 * length ?hs) = Some (word_of_nat (length ?ts))"
    using index_append [of ?hb "9 * length ?hs"] bs by simp
  have "decode_comparisons bs (length ?ts) (1 + 9 * length ?hs + 1) = Some (?ts, length bs)"
    using comparisons_round_trip [OF tb assms(2), of "word_of_nat (length ?hs) # ?hb @ [word_of_nat (length ?ts)]" "[]"]
      bs by simp
  moreover have "1 \<le> length ?ts" using h(3) by (cases ?ts) simp_all
  ultimately show ?thesis
    using h hops tc bs
    by (simp add: chain_decode_def MAX_CHAIN_HOPS_def MAX_PREDICATE_CONJUNCTS_def unat_small_u8
        Let_def)
qed

lemma predicate_round_trip:
  assumes "predicate_encode p = Some bs" "predicate_wf p"
  shows "predicate_decode bs = Some p"
proof -
  let ?cs = "conjuncts p"
  from assms(1) obtain cb tl where h: "length ?cs \<le> 8" "chain p \<noteq> None \<or> ?cs \<noteq> []"
    and cb: "comparisons_to_bytes ?cs = Some cb"
    and tl: "(case chain p of Some c \<Rightarrow> map_option (Cons 1) (chain_to_bytes c) | None \<Rightarrow> Some [0]) = Some tl"
    and bs: "bs = ENCODING_VERSION # u32_to_le (pred_label p) @ word_of_nat (length ?cs) # cb @ tl"
    unfolding predicate_encode_def guard_bind_Some MAX_PREDICATE_CONJUNCTS_def
    by (auto elim!: bind_eq_SomeE)
  let ?pre = "ENCODING_VERSION # u32_to_le (pred_label p) @ [word_of_nat (length ?cs)]"
  have "decode_comparisons (?pre @ cb @ tl) (length ?cs) (length ?pre) = Some (?cs, length ?pre + length cb)"
    by (rule comparisons_round_trip [OF cb]) (use assms(2) in \<open>simp add: predicate_wf_def\<close>)
  then have cs: "decode_comparisons bs (length ?cs) 6 = Some (?cs, 6 + length cb)"
    using bs by simp
  have hd: "index bs 0 = Some ENCODING_VERSION" "subslice bs 1 5 = Some (u32_to_le (pred_label p))"
    "index bs 5 = Some (word_of_nat (length ?cs))"
    using bs by (simp_all add: subslice_def index_def nth_append)
  have len: "length bs = 6 + length cb + length tl" using bs by simp
  have at: "index bs (6 + length cb) = index tl 0"
    using bs by (simp add: index_def nth_append)
  have rest: "slice_from bs (6 + length cb + 1) = slice_from tl 1"
    using bs by (simp add: slice_from_def drop_Cons')
  show ?thesis
  proof (cases "chain p")
    case None
    then have "tl = [0]" using tl by simp
    then show ?thesis
      using None h hd cs len at
      by (simp add: predicate_decode_def MAX_PREDICATE_CONJUNCTS_def unat_small_u8 Let_def)
  next
    case (Some c)
    then obtain cb' where c: "chain_to_bytes c = Some cb'" "tl = 1 # cb'" using tl by auto
    have "chain_decode cb' = Some (c, length cb')"
      using chain_round_trip [OF c(1)] assms(2) Some by (simp add: predicate_wf_def)
    then show ?thesis
      using Some h hd cs len at rest c
      by (simp add: predicate_decode_def MAX_PREDICATE_CONJUNCTS_def unat_small_u8 Let_def)
  qed
qed

section \<open>Elevation evidence and rows\<close>

datatype auth_write_error =
    AnonymousPrincipal
  | EmptyJustification
  | JustificationTooLong nat

definition MAX_ELEVATION_JUSTIFICATION_BYTES :: nat where "MAX_ELEVATION_JUSTIFICATION_BYTES = 512"

record 'p elevation_evidence =
  approver :: 'p
  justification :: bytes
  emergency :: bool

record 'p grant_row =
  expires_at_ns :: "u64 option"
  predicate :: "compiled_predicate option"
  evidence :: "'p elevation_evidence option"

definition evidence_validate :: "'p elevation_evidence \<Rightarrow> auth_write_error + unit" where
  "evidence_validate e =
     (if justification e = [] then Inl EmptyJustification
      else if MAX_ELEVATION_JUSTIFICATION_BYTES < length (justification e)
      then Inl (JustificationTooLong MAX_ELEVATION_JUSTIFICATION_BYTES)
      else Inr ())"

definition evidence_to_bytes :: "'p principal_ops \<Rightarrow> 'p elevation_evidence \<Rightarrow> bytes option" where
  "evidence_to_bytes P e = do {
     guard (length (justification e) \<le> MAX_ELEVATION_JUSTIFICATION_BYTES);
     let a = as_slice P (approver e);
     Some ((if emergency e then 1 else 0) # to_le 2 (length (justification e)) @ justification e
       @ to_le 2 (length a) @ a) }"

definition evidence_decode :: "'p principal_ops \<Rightarrow> bytes \<Rightarrow> 'p elevation_evidence option" where
  "evidence_decode P bs = do {
     guard (5 \<le> length bs);
     e \<leftarrow> index bs 0;
     guard (e AND NOT 1 = 0);
     just_len \<leftarrow> map_option from_le (subslice bs 1 3);
     let approver_len_at = 3 + just_len;
     guard (approver_len_at + 2 \<le> length bs);
     js \<leftarrow> subslice bs 3 approver_len_at;
     j \<leftarrow> from_utf8 js;
     approver_len \<leftarrow> map_option from_le (subslice bs approver_len_at (approver_len_at + 2));
     let end_at = approver_len_at + 2 + approver_len;
     guard (length bs = end_at);
     ab \<leftarrow> subslice bs (approver_len_at + 2) end_at;
     a \<leftarrow> from_slice P ab;
     Some \<lparr>approver = a, justification = j, emergency = (e = 1)\<rparr> }"

text \<open>The expiry field, as rows with tag 3 and 4 write it.\<close>

fun expiry_bytes :: "u64 option \<Rightarrow> bytes" where
  "expiry_bytes None = [0]"
| "expiry_bytes (Some ts) = 1 # u64_to_le ts"

definition grant_row_to_bytes :: "'p principal_ops \<Rightarrow> 'p grant_row \<Rightarrow> bytes option" where
  "grant_row_to_bytes P row =
     (case (evidence row, predicate row) of
        (Some e, None) \<Rightarrow> do { b \<leftarrow> evidence_to_bytes P e; Some (4 # expiry_bytes (expires_at_ns row) @ b) }
      | (None, None) \<Rightarrow>
          Some (2 # (case expires_at_ns row of None \<Rightarrow> [] | Some ts \<Rightarrow> 1 # u64_to_le ts))
      | (None, Some p) \<Rightarrow> do { b \<leftarrow> predicate_encode p; Some (3 # expiry_bytes (expires_at_ns row) @ b) }
      | (Some _, Some _) \<Rightarrow> None)"

definition decode_expiry :: "bytes \<Rightarrow> (u64 option \<times> nat) option" where
  "decode_expiry b = (case b of
     [] \<Rightarrow> Some (None, 1)
   | f # _ \<Rightarrow>
       (if f = 0 then Some (None, 1)
        else if f = 1 then do { ts \<leftarrow> subslice b 1 9; Some (Some (u64_from_le ts), 9) }
        else None))"

definition decode_expiry_tail :: "bytes \<Rightarrow> u64 option option" where
  "decode_expiry_tail b = (if b = [] then Some None else map_option fst (decode_expiry b))"

definition grant_row_from_bytes :: "'p principal_ops \<Rightarrow> bytes \<Rightarrow> 'p grant_row option" where
  "grant_row_from_bytes P b = do {
     guard (b \<noteq> []);
     tag \<leftarrow> index b 0;
     if tag = 2 then do {
       t \<leftarrow> slice_from b 1;
       ex \<leftarrow> decode_expiry_tail t;
       Some \<lparr>expires_at_ns = ex, predicate = None, evidence = None\<rparr> }
     else if tag = 3 then do {
       guard (2 \<le> length b);
       t \<leftarrow> slice_from b 1;
       (ex, consumed) \<leftarrow> decode_expiry t;
       pb \<leftarrow> slice_from b (1 + consumed);
       p \<leftarrow> predicate_decode pb;
       Some \<lparr>expires_at_ns = ex, predicate = Some p, evidence = None\<rparr> }
     else if tag = 4 then do {
       t \<leftarrow> slice_from b 1;
       (ex, consumed) \<leftarrow> decode_expiry t;
       eb \<leftarrow> slice_from b (1 + consumed);
       e \<leftarrow> evidence_decode P eb;
       Some \<lparr>expires_at_ns = ex, predicate = None, evidence = Some e\<rparr> }
     else None }"

definition grant_row_wf :: "'p grant_row \<Rightarrow> bool" where
  "grant_row_wf row = ((case predicate row of Some p \<Rightarrow> predicate_wf p | None \<Rightarrow> True)
     \<and> (case evidence row of Some e \<Rightarrow> utf8_valid (justification e) | None \<Rightarrow> True))"

lemma expiry_round_trip:
  "decode_expiry (expiry_bytes x @ rest) = Some (x, length (expiry_bytes x))"
  by (cases x) (simp_all add: decode_expiry_def subslice_def)

lemma expiry_slices:
  "slice_from (expiry_bytes x @ rest) (length (expiry_bytes x)) = Some rest"
  "slice_from (t # expiry_bytes x @ rest) 1 = Some (expiry_bytes x @ rest)"
  "slice_from (t # expiry_bytes x @ rest) (Suc 0) = Some (expiry_bytes x @ rest)"
  "Suc 0 \<le> length (expiry_bytes x) + n"
  by (cases x; simp add: slice_from_def)+

context principal_api
begin

lemma evidence_round_trip:
  assumes "evidence_to_bytes P e = Some bs" "utf8_valid (justification e)"
  shows "evidence_decode P bs = Some e"
proof -
  let ?j = "justification e" and ?a = "as_slice P (approver e)"
  from assms(1) have j: "length ?j \<le> 512"
    and bs: "bs = (if emergency e then 1 else 0) # to_le 2 (length ?j) @ ?j @ to_le 2 (length ?a) @ ?a"
    unfolding evidence_to_bytes_def guard_bind_Some Let_def MAX_ELEVATION_JUSTIFICATION_BYTES_def
    by auto
  have a: "length ?a \<le> 29" by (rule as_slice_length)
  have le: "from_le (to_le 2 (length ?j)) = length ?j" "from_le (to_le 2 (length ?a)) = length ?a"
    using j a by simp_all
  have f: "index bs 0 = Some (if emergency e then 1 else 0)"
    "subslice bs 1 3 = Some (to_le 2 (length ?j))"
    "subslice bs 3 (3 + length ?j) = Some ?j"
    "subslice bs (3 + length ?j) (3 + length ?j + 2) = Some (to_le 2 (length ?a))"
    "subslice bs (3 + length ?j + 2) (3 + length ?j + 2 + length ?a) = Some ?a"
    "length bs = 3 + length ?j + 2 + length ?a"
    by (simp_all add: bs subslice_def drop_Cons')
  have e: "(if emergency e then 1 else 0 :: u8) AND NOT 1 = 0"
    "((if emergency e then 1 else 0 :: u8) = 1) = emergency e"
    by simp_all
  show ?thesis
    unfolding evidence_decode_def f(1-5) Let_def option.map bind.simps le f(6) e from_utf8_def
    using assms(2) by (simp add: f from_slice_as_slice)
qed

lemma grant_row_round_trip:
  assumes "grant_row_to_bytes P row = Some bs" "grant_row_wf row"
  shows "grant_row_from_bytes P bs = Some row"
proof -
  consider (ev) e where "evidence row = Some e" "predicate row = None"
    | (plain) "evidence row = None" "predicate row = None"
    | (pred) p where "evidence row = None" "predicate row = Some p"
    using assms(1) by (cases "evidence row"; cases "predicate row") (auto simp: grant_row_to_bytes_def)
  then show ?thesis
  proof cases
    case ev
    with assms obtain b where b: "evidence_to_bytes P e = Some b"
        "bs = 4 # expiry_bytes (expires_at_ns row) @ b"
      by (auto simp: grant_row_to_bytes_def elim!: bind_eq_SomeE)
    with ev assms(2) show ?thesis
      by (simp add: grant_row_from_bytes_def expiry_slices expiry_round_trip [simplified]
          evidence_round_trip [OF b(1)] grant_row_wf_def)
  next
    case plain
    then show ?thesis
      using assms(1)
      by (cases "expires_at_ns row")
        (auto simp: grant_row_to_bytes_def grant_row_from_bytes_def decode_expiry_tail_def
          decode_expiry_def subslice_def)
  next
    case pred
    with assms obtain b where b: "predicate_encode p = Some b"
        "bs = 3 # expiry_bytes (expires_at_ns row) @ b"
      by (auto simp: grant_row_to_bytes_def elim!: bind_eq_SomeE)
    with pred assms(2) show ?thesis
      by (simp add: grant_row_from_bytes_def expiry_slices expiry_round_trip [simplified]
          predicate_round_trip [OF b(1)] grant_row_wf_def)
  qed
qed

end

end
