(* ===== verification/Stable_BTree.thy ===== *)
theory Stable_BTree
  imports Prelude "HOL-Library.List_Lexorder"
begin

text \<open>
  The interface of \<open>ic_stable_structures::StableBTreeMap\<close>, which the authorization state is kept
  in. The container is third-party code: a type parameter \<open>'m\<close> with the operations the code calls,
  on encoded keys and encoded values (the container stores what \<open>Storable::to_bytes\<close> returns), and
  a locale with their documented behaviour: an ordered map whose iterator yields the entries in
  ascending key order. The sorted association list below satisfies the interface.
\<close>

section \<open>The interface\<close>

record 'm btree_ops =
  bt_get :: "'m \<Rightarrow> bytes \<Rightarrow> bytes option"
  bt_insert :: "'m \<Rightarrow> bytes \<Rightarrow> bytes \<Rightarrow> 'm"
  bt_remove :: "'m \<Rightarrow> bytes \<Rightarrow> 'm"
  bt_entries :: "'m \<Rightarrow> (bytes \<times> bytes) list"
  bt_range_after :: "'m \<Rightarrow> bytes option \<Rightarrow> (bytes \<times> bytes) list"

locale stable_btree =
  fixes B :: "'m btree_ops" and minv :: "'m \<Rightarrow> bool"
  assumes insert_inv: "minv m \<Longrightarrow> minv (bt_insert B m k v)"
    and remove_inv: "minv m \<Longrightarrow> minv (bt_remove B m k)"
    and get_insert: "minv m \<Longrightarrow> bt_get B (bt_insert B m k v) k' = (if k' = k then Some v else bt_get B m k')"
    and get_remove: "minv m \<Longrightarrow> bt_get B (bt_remove B m k) k' = (if k' = k then None else bt_get B m k')"
    and entries_sorted: "minv m \<Longrightarrow> sorted_wrt (<) (map fst (bt_entries B m))"
    and get_entries: "minv m \<Longrightarrow> bt_get B m k = map_of (bt_entries B m) k"
    and range_after: "minv m \<Longrightarrow> bt_range_after B m lo =
      filter (\<lambda>(k, _). case lo of None \<Rightarrow> True | Some k0 \<Rightarrow> k0 < k) (bt_entries B m)"
begin

lemma entries_distinct: "minv m \<Longrightarrow> distinct (map fst (bt_entries B m))"
  using entries_sorted strict_sorted_imp_sorted strict_sorted_iff by blast

lemma in_entries_iff: "minv m \<Longrightarrow> (k, v) \<in> set (bt_entries B m) \<longleftrightarrow> bt_get B m k = Some v"
  using entries_distinct [of m] by (simp add: get_entries)

text \<open>The entries are determined by the lookups.\<close>

lemma entries_eqI:
  assumes "minv m" "sorted_wrt (<) (map fst es)" "\<And>k. bt_get B m k = map_of es k"
  shows "bt_entries B m = es"
proof -
  have d: "distinct (map fst (bt_entries B m))" "distinct (map fst es)"
    using entries_sorted [OF assms(1)] assms(2) strict_sorted_iff by blast+
  have eq: "map_of (bt_entries B m) = map_of es"
    using assms(1,3) by (auto simp: get_entries)
  then have "fst ` set (bt_entries B m) = fst ` set es"
    by (metis dom_map_of_conv_image_fst)
  then have keys: "map fst (bt_entries B m) = map fst es"
    using entries_sorted [OF assms(1)] assms(2)
    by (intro sorted_distinct_set_unique) (auto simp: strict_sorted_iff)
  have list: "map (\<lambda>k. (k, the (map_of xs k))) (map fst xs) = xs"
    if "distinct (map fst xs)" for xs :: "(bytes \<times> bytes) list"
    unfolding map_map by (rule map_idI) (use that in auto)
  from list [OF d(1)] list [OF d(2)] keys eq show ?thesis by simp
qed

text \<open>Removing a list of keys, as the cascades of the code do.\<close>

lemma fold_remove_inv: "minv m \<Longrightarrow> minv (fold (\<lambda>k m. bt_remove B m k) ks m)"
  by (induction ks arbitrary: m) (simp_all add: remove_inv)

lemma get_fold_remove:
  "minv m \<Longrightarrow> bt_get B (fold (\<lambda>k m. bt_remove B m k) ks m) k'
     = (if k' \<in> set ks then None else bt_get B m k')"
  by (induction ks arbitrary: m) (auto simp: remove_inv get_remove)

lemma entries_fold_remove:
  assumes "minv m"
  shows "bt_entries B (fold (\<lambda>k m. bt_remove B m k) ks m)
    = filter (\<lambda>(k, _). k \<notin> set ks) (bt_entries B m)"
proof (rule entries_eqI [OF fold_remove_inv [OF assms]])
  have "map fst (filter (\<lambda>(k, _). k \<notin> set ks) (bt_entries B m))
      = filter (\<lambda>k. k \<notin> set ks) (map fst (bt_entries B m))"
    by (simp add: filter_map o_def case_prod_unfold)
  then show "sorted_wrt (<) (map fst (filter (\<lambda>(k, _). k \<notin> set ks) (bt_entries B m)))"
    using entries_sorted [OF assms] by (simp add: sorted_wrt_filter del: filter_map)
  show "bt_get B (fold (\<lambda>k m. bt_remove B m k) ks m) k
      = map_of (filter (\<lambda>(k, _). k \<notin> set ks) (bt_entries B m)) k" for k
  proof -
    have "map_of (filter (\<lambda>(k, _). k \<notin> set ks) es) k = (if k \<in> set ks then None else map_of es k)"
      for es :: "(bytes \<times> bytes) list"
      by (induction es) auto
    then show ?thesis by (simp add: get_fold_remove [OF assms] get_entries [OF assms])
  qed
qed

end

section \<open>Sorted association lists satisfy the interface\<close>

fun al_insert :: "(bytes \<times> bytes) list \<Rightarrow> bytes \<Rightarrow> bytes \<Rightarrow> (bytes \<times> bytes) list" where
  "al_insert [] k v = [(k, v)]"
| "al_insert ((a, b) # es) k v =
     (if k < a then (k, v) # (a, b) # es else if k = a then (k, v) # es
      else (a, b) # al_insert es k v)"

definition al_remove :: "(bytes \<times> bytes) list \<Rightarrow> bytes \<Rightarrow> (bytes \<times> bytes) list" where
  "al_remove es k = filter (\<lambda>(a, _). a \<noteq> k) es"

definition al_ops :: "(bytes \<times> bytes) list btree_ops" where
  "al_ops = \<lparr>bt_get = map_of, bt_insert = al_insert, bt_remove = al_remove, bt_entries = (\<lambda>es. es),
     bt_range_after = (\<lambda>es lo. filter (\<lambda>(k, _). case lo of None \<Rightarrow> True | Some k0 \<Rightarrow> k0 < k) es)\<rparr>"

definition al_inv :: "(bytes \<times> bytes) list \<Rightarrow> bool" where
  "al_inv es = sorted_wrt (<) (map fst es)"

lemma set_al_insert: "fst ` set (al_insert es k v) = insert k (fst ` set es)"
  by (induction es k v rule: al_insert.induct) auto

lemma al_insert_inv: "al_inv es \<Longrightarrow> al_inv (al_insert es k v)"
proof (induction es k v rule: al_insert.induct)
  case (2 a b es k v)
  then have "fst ` set (al_insert es k v) = insert k (fst ` set es)"
    by (simp add: set_al_insert)
  with 2 show ?case
    by (auto simp: al_inv_def dest: less_trans)
qed (simp add: al_inv_def)

lemma map_of_al_insert:
  "al_inv es \<Longrightarrow> map_of (al_insert es k v) k' = (if k' = k then Some v else map_of es k')"
  by (induction es k v rule: al_insert.induct) (auto simp: al_inv_def)

lemma al_remove_inv: "al_inv es \<Longrightarrow> al_inv (al_remove es k)"
  by (induction es) (auto simp: al_inv_def al_remove_def)

lemma map_of_al_remove: "map_of (al_remove es k) k' = (if k' = k then None else map_of es k')"
  by (induction es) (auto simp: al_remove_def)

lemma al_inv_sorted: "al_inv es \<Longrightarrow> sorted_wrt (<) (map fst es)"
  by (simp add: al_inv_def)

interpretation al: stable_btree al_ops al_inv
  by unfold_locales
    (simp_all add: al_ops_def al_insert_inv al_remove_inv map_of_al_insert map_of_al_remove al_inv_sorted)

end
