(* ===== verification/Auth_State.thy ===== *)
theory Auth_State
  imports Auth_Rows Stable_BTree
begin

text \<open>
  The two stateful components of the authorization crate (\<open>crates/auth/src/lib.rs\<close>): \<open>AuthState\<close>,
  the principal-to-capabilities map, and \<open>GrantState\<close>, the data-plane grant rows with their
  lookups, cascades and retention sweep. The stable map \<open>'m\<close> and the principals \<open>'p\<close> are
  parameters (\<open>btree_ops\<close>, \<open>principal_ops\<close>); a trap of the code is \<open>None\<close>; an operation that
  returns \<open>Result\<close> gives the result together with the state, so that "an error changes nothing" is
  a statement about the model.

  The locale \<open>auth_store\<close> joins the two interfaces. Its lemmas refine \<open>GrantState\<close> to a partial
  function from (privilege, subject) to rows.
\<close>

section \<open>Administrative capabilities\<close>

definition PREPARE_REGISTER :: u64 where "PREPARE_REGISTER = 1"
definition INDEX_CREATE :: u64 where "INDEX_CREATE = 2"
definition INDEX_DROP :: u64 where "INDEX_DROP = 4"
definition MANAGE_CATALOG :: u64 where "MANAGE_CATALOG = 8"
definition CALL_PROCEDURE :: u64 where "CALL_PROCEDURE = 16"
definition MANAGE_FEDERATION :: u64 where "MANAGE_FEDERATION = 32"
definition MANAGE_AUTHORIZATION :: u64 where "MANAGE_AUTHORIZATION = 64"
definition EMERGENCY_ELEVATE :: u64 where "EMERGENCY_ELEVATE = 128"

definition all_caps :: u64 where
  "all_caps = PREPARE_REGISTER OR INDEX_CREATE OR INDEX_DROP OR MANAGE_CATALOG OR CALL_PROCEDURE
     OR MANAGE_FEDERATION OR MANAGE_AUTHORIZATION OR EMERGENCY_ELEVATE"

definition from_bits_truncate :: "u64 \<Rightarrow> u64" where
  "from_bits_truncate bits = bits AND all_caps"

definition caps_contains :: "u64 \<Rightarrow> u64 \<Rightarrow> bool" where
  "caps_contains caps cap = (caps AND cap = cap)"

definition caps_record_to_bytes :: "u64 \<Rightarrow> bytes" where
  "caps_record_to_bytes caps = u64_to_le caps"

definition caps_record_from_bytes :: "bytes \<Rightarrow> u64 option" where
  "caps_record_from_bytes b = do { guard (length b = 8); Some (u64_from_le b) }"

section \<open>AuthState\<close>

definition get_record :: "'p principal_ops \<Rightarrow> 'm btree_ops \<Rightarrow> 'm \<Rightarrow> 'p \<Rightarrow> u64 option option" where
  "get_record P B m p = (case bt_get B m (as_slice P p) of
     None \<Rightarrow> Some None
   | Some b \<Rightarrow> map_option Some (caps_record_from_bytes b))"

definition caps_of :: "'p principal_ops \<Rightarrow> 'm btree_ops \<Rightarrow> 'm \<Rightarrow> 'p \<Rightarrow> u64 option" where
  "caps_of P B m p =
     (if p = anonymous P then Some 0
      else do { r \<leftarrow> get_record P B m p;
                Some (case r of Some caps \<Rightarrow> from_bits_truncate caps | None \<Rightarrow> 0) })"

definition has_cap :: "'p principal_ops \<Rightarrow> 'm btree_ops \<Rightarrow> 'm \<Rightarrow> 'p \<Rightarrow> u64 \<Rightarrow> bool option" where
  "has_cap P B m p cap = map_option (\<lambda>caps. caps_contains caps cap) (caps_of P B m p)"

definition upsert_caps ::
  "'p principal_ops \<Rightarrow> 'm btree_ops \<Rightarrow> 'm \<Rightarrow> 'p \<Rightarrow> u64 \<Rightarrow> (auth_write_error + unit) \<times> 'm" where
  "upsert_caps P B m p caps =
     (if p = anonymous P then (Inl AnonymousPrincipal, m)
      else (Inr (), bt_insert B m (as_slice P p) (caps_record_to_bytes caps)))"

definition validate_bootstrap_principals ::
  "'p principal_ops \<Rightarrow> 'p \<Rightarrow> 'p list \<Rightarrow> auth_write_error + unit" where
  "validate_bootstrap_principals P issuing initial_admins =
     (if issuing = anonymous P \<or> list_ex (\<lambda>p. p = anonymous P) initial_admins
      then Inl AnonymousPrincipal else Inr ())"

fun bootstrap_loop ::
  "'p principal_ops \<Rightarrow> 'm btree_ops \<Rightarrow> 'm \<Rightarrow> 'p \<Rightarrow> 'p list \<Rightarrow> (auth_write_error + unit) \<times> 'm" where
  "bootstrap_loop P B m issuing [] = (Inr (), m)"
| "bootstrap_loop P B m issuing (p # ps) =
     (if p \<noteq> issuing then
        (case upsert_caps P B m p all_caps of
           (Inl e, m') \<Rightarrow> (Inl e, m')
         | (Inr _, m') \<Rightarrow> bootstrap_loop P B m' issuing ps)
      else bootstrap_loop P B m issuing ps)"

definition bootstrap_principals ::
  "'p principal_ops \<Rightarrow> 'm btree_ops \<Rightarrow> 'm \<Rightarrow> 'p \<Rightarrow> 'p list \<Rightarrow> (auth_write_error + unit) \<times> 'm" where
  "bootstrap_principals P B m issuing initial_admins =
     (case validate_bootstrap_principals P issuing initial_admins of
        Inl e \<Rightarrow> (Inl e, m)
      | Inr _ \<Rightarrow>
          (case upsert_caps P B m issuing all_caps of
             (Inl e, m') \<Rightarrow> (Inl e, m')
           | (Inr _, m') \<Rightarrow> bootstrap_loop P B m' issuing initial_admins))"

section \<open>GrantState\<close>

definition EXPIRED_ROW_RETENTION_NS :: nat where
  "EXPIRED_ROW_RETENTION_NS = 90 * 24 * 60 * 60 * 1000000000"

text \<open>\<open>row.expires_at_ns.is_some_and(|expiry| expiry < now_ns)\<close>\<close>

definition row_expired :: "u64 \<Rightarrow> 'p grant_row \<Rightarrow> bool" where
  "row_expired now row = (case expires_at_ns row of Some expiry \<Rightarrow> expiry < now | None \<Rightarrow> False)"

definition grant_put ::
  "'p principal_ops \<Rightarrow> 'm btree_ops \<Rightarrow> 'm \<Rightarrow> 'p grant_subject \<Rightarrow> privilege \<Rightarrow> 'p grant_row
   \<Rightarrow> ((auth_write_error + unit) \<times> 'm) option" where
  "grant_put P B m subject priv row =
     (if subject = SubjPrincipal (anonymous P) then Some (Inl AnonymousPrincipal, m)
      else do {
        v \<leftarrow> grant_row_to_bytes P row;
        Some (Inr (), bt_insert B m (grant_key P priv subject) v) })"

definition grant ::
  "'p principal_ops \<Rightarrow> 'm btree_ops \<Rightarrow> 'm \<Rightarrow> 'p grant_subject \<Rightarrow> privilege \<Rightarrow> u64 option
   \<Rightarrow> compiled_predicate option \<Rightarrow> ((auth_write_error + unit) \<times> 'm) option" where
  "grant P B m subject priv expiry pred =
     grant_put P B m subject priv \<lparr>expires_at_ns = expiry, predicate = pred, evidence = None\<rparr>"

fun is_metadata :: "privilege \<Rightarrow> bool" where
  "is_metadata (PrivMetadata _) = True"
| "is_metadata _ = False"

definition grant_elevation ::
  "'p principal_ops \<Rightarrow> 'm btree_ops \<Rightarrow> 'm \<Rightarrow> 'p grant_subject \<Rightarrow> privilege \<Rightarrow> u64
   \<Rightarrow> 'p elevation_evidence \<Rightarrow> ((auth_write_error + unit) \<times> 'm) option" where
  "grant_elevation P B m subject priv expiry ev = do {
     guard (is_metadata priv);
     case evidence_validate ev of
       Inl e \<Rightarrow> Some (Inl e, m)
     | Inr _ \<Rightarrow> grant_put P B m subject priv
         \<lparr>expires_at_ns = Some expiry, predicate = None, evidence = Some ev\<rparr> }"

definition revoke ::
  "'p principal_ops \<Rightarrow> 'm btree_ops \<Rightarrow> 'm \<Rightarrow> 'p grant_subject \<Rightarrow> privilege \<Rightarrow> bool \<times> 'm" where
  "revoke P B m subject priv =
     (let k = grant_key P priv subject in (bt_get B m k \<noteq> None, bt_remove B m k))"

definition holds ::
  "'p principal_ops \<Rightarrow> 'm btree_ops \<Rightarrow> 'm \<Rightarrow> 'p grant_subject \<Rightarrow> privilege \<Rightarrow> u64 \<Rightarrow> bool option" where
  "holds P B m subject priv now =
     (case bt_get B m (grant_key P priv subject) of
        Some b \<Rightarrow> do { row \<leftarrow> grant_row_from_bytes P b; Some (\<not> row_expired now row) }
      | None \<Rightarrow> Some False)"

definition grant_contains ::
  "'p principal_ops \<Rightarrow> 'm btree_ops \<Rightarrow> 'm \<Rightarrow> 'p grant_subject \<Rightarrow> privilege \<Rightarrow> bool" where
  "grant_contains P B m subject priv = (bt_get B m (grant_key P priv subject) \<noteq> None)"

text \<open>\<open>Iterator::any\<close> with a closure that may trap: it stops at the first hit.\<close>

fun any_entry :: "('e \<Rightarrow> bool option) \<Rightarrow> 'e list \<Rightarrow> bool option" where
  "any_entry f [] = Some False"
| "any_entry f (e # es) = do { b \<leftarrow> f e; if b then Some True else any_entry f es }"

fun matches_graph_grant :: "u32 \<Rightarrow> 'p grant_subject \<Rightarrow> privilege \<times> 'p grant_subject \<Rightarrow> bool" where
  "matches_graph_grant graph subject (PrivGraph g, s) = (gp_graph g = graph \<and> s = subject)"
| "matches_graph_grant graph subject _ = False"

definition holds_any_graph_grant ::
  "'p principal_ops \<Rightarrow> 'm btree_ops \<Rightarrow> 'm \<Rightarrow> 'p grant_subject \<Rightarrow> u32 \<Rightarrow> u64 \<Rightarrow> bool option" where
  "holds_any_graph_grant P B m subject graph now =
     any_entry (\<lambda>(k, v). do {
       row \<leftarrow> grant_row_from_bytes P v;
       if row_expired now row then Some False
       else map_option (matches_graph_grant graph subject) (grant_key_decode P k) })
     (bt_entries B m)"

text \<open>The vertex label a \<open>MATCH\<close> row grants: \<open>Some (Some l)\<close> for one label, \<open>Some None\<close> for all.\<close>

fun vertex_match :: "u32 \<Rightarrow> 'p grant_subject \<Rightarrow> privilege \<times> 'p grant_subject \<Rightarrow> u32 option option" where
  "vertex_match graph subject (PrivGraph g, s) =
     (case (gp_operation g, gp_resource g) of
        (Match, VertexLabel l) \<Rightarrow> (if gp_graph g = graph \<and> s = subject then Some (Some l) else None)
      | (Match, AllVertexLabels) \<Rightarrow> (if gp_graph g = graph \<and> s = subject then Some None else None)
      | _ \<Rightarrow> None)"
| "vertex_match graph subject _ = None"

definition holds_any_vertex_label_match ::
  "'p principal_ops \<Rightarrow> 'm btree_ops \<Rightarrow> 'm \<Rightarrow> 'p grant_subject \<Rightarrow> u32 \<Rightarrow> u64 \<Rightarrow> bool option" where
  "holds_any_vertex_label_match P B m subject graph now =
     any_entry (\<lambda>(k, v). do {
       row \<leftarrow> grant_row_from_bytes P v;
       if row_expired now row then Some False
       else map_option (\<lambda>d. vertex_match graph subject d \<noteq> None) (grant_key_decode P k) })
     (bt_entries B m)"

fun collect_loop ::
  "'p principal_ops \<Rightarrow> 'p grant_subject \<Rightarrow> u32 \<Rightarrow> u64 \<Rightarrow> (bytes \<times> bytes) list
   \<Rightarrow> u32 set \<Rightarrow> bool \<Rightarrow> (u32 set \<times> bool) option" where
  "collect_loop P subject graph now [] labels wildcard = Some (labels, wildcard)"
| "collect_loop P subject graph now ((k, v) # es) labels wildcard = do {
     row \<leftarrow> grant_row_from_bytes P v;
     if row_expired now row then collect_loop P subject graph now es labels wildcard
     else do {
       d \<leftarrow> grant_key_decode P k;
       case vertex_match graph subject d of
         Some (Some l) \<Rightarrow> collect_loop P subject graph now es (insert l labels) wildcard
       | Some None \<Rightarrow> collect_loop P subject graph now es labels True
       | None \<Rightarrow> collect_loop P subject graph now es labels wildcard } }"

definition collect_vertex_label_match_set ::
  "'p principal_ops \<Rightarrow> 'm btree_ops \<Rightarrow> 'm \<Rightarrow> 'p grant_subject \<Rightarrow> u32 \<Rightarrow> u64
   \<Rightarrow> (u32 set \<times> bool) option" where
  "collect_vertex_label_match_set P B m subject graph now =
     collect_loop P subject graph now (bt_entries B m) {} False"

fun targets_graph :: "u32 \<Rightarrow> privilege \<Rightarrow> bool" where
  "targets_graph graph (PrivGraph g) = (gp_graph g = graph)"
| "targets_graph graph (PrivMetadata (ScopeGraph t)) = (t = graph)"
| "targets_graph graph _ = False"

fun dead_keys :: "'p principal_ops \<Rightarrow> u32 \<Rightarrow> (bytes \<times> bytes) list \<Rightarrow> bytes list option" where
  "dead_keys P graph [] = Some []"
| "dead_keys P graph ((k, _) # es) = do {
     (priv, s) \<leftarrow> grant_key_decode P k;
     rest \<leftarrow> dead_keys P graph es;
     Some (if targets_graph graph priv then k # rest else rest) }"

definition remove_keys :: "'m btree_ops \<Rightarrow> bytes list \<Rightarrow> 'm \<Rightarrow> 'm" where
  "remove_keys B ks m = fold (\<lambda>k m. bt_remove B m k) ks m"

definition revoke_all_for_graph ::
  "'p principal_ops \<Rightarrow> 'm btree_ops \<Rightarrow> 'm \<Rightarrow> u32 \<Rightarrow> (nat \<times> 'm) option" where
  "revoke_all_for_graph P B m graph = do {
     dead \<leftarrow> dead_keys P graph (bt_entries B m);
     Some (length dead, remove_keys B dead m) }"

record retention_sweep_step =
  removed :: nat
  resume_after :: "bytes option"

definition sweep_due :: "u64 \<Rightarrow> 'p grant_row \<Rightarrow> bool" where
  "sweep_due now row = (case expires_at_ns row of
     Some e \<Rightarrow> sat_add64 (unat e) EXPIRED_ROW_RETENTION_NS < unat now | None \<Rightarrow> False)"

fun sweep_scan ::
  "'p principal_ops \<Rightarrow> u64 \<Rightarrow> nat \<Rightarrow> (bytes \<times> bytes) list \<Rightarrow> nat \<Rightarrow> bytes option \<Rightarrow> bytes list
   \<Rightarrow> (nat \<times> bytes option \<times> bytes list) option" where
  "sweep_scan P now budget [] visited last_ex dead = Some (visited, last_ex, dead)"
| "sweep_scan P now budget ((k, v) # es) visited last_ex dead = do {
     row \<leftarrow> grant_row_from_bytes P v;
     let visited' = visited + 1;
     let dead' = (if sweep_due now row then dead @ [k] else dead);
     if visited' = budget then Some (visited', Some k, dead')
     else sweep_scan P now budget es visited' (Some k) dead' }"

definition sweep_expired_rows ::
  "'p principal_ops \<Rightarrow> 'm btree_ops \<Rightarrow> 'm \<Rightarrow> u64 \<Rightarrow> nat \<Rightarrow> bytes option
   \<Rightarrow> (retention_sweep_step \<times> 'm) option" where
  "sweep_expired_rows P B m now budget after = do {
     (visited, last_ex, dead) \<leftarrow> sweep_scan P now budget (bt_range_after B m after) 0 None [];
     let last_ex' = (if visited < budget then None else last_ex);
     Some (\<lparr>removed = length dead, resume_after = last_ex'\<rparr>, remove_keys B dead m) }"

record 'p grant_row_entry =
  ge_subject :: "'p grant_subject"
  ge_privilege :: privilege
  ge_expires_at_ns :: "u64 option"
  ge_predicate :: "compiled_predicate option"
  ge_evidence :: "'p elevation_evidence option"

fun rows_loop :: "'p principal_ops \<Rightarrow> (bytes \<times> bytes) list \<Rightarrow> 'p grant_row_entry list option" where
  "rows_loop P [] = Some []"
| "rows_loop P ((k, v) # es) = do {
     (priv, s) \<leftarrow> grant_key_decode P k;
     row \<leftarrow> grant_row_from_bytes P v;
     rest \<leftarrow> rows_loop P es;
     Some (\<lparr>ge_subject = s, ge_privilege = priv, ge_expires_at_ns = expires_at_ns row,
            ge_predicate = predicate row, ge_evidence = evidence row\<rparr> # rest) }"

definition grant_rows :: "'p principal_ops \<Rightarrow> 'm btree_ops \<Rightarrow> 'm \<Rightarrow> 'p grant_row_entry list option" where
  "grant_rows P B m = rows_loop P (bt_entries B m)"

section \<open>The abstract view of the grant rows\<close>

definition grant_abs ::
  "'p principal_ops \<Rightarrow> 'm btree_ops \<Rightarrow> 'm \<Rightarrow> privilege \<Rightarrow> 'p grant_subject \<Rightarrow> 'p grant_row option" where
  "grant_abs P B m priv s = Option.bind (bt_get B m (grant_key P priv s)) (grant_row_from_bytes P)"

text \<open>
  Every stored key is the canonical key of a well-formed privilege and a subject other than the
  anonymous principal, and every stored row decodes.
\<close>

definition grants_inv :: "'p principal_ops \<Rightarrow> 'm btree_ops \<Rightarrow> ('m \<Rightarrow> bool) \<Rightarrow> 'm \<Rightarrow> bool" where
  "grants_inv P B minv m = (minv m \<and> (\<forall>k v. bt_get B m k = Some v \<longrightarrow>
     (\<exists>priv s. privilege_wf priv \<and> s \<noteq> SubjPrincipal (anonymous P) \<and> k = grant_key P priv s)
     \<and> grant_row_from_bytes P v \<noteq> None))"

lemma any_entry_Some:
  "(\<And>e. e \<in> set es \<Longrightarrow> f e = Some (g e)) \<Longrightarrow> any_entry f es = Some (\<exists>e\<in>set es. g e)"
  by (induction es) auto

locale auth_store = principal_api P + stable_btree B minv
  for P :: "'p principal_ops" and B :: "'m btree_ops" and minv :: "'m \<Rightarrow> bool"
begin

abbreviation ginv :: "'m \<Rightarrow> bool" where "ginv \<equiv> grants_inv P B minv"
abbreviation gabs :: "'m \<Rightarrow> privilege \<Rightarrow> 'p grant_subject \<Rightarrow> 'p grant_row option" where "gabs \<equiv> grant_abs P B"

lemma ginv_inv: "ginv m \<Longrightarrow> minv m"
  by (simp add: grants_inv_def)

lemma entry_view:
  assumes "ginv m" "(k, v) \<in> set (bt_entries B m)"
  obtains priv s row where "k = grant_key P priv s" "grant_key_decode P k = Some (priv, s)"
    "privilege_wf priv" "s \<noteq> SubjPrincipal (anonymous P)"
    "grant_row_from_bytes P v = Some row" "gabs m priv s = Some row"
proof -
  have get: "bt_get B m k = Some v"
    using assms by (simp add: in_entries_iff ginv_inv)
  with assms(1) obtain priv s row where "privilege_wf priv" "s \<noteq> SubjPrincipal (anonymous P)"
      "k = grant_key P priv s" "grant_row_from_bytes P v = Some row"
    unfolding grants_inv_def by blast
  with get that show thesis
    by (simp add: grant_key_decode_key grant_abs_def)
qed

lemma abs_entry:
  assumes "ginv m" "gabs m priv s = Some row"
  obtains v where "(grant_key P priv s, v) \<in> set (bt_entries B m)"
    "grant_row_from_bytes P v = Some row" "grant_key_decode P (grant_key P priv s) = Some (priv, s)"
    "s \<noteq> SubjPrincipal (anonymous P)"
proof -
  from assms(2) obtain v where v: "bt_get B m (grant_key P priv s) = Some v"
      "grant_row_from_bytes P v = Some row"
    by (auto simp: grant_abs_def elim!: bind_eq_SomeE)
  then have e: "(grant_key P priv s, v) \<in> set (bt_entries B m)"
    using assms(1) by (simp add: in_entries_iff ginv_inv)
  from assms(1) e obtain priv' s' where k: "grant_key P priv s = grant_key P priv' s'"
      "grant_key_decode P (grant_key P priv s) = Some (priv', s')" "s' \<noteq> SubjPrincipal (anonymous P)"
    by (rule entry_view)
  with grant_key_inject [OF k(1)] e v that show thesis by simp
qed

lemma abs_insert:
  assumes "ginv m" "privilege_wf priv" "s \<noteq> SubjPrincipal (anonymous P)"
    "grant_row_to_bytes P row = Some v" "grant_row_wf row"
  shows "ginv (bt_insert B m (grant_key P priv s) v)"
    and "gabs (bt_insert B m (grant_key P priv s) v) priv' s'
      = (if priv' = priv \<and> s' = s then Some row else gabs m priv' s')"
proof -
  note dec = grant_row_round_trip [OF assms(4,5)]
  show "ginv (bt_insert B m (grant_key P priv s) v)"
    using assms dec by (auto simp: grants_inv_def insert_inv get_insert)
  show "gabs (bt_insert B m (grant_key P priv s) v) priv' s'
      = (if priv' = priv \<and> s' = s then Some row else gabs m priv' s')"
    using dec grant_key_inject [of priv' s' priv s] ginv_inv [OF assms(1)]
    by (auto simp: grant_abs_def get_insert)
qed

lemma abs_remove_keys:
  assumes "ginv m"
  shows "ginv (remove_keys B ks m)"
    and "gabs (remove_keys B ks m) priv s
      = (if grant_key P priv s \<in> set ks then None else gabs m priv s)"
  using assms
  by (auto simp: grants_inv_def grant_abs_def remove_keys_def fold_remove_inv get_fold_remove)

subsection \<open>Lookups\<close>

lemma holds_abs:
  assumes "ginv m"
  shows "holds P B m s priv now
    = Some (case gabs m priv s of None \<Rightarrow> False | Some row \<Rightarrow> \<not> row_expired now row)"
proof (cases "bt_get B m (grant_key P priv s)")
  case None
  then show ?thesis by (simp add: holds_def grant_abs_def)
next
  case (Some v)
  with assms obtain row where "grant_row_from_bytes P v = Some row"
    unfolding grants_inv_def by blast
  with Some show ?thesis by (simp add: holds_def grant_abs_def)
qed

text \<open>A scan over the entries visits exactly the rows of the abstract view.\<close>

lemma bex_entries:
  assumes "ginv m"
  shows "(\<exists>(k, v)\<in>set (bt_entries B m). Q (the (grant_key_decode P k)) (the (grant_row_from_bytes P v)))
    \<longleftrightarrow> (\<exists>priv s row. gabs m priv s = Some row \<and> Q (priv, s) row)"
proof
  assume "\<exists>(k, v)\<in>set (bt_entries B m). Q (the (grant_key_decode P k)) (the (grant_row_from_bytes P v))"
  then obtain k v where kv: "(k, v) \<in> set (bt_entries B m)"
      "Q (the (grant_key_decode P k)) (the (grant_row_from_bytes P v))" by blast
  from assms kv(1) obtain priv s row where "grant_key_decode P k = Some (priv, s)"
      "grant_row_from_bytes P v = Some row" "gabs m priv s = Some row"
    by (rule entry_view)
  with kv(2) show "\<exists>priv s row. gabs m priv s = Some row \<and> Q (priv, s) row" by auto
next
  assume "\<exists>priv s row. gabs m priv s = Some row \<and> Q (priv, s) row"
  then obtain priv s row where r: "gabs m priv s = Some row" "Q (priv, s) row" by blast
  from assms r(1) obtain v where "(grant_key P priv s, v) \<in> set (bt_entries B m)"
    "grant_row_from_bytes P v = Some row" "grant_key_decode P (grant_key P priv s) = Some (priv, s)"
    by (rule abs_entry)
  with r(2) show "\<exists>(k, v)\<in>set (bt_entries B m).
      Q (the (grant_key_decode P k)) (the (grant_row_from_bytes P v))"
    by (intro bexI [of _ "(grant_key P priv s, v)"]) auto
qed

lemma entries_decode:
  assumes "ginv m" "(k, v) \<in> set (bt_entries B m)"
  shows "\<exists>d. grant_key_decode P k = Some d" and "\<exists>row. grant_row_from_bytes P v = Some row"
  using entry_view [OF assms] by metis+

lemma matches_graph_grant_iff:
  "matches_graph_grant graph s (priv, s') \<longleftrightarrow> s' = s \<and> (\<exists>g. priv = PrivGraph g \<and> gp_graph g = graph)"
  by (cases priv) auto

lemma holds_any_graph_grant_abs:
  assumes "ginv m"
  shows "holds_any_graph_grant P B m s graph now = Some (\<exists>g row. gabs m (PrivGraph g) s = Some row
    \<and> gp_graph g = graph \<and> \<not> row_expired now row)"
proof -
  let ?Q = "\<lambda>d row. \<not> row_expired now row \<and> matches_graph_grant graph s d"
  let ?g = "\<lambda>(k, v). ?Q (the (grant_key_decode P k)) (the (grant_row_from_bytes P v))"
  have "holds_any_graph_grant P B m s graph now = Some (\<exists>e\<in>set (bt_entries B m). ?g e)"
    unfolding holds_any_graph_grant_def
  proof (rule any_entry_Some)
    fix e assume "e \<in> set (bt_entries B m)"
    moreover obtain k v where "e = (k, v)" by (cases e)
    ultimately show "(case e of (k, v) \<Rightarrow> grant_row_from_bytes P v \<bind> (\<lambda>row.
        if row_expired now row then Some False
        else map_option (matches_graph_grant graph s) (grant_key_decode P k))) = Some (?g e)"
      using entries_decode [OF assms, of k v] by auto
  qed
  also have "(\<exists>e\<in>set (bt_entries B m). ?g e) \<longleftrightarrow> (\<exists>priv s' row. gabs m priv s' = Some row \<and> ?Q (priv, s') row)"
    using bex_entries [OF assms, of ?Q] by simp
  also have "\<dots> \<longleftrightarrow> (\<exists>g row. gabs m (PrivGraph g) s = Some row \<and> gp_graph g = graph \<and> \<not> row_expired now row)"
    unfolding matches_graph_grant_iff by blast
  finally show ?thesis .
qed

lemma vertex_match_iff:
  "vertex_match graph s (priv, s') = Some r \<longleftrightarrow> s' = s \<and>
     priv = PrivGraph \<lparr>gp_graph = graph, gp_operation = Match, gp_resource =
       (case r of Some l \<Rightarrow> VertexLabel l | None \<Rightarrow> AllVertexLabels)\<rparr>"
proof (cases priv)
  case (PrivGraph g)
  then show ?thesis
    by (cases g) (auto split: graph_operation.splits graph_resource.splits option.splits)
qed simp_all

lemma collect_loop_spec:
  "(\<And>e. e \<in> set es \<Longrightarrow> grant_row_from_bytes P (snd e) = Some (R e) \<and> grant_key_decode P (fst e) = Some (D e)) \<Longrightarrow>
   collect_loop P s graph now es labels wildcard = Some
     (labels \<union> {l. \<exists>e\<in>set es. \<not> row_expired now (R e) \<and> vertex_match graph s (D e) = Some (Some l)},
      wildcard \<or> (\<exists>e\<in>set es. \<not> row_expired now (R e) \<and> vertex_match graph s (D e) = Some None))"
proof (induction es arbitrary: labels wildcard)
  case Nil
  then show ?case by simp
next
  case (Cons e es)
  obtain k v where e: "e = (k, v)" by (cases e)
  have "grant_row_from_bytes P v = Some (R e)" "grant_key_decode P k = Some (D e)"
    using Cons.prems [of e] by (simp_all add: e)
  with Cons show ?case
    by (auto simp: e split: option.splits)
qed

lemma collect_abs:
  assumes "ginv m"
  shows "collect_vertex_label_match_set P B m s graph now = Some
    ({l. \<exists>row. gabs m (PrivGraph \<lparr>gp_graph = graph, gp_operation = Match, gp_resource = VertexLabel l\<rparr>) s
            = Some row \<and> \<not> row_expired now row},
     \<exists>row. gabs m (PrivGraph \<lparr>gp_graph = graph, gp_operation = Match, gp_resource = AllVertexLabels\<rparr>) s
            = Some row \<and> \<not> row_expired now row)"
proof -
  let ?R = "\<lambda>e. the (grant_row_from_bytes P (snd e))" and ?D = "\<lambda>e. the (grant_key_decode P (fst e))"
  have *: "(\<exists>e\<in>set (bt_entries B m). \<not> row_expired now (?R e) \<and> vertex_match graph s (?D e) = Some r) \<longleftrightarrow>
      (\<exists>row. gabs m (PrivGraph \<lparr>gp_graph = graph, gp_operation = Match, gp_resource =
          (case r of Some l \<Rightarrow> VertexLabel l | None \<Rightarrow> AllVertexLabels)\<rparr>) s = Some row
        \<and> \<not> row_expired now row)" for r
  proof -
    have "(\<exists>e\<in>set (bt_entries B m). \<not> row_expired now (?R e) \<and> vertex_match graph s (?D e) = Some r)
      \<longleftrightarrow> (\<exists>priv s' row. gabs m priv s' = Some row \<and> \<not> row_expired now row
            \<and> vertex_match graph s (priv, s') = Some r)"
      using bex_entries [OF assms, of "\<lambda>d row. \<not> row_expired now row \<and> vertex_match graph s d = Some r"]
      by (simp add: case_prod_unfold)
    then show ?thesis unfolding vertex_match_iff by auto
  qed
  have "collect_vertex_label_match_set P B m s graph now = Some
     ({} \<union> {l. \<exists>e\<in>set (bt_entries B m). \<not> row_expired now (?R e) \<and> vertex_match graph s (?D e) = Some (Some l)},
      False \<or> (\<exists>e\<in>set (bt_entries B m). \<not> row_expired now (?R e) \<and> vertex_match graph s (?D e) = Some None))"
    unfolding collect_vertex_label_match_set_def
    by (rule collect_loop_spec) (use entries_decode [OF assms] in \<open>metis option.sel prod.collapse\<close>)
  then show ?thesis unfolding * by simp
qed

lemma holds_any_vertex_label_match_abs:
  assumes "ginv m"
  shows "holds_any_vertex_label_match P B m s graph now = Some (\<exists>r row.
    gabs m (PrivGraph \<lparr>gp_graph = graph, gp_operation = Match, gp_resource =
       (case r of Some l \<Rightarrow> VertexLabel l | None \<Rightarrow> AllVertexLabels)\<rparr>) s = Some row
    \<and> \<not> row_expired now row)"
proof -
  let ?Q = "\<lambda>d row. \<not> row_expired now row \<and> vertex_match graph s d \<noteq> None"
  let ?g = "\<lambda>(k, v). ?Q (the (grant_key_decode P k)) (the (grant_row_from_bytes P v))"
  have "holds_any_vertex_label_match P B m s graph now = Some (\<exists>e\<in>set (bt_entries B m). ?g e)"
    unfolding holds_any_vertex_label_match_def
  proof (rule any_entry_Some)
    fix e assume "e \<in> set (bt_entries B m)"
    moreover obtain k v where "e = (k, v)" by (cases e)
    ultimately show "(case e of (k, v) \<Rightarrow> grant_row_from_bytes P v \<bind> (\<lambda>row.
        if row_expired now row then Some False
        else map_option (\<lambda>d. vertex_match graph s d \<noteq> None) (grant_key_decode P k))) = Some (?g e)"
      using entries_decode [OF assms, of k v] by auto
  qed
  also have "(\<exists>e\<in>set (bt_entries B m). ?g e) \<longleftrightarrow> (\<exists>priv s' row. gabs m priv s' = Some row \<and> ?Q (priv, s') row)"
    using bex_entries [OF assms, of ?Q] by simp
  finally show ?thesis unfolding not_None_eq vertex_match_iff by auto
qed

subsection \<open>Cascades\<close>

lemma dead_keys_spec:
  "(\<And>e. e \<in> set es \<Longrightarrow> grant_key_decode P (fst e) = Some (D e)) \<Longrightarrow>
   dead_keys P graph es = Some (map fst (filter (\<lambda>e. targets_graph graph (fst (D e))) es))"
proof (induction es)
  case Nil
  then show ?case by simp
next
  case (Cons e es)
  have "grant_key_decode P (fst e) = Some (D e)" using Cons.prems [of e] by simp
  with Cons show ?case by (cases e) (auto simp: case_prod_unfold)
qed

lemma revoke_all_abs:
  assumes "ginv m"
  shows "\<exists>n m'. revoke_all_for_graph P B m graph = Some (n, m') \<and> ginv m'
    \<and> (\<forall>priv s. gabs m' priv s = (if targets_graph graph priv then None else gabs m priv s))"
proof -
  let ?D = "\<lambda>e. the (grant_key_decode P (fst e))"
  let ?dead = "map fst (filter (\<lambda>e. targets_graph graph (fst (?D e))) (bt_entries B m))"
  have dead: "dead_keys P graph (bt_entries B m) = Some ?dead"
    by (rule dead_keys_spec) (use entries_decode [OF assms] in \<open>metis option.sel prod.collapse\<close>)
  have "gabs (remove_keys B ?dead m) priv s = (if targets_graph graph priv then None else gabs m priv s)"
    for priv s
  proof (cases "gabs m priv s")
    case None
    then show ?thesis by (simp add: abs_remove_keys [OF assms])
  next
    case (Some row)
    with assms obtain v where v: "(grant_key P priv s, v) \<in> set (bt_entries B m)"
        "grant_key_decode P (grant_key P priv s) = Some (priv, s)"
      by (rule abs_entry)
    have "grant_key P priv s \<in> set ?dead \<longleftrightarrow> targets_graph graph priv"
      using v by (force simp: image_iff)
    then show ?thesis by (simp only: abs_remove_keys [OF assms])
  qed
  then show ?thesis
    using dead abs_remove_keys(1) [OF assms, of ?dead] by (simp add: revoke_all_for_graph_def)
qed

subsection \<open>The retention sweep\<close>

text \<open>How many entries of a slice one step visits; a budget of 0 never stops the scan.\<close>

lemma sweep_scan_spec:
  assumes "\<And>e. e \<in> set es \<Longrightarrow> grant_row_from_bytes P (snd e) = Some (R e)"
    and "visited < budget \<or> budget = 0"
    and "n = (if budget = 0 then length es else min (budget - visited) (length es))"
  shows "sweep_scan P now budget es visited last_ex dead = Some
    (visited + n, if n = 0 then last_ex else Some (fst (es ! (n - 1))),
     dead @ map fst (filter (\<lambda>e. sweep_due now (R e)) (take n es)))"
  using assms
proof (induction es arbitrary: visited last_ex dead n)
  case Nil
  then show ?case by simp
next
  case (Cons e es)
  obtain k v where e: "e = (k, v)" by (cases e)
  have r: "grant_row_from_bytes P v = Some (R e)" using Cons.prems(1) [of e] by (simp add: e)
  show ?case
  proof (cases "visited + 1 = budget")
    case True
    with Cons.prems(3) have "n = 1" by auto
    with True r show ?thesis by (simp add: e)
  next
    case False
    let ?n = "if budget = 0 then length es else min (budget - (visited + 1)) (length es)"
    have n: "n = Suc ?n" using Cons.prems(2,3) False by auto
    let ?dead = "if sweep_due now (R e) then dead @ [k] else dead"
    have "sweep_scan P now budget es (visited + 1) (Some k) ?dead = Some
      (visited + 1 + ?n, if ?n = 0 then Some k else Some (fst (es ! (?n - 1))),
       ?dead @ map fst (filter (\<lambda>e. sweep_due now (R e)) (take ?n es)))"
      using Cons.prems(1,2) False by (intro Cons.IH) auto
    with False r show ?thesis
      unfolding n by (simp add: e Let_def nth_Cons')
  qed
qed

lemma sweep_due_expired: "sweep_due now row \<Longrightarrow> row_expired now row"
  using unat_u64_less [of now]
  by (auto simp: sweep_due_def row_expired_def sat_add64_def word_less_nat_alt min_def
      split: option.splits if_splits)

text \<open>
  One step with a positive budget, from the cursor \<open>after\<close>: \<open>es\<close> is the slice above the cursor. It removes
  exactly the due rows among the first \<open>budget\<close> entries of the slice.
\<close>

lemma sweep_step:
  assumes g: "ginv m" and "0 < budget"
    and es: "es = bt_range_after B m after" and n: "n = min budget (length es)"
    and dead: "dead = map fst (filter (\<lambda>(k, v). sweep_due now (the (grant_row_from_bytes P v))) (take n es))"
  shows "sweep_expired_rows P B m now budget after = Some
    (\<lparr>removed = length dead,
      resume_after = (if length es < budget then None else Some (fst (es ! (n - 1))))\<rparr>,
     remove_keys B dead m)"
proof -
  let ?R = "\<lambda>e. the (grant_row_from_bytes P (snd e))"
  have sub: "set es \<subseteq> set (bt_entries B m)"
    by (auto simp: es range_after [OF ginv_inv [OF g]])
  have R: "grant_row_from_bytes P (snd e) = Some (?R e)" if "e \<in> set es" for e
  proof -
    from that sub have "(fst e, snd e) \<in> set (bt_entries B m)" by auto
    from entries_decode(2) [OF g this] show ?thesis by auto
  qed
  have scan: "sweep_scan P now budget es 0 None [] = Some
      (0 + n, if n = 0 then None else Some (fst (es ! (n - 1))),
       [] @ map fst (filter (\<lambda>e. sweep_due now (?R e)) (take n es)))"
    by (rule sweep_scan_spec [OF R]) (use assms(2) n in auto)
  have "(if n < budget then None else if n = 0 then None else Some (fst (es ! (n - 1))))
      = (if length es < budget then None else Some (fst (es ! (n - 1))))"
    using n assms(2) by auto
  moreover have "filter (\<lambda>e. sweep_due now (?R e)) (take n es)
      = filter (\<lambda>(k, v). sweep_due now (the (grant_row_from_bytes P v))) (take n es)"
    by (simp add: case_prod_unfold)
  ultimately show ?thesis
    unfolding sweep_expired_rows_def es [symmetric] scan dead
    by (simp only: bind.simps Let_def prod.case append_Nil add_0)
qed

end

text \<open>
  A lap of the sweep, as the maintenance timer drives it: steps from the saved cursor until the
  cursor is \<open>None\<close> again. The fuel bounds the number of steps.
\<close>

fun sweep_lap ::
  "nat \<Rightarrow> 'p principal_ops \<Rightarrow> 'm btree_ops \<Rightarrow> u64 \<Rightarrow> nat \<Rightarrow> bytes option \<Rightarrow> 'm \<Rightarrow> 'm option" where
  "sweep_lap 0 P B now budget after m = None"
| "sweep_lap (Suc fuel) P B now budget after m = do {
     (step, m') \<leftarrow> sweep_expired_rows P B m now budget after;
     case resume_after step of
       None \<Rightarrow> Some m'
     | Some k \<Rightarrow> sweep_lap fuel P B now budget (Some k) m' }"

context auth_store
begin

lemma range_after_drop:
  assumes "minv m" "es = bt_range_after B m after" "0 < n" "n \<le> length es"
    and "set dead \<subseteq> fst ` set (take n es)"
  shows "bt_range_after B (remove_keys B dead m) (Some (fst (es ! (n - 1)))) = drop n es"
proof -
  define k1 where "k1 = fst (es ! (n - 1))"
  let ?up = "\<lambda>(k, _). case after of None \<Rightarrow> True | Some k0 \<Rightarrow> k0 < k"
  have es: "es = filter ?up (bt_entries B m)" using assms(1,2) by (simp add: range_after)
  have sorted: "sorted_wrt (<) (map fst es)"
    using entries_sorted [OF assms(1)] unfolding es sorted_wrt_map
    by (rule sorted_wrt_filter)
  have lt: "fst (es ! i) < fst (es ! j)" if "i < j" "j < length es" for i j
    using sorted that sorted_wrt_nth_less [of "(<)" "map fst es" i j] by simp
  have up: "after_k < k1" if "after = Some after_k" for after_k
  proof -
    have "es ! (n - 1) \<in> set es" using assms(3,4) by (intro nth_mem) linarith
    then show ?thesis using that by (auto simp: es k1_def)
  qed
  let ?Q = "\<lambda>(k, _). k1 < k \<and> k \<notin> set dead"
  have "bt_range_after B (remove_keys B dead m) (Some k1) = filter ?Q (bt_entries B m)"
    unfolding remove_keys_def
    by (simp add: range_after fold_remove_inv assms(1) entries_fold_remove case_prod_unfold conj_commute)
  also have "\<dots> = filter (\<lambda>e. ?up e \<and> ?Q e) (bt_entries B m)"
    by (rule filter_cong) (auto split: option.splits intro: less_trans [OF up])
  also have "\<dots> = filter ?Q es"
    by (subst es, unfold filter_filter, rule filter_cong) auto
  also have "\<dots> = filter ?Q (take n es) @ filter ?Q (drop n es)"
    using filter_append [of ?Q "take n es" "drop n es"] by (simp only: append_take_drop_id)
  also have "filter ?Q (take n es) = []"
  proof (rule filter_False, rule ballI)
    fix e assume "e \<in> set (take n es)"
    then obtain i where i: "i < n" "e = es ! i" by (auto simp: in_set_conv_nth)
    then have "i = n - 1 \<or> i < n - 1" by linarith
    then have "fst e \<le> k1"
    proof
      assume "i < n - 1"
      moreover have "n - 1 < length es" using assms(3,4) by linarith
      ultimately show ?thesis using lt i(2) by (simp add: k1_def less_imp_le)
    qed (simp add: i(2) k1_def)
    then show "\<not> ?Q e" by (simp add: case_prod_unfold not_less)
  qed
  also have "filter ?Q (drop n es) = drop n es"
  proof (rule filter_True, rule ballI)
    fix e assume "e \<in> set (drop n es)"
    then obtain j where "j < length (drop n es)" "e = drop n es ! j"
      unfolding in_set_conv_nth by blast
    then have j: "n + j < length es" "e = es ! (n + j)" by simp_all
    have below: "fst (es ! i) < fst e" if "i < n" for i
      using lt [of i "n + j"] that j by simp
    have "fst e \<notin> fst ` set (take n es)"
    proof
      assume "fst e \<in> fst ` set (take n es)"
      then obtain i where i: "i < n" "fst e = fst (es ! i)" by (auto simp: in_set_conv_nth)
      from below [OF i(1)] i(2) show False by simp
    qed
    moreover have "k1 < fst e" using below [of "n - 1"] assms(3) by (simp add: k1_def)
    ultimately show "?Q e"
      using assms(5) by (auto simp: case_prod_unfold)
  qed
  finally show ?thesis unfolding k1_def by (simp only: append_Nil)
qed

lemma dead_key_iff:
  assumes g: "ginv m" and sub: "set xs \<subseteq> set (bt_entries B m)" and r: "gabs m priv s = Some row"
  shows "grant_key P priv s \<in> set (map fst (filter (\<lambda>(k, v). sweep_due now (the (grant_row_from_bytes P v))) xs))
    \<longleftrightarrow> sweep_due now row \<and> grant_key P priv s \<in> fst ` set xs"
proof -
  have row: "the (grant_row_from_bytes P v) = row" if "(grant_key P priv s, v) \<in> set xs" for v
  proof -
    have "bt_get B m (grant_key P priv s) = Some v"
      using that sub g by (auto simp: in_entries_iff ginv_inv)
    then show ?thesis using r by (simp add: grant_abs_def)
  qed
  then show ?thesis by (force simp: image_iff)
qed

lemma abs_key_in_entries:
  "ginv m \<Longrightarrow> gabs m priv s = Some row \<Longrightarrow> grant_key P priv s \<in> fst ` set (bt_entries B m)"
  by (metis abs_entry fst_conv image_eqI)

lemma range_subset: "minv m \<Longrightarrow> set (bt_range_after B m after) \<subseteq> set (bt_entries B m)"
  by (auto simp: range_after)

text \<open>A lap from a cursor terminates and removes exactly the due rows above the cursor.\<close>

lemma sweep_lap_spec:
  assumes "ginv m" "0 < budget" "length (bt_range_after B m after) < fuel"
  shows "\<exists>m'. sweep_lap fuel P B now budget after m = Some m' \<and> ginv m'
    \<and> (\<forall>priv s. gabs m' priv s = (case gabs m priv s of None \<Rightarrow> None
        | Some row \<Rightarrow> if sweep_due now row \<and> grant_key P priv s \<in> fst ` set (bt_range_after B m after)
            then None else Some row))"
  using assms
proof (induction fuel arbitrary: m after)
  case 0
  then show ?case by simp
next
  case (Suc fuel)
  define es where "es = bt_range_after B m after"
  define n where "n = min budget (length es)"
  define dead where "dead = map fst (filter (\<lambda>(k, v). sweep_due now (the (grant_row_from_bytes P v))) (take n es))"
  let ?m = "remove_keys B dead m"
  note step = sweep_step [OF Suc.prems(1,2) es_def n_def dead_def]
  note g' = abs_remove_keys(1) [OF Suc.prems(1), of dead]
  have sub: "set (take n es) \<subseteq> set (bt_entries B m)"
    using range_subset [OF ginv_inv [OF Suc.prems(1)], of after] set_take_subset [of n es]
    unfolding es_def by blast
  have abs1: "gabs ?m priv s = (case gabs m priv s of None \<Rightarrow> None
      | Some row \<Rightarrow> if sweep_due now row \<and> grant_key P priv s \<in> fst ` set (take n es)
          then None else Some row)" for priv s
    using dead_key_iff [OF Suc.prems(1) sub, of priv s _ now]
    by (simp add: abs_remove_keys(2) [OF Suc.prems(1)] dead_def [symmetric] split: option.splits)
  show ?case
  proof (cases "length es < budget")
    case True
    then have "take n es = es" by (simp add: n_def)
    note abs1 [unfolded this, unfolded es_def]
    moreover have "sweep_lap (Suc fuel) P B now budget after m = Some ?m"
      using True step by simp
    ultimately show ?thesis using g' by blast
  next
    case False
    let ?k = "fst (es ! (n - 1))"
    have n: "0 < n" "n \<le> length es" using False Suc.prems(2) by (auto simp: n_def)
    have "set dead \<subseteq> fst ` set (take n es)" unfolding dead_def by auto
    then have rng: "bt_range_after B ?m (Some ?k) = drop n es"
      using n range_after_drop [OF ginv_inv [OF Suc.prems(1)] es_def] by blast
    have "length (bt_range_after B ?m (Some ?k)) < fuel"
      unfolding rng using n Suc.prems(3) by (simp add: es_def [symmetric])
    from Suc.IH [OF g' Suc.prems(2) this] obtain m' where m': "sweep_lap fuel P B now budget (Some ?k) ?m = Some m'"
        "ginv m'" and abs2: "\<And>priv s. gabs m' priv s = (case gabs ?m priv s of None \<Rightarrow> None
        | Some row \<Rightarrow> if sweep_due now row \<and> grant_key P priv s \<in> fst ` set (drop n es) then None else Some row)"
      unfolding rng by blast
    have "set es = set (take n es) \<union> set (drop n es)"
      by (metis append_take_drop_id set_append)
    then have "gabs m' priv s = (case gabs m priv s of None \<Rightarrow> None
        | Some row \<Rightarrow> if sweep_due now row \<and> grant_key P priv s \<in> fst ` set es then None else Some row)"
      for priv s
      unfolding abs2 abs1 by (auto split: option.splits)
    note this [unfolded es_def]
    moreover have "sweep_lap (Suc fuel) P B now budget after m = Some m'"
      using False m'(1) step by simp
    ultimately show ?thesis using m'(2) by blast
  qed
qed

end

text \<open>The interfaces are met by the sorted association list and the 29-byte principals.\<close>

interpretation ax: auth_store principal29_ops al_ops al_inv
  by unfold_locales

section \<open>Reachable grant states\<close>

text \<open>
  The mutating operations of \<open>GrantState\<close> that return (a trap rolls the message back). Strings are
  UTF-8, and the name of a prepared query is shorter than 64 KiB.
\<close>

inductive grant_step :: "'p principal_ops \<Rightarrow> 'm btree_ops \<Rightarrow> 'm \<Rightarrow> 'm \<Rightarrow> bool"
  for P B where
  grant: "grant P B m s priv ex pred = Some (r, m') \<Longrightarrow> privilege_wf priv \<Longrightarrow>
    (case pred of Some p \<Rightarrow> predicate_wf p | None \<Rightarrow> True) \<Longrightarrow> grant_step P B m m'"
| elevation: "grant_elevation P B m s priv ex ev = Some (r, m') \<Longrightarrow>
    utf8_valid (justification ev) \<Longrightarrow> grant_step P B m m'"
| revoke: "revoke P B m s priv = (b, m') \<Longrightarrow> grant_step P B m m'"
| revoke_all: "revoke_all_for_graph P B m graph = Some (n, m') \<Longrightarrow> grant_step P B m m'"
| sweep: "sweep_expired_rows P B m now budget after = Some (st, m') \<Longrightarrow> grant_step P B m m'"

inductive grant_reach :: "'p principal_ops \<Rightarrow> 'm btree_ops \<Rightarrow> 'm \<Rightarrow> 'm \<Rightarrow> bool"
  for P B m0 where
  init: "grant_reach P B m0 m0"
| step: "grant_reach P B m0 m \<Longrightarrow> grant_step P B m m' \<Longrightarrow> grant_reach P B m0 m'"

text \<open>A row with evidence is a complete elevation record.\<close>

definition row_complete :: "privilege \<Rightarrow> 'p grant_row \<Rightarrow> bool" where
  "row_complete priv row = (case evidence row of
     None \<Rightarrow> True
   | Some ev \<Rightarrow> is_metadata priv \<and> expires_at_ns row \<noteq> None \<and> predicate row = None
       \<and> justification ev \<noteq> [] \<and> length (justification ev) \<le> MAX_ELEVATION_JUSTIFICATION_BYTES)"

definition grants_complete :: "'p principal_ops \<Rightarrow> 'm btree_ops \<Rightarrow> 'm \<Rightarrow> bool" where
  "grants_complete P B m = (\<forall>priv s row. grant_abs P B m priv s = Some row \<longrightarrow> row_complete priv row)"

context auth_store
begin

lemma put_abs:
  assumes "ginv m" "privilege_wf priv" "grant_row_wf row" "grant_put P B m s priv row = Some (r, m')"
  shows "ginv m'" and "s = SubjPrincipal (anonymous P) \<Longrightarrow> r = Inl AnonymousPrincipal \<and> m' = m"
    and "s \<noteq> SubjPrincipal (anonymous P) \<Longrightarrow> r = Inr () \<and>
      (\<forall>priv' s'. gabs m' priv' s' = (if priv' = priv \<and> s' = s then Some row else gabs m priv' s'))"
proof -
  have "ginv m' \<and> (s = SubjPrincipal (anonymous P) \<longrightarrow> r = Inl AnonymousPrincipal \<and> m' = m)
    \<and> (s \<noteq> SubjPrincipal (anonymous P) \<longrightarrow> r = Inr () \<and>
      (\<forall>priv' s'. gabs m' priv' s' = (if priv' = priv \<and> s' = s then Some row else gabs m priv' s')))"
  proof (cases "s = SubjPrincipal (anonymous P)")
    case True
    with assms show ?thesis by (simp add: grant_put_def)
  next
    case False
    with assms(4) obtain v where v: "grant_row_to_bytes P row = Some v" "r = Inr ()"
        "m' = bt_insert B m (grant_key P priv s) v"
      by (auto simp: grant_put_def elim!: bind_eq_SomeE)
    with False abs_insert [OF assms(1,2) False v(1) assms(3)] show ?thesis by simp
  qed
  then show "ginv m'" and "s = SubjPrincipal (anonymous P) \<Longrightarrow> r = Inl AnonymousPrincipal \<and> m' = m"
    and "s \<noteq> SubjPrincipal (anonymous P) \<Longrightarrow> r = Inr () \<and>
      (\<forall>priv' s'. gabs m' priv' s' = (if priv' = priv \<and> s' = s then Some row else gabs m priv' s'))"
    by simp_all
qed

lemma put_complete:
  assumes "ginv m" "grants_complete P B m" "privilege_wf priv" "grant_row_wf row" "row_complete priv row"
    "grant_put P B m s priv row = Some (r, m')"
  shows "ginv m' \<and> grants_complete P B m'"
  using put_abs [OF assms(1,3,4,6)] assms(2,5)
  by (cases "s = SubjPrincipal (anonymous P)") (auto simp: grants_complete_def)

lemma remove_complete:
  "ginv m \<Longrightarrow> grants_complete P B m \<Longrightarrow>
   ginv (remove_keys B ks m) \<and> grants_complete P B (remove_keys B ks m)"
  by (simp add: abs_remove_keys grants_complete_def)

lemma step_complete:
  assumes "grant_step P B m m'" "ginv m" "grants_complete P B m"
  shows "ginv m' \<and> grants_complete P B m'"
  using assms(1)
proof cases
  case (grant s priv ex pred r)
  with assms show ?thesis
    by (intro put_complete [of m priv "\<lparr>expires_at_ns = ex, predicate = pred, evidence = None\<rparr>" s r])
      (simp_all add: grant_def grant_row_wf_def row_complete_def)
next
  case (elevation s priv ex ev r)
  then consider e where "evidence_validate ev = Inl e" "m' = m"
    | "evidence_validate ev = Inr ()" "is_metadata priv" "grant_put P B m s priv
        \<lparr>expires_at_ns = Some ex, predicate = None, evidence = Some ev\<rparr> = Some (r, m')"
    by (auto simp: grant_elevation_def guard_bind_Some split: sum.splits)
  then show ?thesis
  proof cases
    case 2
    then have "privilege_wf priv" by (cases priv) (simp_all add: privilege_wf_def)
    with 2 elevation assms show ?thesis
      by (intro put_complete [of m priv "\<lparr>expires_at_ns = Some ex, predicate = None, evidence = Some ev\<rparr>" s r])
        (auto simp: grant_row_wf_def row_complete_def evidence_validate_def split: if_splits)
  qed (use assms in simp)
next
  case (revoke s priv b)
  then have "m' = remove_keys B [grant_key P priv s] m"
    by (simp add: revoke_def remove_keys_def Let_def)
  with remove_complete assms show ?thesis by simp
next
  case (revoke_all graph n)
  then show ?thesis
    using remove_complete assms by (auto simp: revoke_all_for_graph_def elim!: bind_eq_SomeE)
next
  case (sweep now budget after st)
  then show ?thesis
    using remove_complete assms
    by (auto simp: sweep_expired_rows_def Let_def case_prod_unfold elim!: bind_eq_SomeE)
qed

lemma reach_complete:
  assumes "grant_reach P B m0 m" "minv m0" "\<And>k. bt_get B m0 k = None"
  shows "ginv m \<and> grants_complete P B m"
  using assms(1)
proof induction
  case init
  then show ?case using assms by (simp add: grants_inv_def grants_complete_def grant_abs_def)
next
  case (step m m')
  then show ?case using step_complete by blast
qed

section \<open>Capability rows\<close>

lemma caps_record_round_trip [simp]: "caps_record_from_bytes (caps_record_to_bytes c) = Some c"
  by (simp add: caps_record_from_bytes_def caps_record_to_bytes_def)

lemma upsert_caps_of:
  assumes "minv m" "upsert_caps P B m p caps = (Inr (), m')"
  shows "minv m'" and "caps_of P B m' q = (if q = p then Some (from_bits_truncate caps) else caps_of P B m q)"
proof -
  from assms(2) have p: "p \<noteq> anonymous P" and m': "m' = bt_insert B m (as_slice P p) (caps_record_to_bytes caps)"
    by (auto simp: upsert_caps_def split: if_splits)
  show "minv m'" using assms(1) m' by (simp add: insert_inv)
  show "caps_of P B m' q = (if q = p then Some (from_bits_truncate caps) else caps_of P B m q)"
    using p assms(1) by (simp add: m' caps_of_def get_record_def get_insert as_slice_inject)
qed

lemma all_caps_truncate [simp]: "from_bits_truncate all_caps = all_caps"
  by (simp add: from_bits_truncate_def)

lemma bootstrap_loop_caps:
  assumes "minv m" "bootstrap_loop P B m issuing admins = (r, m')" "anonymous P \<notin> set admins"
  shows "r = Inr () \<and> (\<forall>p. caps_of P B m' p =
    (if p \<in> set admins \<and> p \<noteq> issuing then Some all_caps else caps_of P B m p))"
  using assms
proof (induction admins arbitrary: m)
  case Nil
  then show ?case by simp
next
  case (Cons a admins)
  show ?case
  proof (cases "a = issuing")
    case True
    with Cons show ?thesis by auto
  next
    case False
    obtain m1 where up: "upsert_caps P B m a all_caps = (Inr (), m1)"
      using Cons.prems(3) by (auto simp: upsert_caps_def)
    note u = upsert_caps_of [OF Cons.prems(1) up]
    have "bootstrap_loop P B m1 issuing admins = (r, m')"
      using Cons.prems(2) False up by simp
    from Cons.IH [OF u(1) this] Cons.prems(3) u(2) False show ?thesis by auto
  qed
qed

end

end
