(* ===== verification/Auth_Properties.thy ===== *)
theory Auth_Properties
  imports Auth_State
begin

text \<open>
  The properties of the authorization crate, stated over its definitions for every container and
  every principal type that meet the interface (\<open>auth_store\<close>), each with an instance on the sorted
  association list and 29-byte principals.
\<close>

section \<open>Shared facts for the instances\<close>

abbreviation p1 :: principal29 where "p1 \<equiv> Principal29 [7]"
abbreviation p2 :: principal29 where "p2 \<equiv> Principal29 [9, 9]"

lemma p29_distinct [simp]:
  "(Principal29 [a] = Principal29 [b]) = (a = b)"
  "(Principal29 [a] = Principal29 [b, c]) = False"
  "(Principal29 [b, c] = Principal29 [a]) = False"
  by (simp_all add: Principal29_inject)

lemma p29_anonymous [simp]: "anonymous principal29_ops = Principal29 [4]"
  by (simp add: principal29_ops_def)

lemma al_empty [simp]: "al_inv []" "bt_get al_ops [] k = None" "bt_entries al_ops [] = []"
  by (simp_all add: al_inv_def al_ops_def)

lemma grants_inv_empty [simp]: "grants_inv principal29_ops al_ops al_inv []"
  by (simp add: grants_inv_def)

definition match_priv :: "u32 \<Rightarrow> u32 \<Rightarrow> privilege" where
  "match_priv graph label =
     PrivGraph \<lparr>gp_graph = graph, gp_operation = Match, gp_resource = VertexLabel label\<rparr>"

text \<open>A store in which PUBLIC may match label 5 of graph 3 and label 6 of graph 4.\<close>

lemma two_graph_store:
  obtains m where "grants_inv principal29_ops al_ops al_inv m"
    "\<And>now. holds principal29_ops al_ops m Public (match_priv 3 5) now = Some True"
    "\<And>now. holds principal29_ops al_ops m Public (match_priv 4 6) now = Some True"
proof -
  let ?row = "\<lparr>expires_at_ns = None, predicate = None, evidence = None\<rparr> :: principal29 grant_row"
  have wf: "privilege_wf (match_priv g l)" "grant_row_wf ?row" for g l
    by (simp_all add: privilege_wf_def match_priv_def grant_row_wf_def)
  obtain m1 where m1: "grant_put principal29_ops al_ops [] Public (match_priv 3 5) ?row = Some (Inr (), m1)"
    by (simp add: grant_put_def grant_row_to_bytes_def)
  note s1 = ax.put_abs [OF grants_inv_empty wf m1]
  obtain m2 where m2: "grant_put principal29_ops al_ops m1 Public (match_priv 4 6) ?row = Some (Inr (), m2)"
    by (simp add: grant_put_def grant_row_to_bytes_def)
  note s2 = ax.put_abs [OF s1(1) wf m2]
  have "grant_abs principal29_ops al_ops m2 (match_priv 4 6) Public = Some ?row"
    "grant_abs principal29_ops al_ops m2 (match_priv 3 5) Public = Some ?row"
    using s1(3) s2(3) by (simp_all add: match_priv_def)
  then show thesis
    using that [OF s2(1)] by (simp add: ax.holds_abs [OF s2(1)] row_expired_def)
qed

section \<open>Keys and rows\<close>

text \<open>
  C17. The canonical grant key is a faithful name: two grants have the same stable key only when
  they are the same privilege for the same subject, whatever the length of a prepared-query name;
  and decoding a key gives back its privilege and subject exactly when the resource part is
  shorter than 64 KiB (a longer prepared-query name makes every decode of that key trap).
\<close>

theorem grant_key_faithful:
  assumes "principal_api P"
    and "\<And>name. pr = ExecutePreparedQuery name \<Longrightarrow> utf8_valid name"
  shows "(grant_key P pr s = grant_key P pr' s' \<longleftrightarrow> pr = pr' \<and> s = s')
    \<and> grant_key_decode P (grant_key P pr s) =
        (if length (resource_bytes pr) < 65536 then Some (pr, s) else None)"
proof -
  have "grant_key P pr s = grant_key P pr' s' \<longleftrightarrow> pr = pr' \<and> s = s'"
    using principal_api.grant_key_inject [OF assms(1)] by blast
  moreover have "privilege_wf pr" if "length (resource_bytes pr) < 65536"
    using that assms(2) by (cases pr) (simp_all add: privilege_wf_def)
  ultimately show ?thesis
    using principal_api.grant_key_decode_key [OF assms(1)]
      principal_api.grant_key_decode_long [OF assms(1)] by (simp add: not_less)
qed

text \<open>C17 at a traversal privilege of a concrete principal, against the PUBLIC subject.\<close>

theorem grant_key_faithful_witness:
  "(let pr = PrivGraph \<lparr>gp_graph = 3, gp_operation = Traverse (Some Incoming), gp_resource = EdgeLabel 5\<rparr> in
    grant_key principal29_ops pr (SubjPrincipal p1) \<noteq> grant_key principal29_ops pr Public
    \<and> grant_key_decode principal29_ops (grant_key principal29_ops pr (SubjPrincipal p1))
        = Some (pr, SubjPrincipal p1))"
  using grant_key_faithful [OF p29.principal_api_axioms,
      of "PrivGraph \<lparr>gp_graph = 3, gp_operation = Traverse (Some Incoming), gp_resource = EdgeLabel 5\<rparr>"
        "SubjPrincipal p1" _ Public]
  by simp

text \<open>
  C20. Stored grant rows survive storage: every row the encoder accepts (at most eight conjuncts, a
  chain of one or two hops with one to eight terminal conjuncts, string literals of at most 15
  bytes, a justification of at most 512 bytes, never a predicate together with evidence) is
  decoded back to exactly the same row.
\<close>

theorem grant_row_storage:
  assumes "principal_api P" "grant_row_to_bytes P row = Some bs" "grant_row_wf row"
  shows "grant_row_from_bytes P bs = Some row"
  by (rule principal_api.grant_row_round_trip [OF assms])

text \<open>C20 at a time-boxed row with a caller comparison and a two-hop chain.\<close>

theorem grant_row_storage_witness:
  "(let row = \<lparr>expires_at_ns = Some 1700000000,
      predicate = Some \<lparr>pred_label = 4,
        conjuncts = [\<lparr>cmp_property = 1, cmp_op = OpEq, cmp_value = MsgCaller\<rparr>,
          \<lparr>cmp_property = 2, cmp_op = OpGe, cmp_value = Literal (LitString [104, 105])\<rparr>],
        chain = Some \<lparr>hops = [\<lparr>edge_label = 7, hop_dir = HopBoth, dest_label = 8\<rparr>,
            \<lparr>edge_label = 9, hop_dir = HopIncoming, dest_label = 10\<rparr>],
          terminal_conjuncts = [\<lparr>cmp_property = 3, cmp_op = OpLt, cmp_value = Literal (LitInt 5)\<rparr>]\<rparr>\<rparr>,
      evidence = None\<rparr> in
    \<exists>bs. grant_row_to_bytes principal29_ops row = Some bs \<and> length bs = 89
      \<and> grant_row_from_bytes principal29_ops bs = Some row)"
proof -
  define row :: "principal29 grant_row" where "row = \<lparr>expires_at_ns = Some 1700000000,
      predicate = Some \<lparr>pred_label = 4,
        conjuncts = [\<lparr>cmp_property = 1, cmp_op = OpEq, cmp_value = MsgCaller\<rparr>,
          \<lparr>cmp_property = 2, cmp_op = OpGe, cmp_value = Literal (LitString [104, 105])\<rparr>],
        chain = Some \<lparr>hops = [\<lparr>edge_label = 7, hop_dir = HopBoth, dest_label = 8\<rparr>,
            \<lparr>edge_label = 9, hop_dir = HopIncoming, dest_label = 10\<rparr>],
          terminal_conjuncts = [\<lparr>cmp_property = 3, cmp_op = OpLt, cmp_value = Literal (LitInt 5)\<rparr>]\<rparr>\<rparr>,
      evidence = None\<rparr>"
  have "\<exists>bs. grant_row_to_bytes principal29_ops row = Some bs \<and> length bs = 89"
    by (simp add: row_def grant_row_to_bytes_def predicate_encode_def comparison_to_bytes_def
        chain_to_bytes_def prefix_bytes_def hop_to_bytes_def MAX_CHAIN_HOPS_def
        MAX_PREDICATE_CONJUNCTS_def)
  moreover have "grant_row_wf row"
    by (simp add: row_def grant_row_wf_def predicate_wf_def comparison_wf_def)
  ultimately show ?thesis
    unfolding row_def [symmetric] Let_def
    using grant_row_storage [OF p29.principal_api_axioms] by blast
qed

section \<open>Grants\<close>

text \<open>
  C15. Granting and checking. In a well-formed state, a successful grant of a privilege to a subject
  makes \<open>holds\<close> true for exactly that privilege and subject up to and including the expiry time
  (for ever without an expiry) and changes no other answer; a grant to the anonymous principal is
  refused and changes nothing; and a revocation makes the answer false at every time, again
  changing no other.
\<close>

theorem grant_then_holds:
  assumes "auth_store P B minv" "grants_inv P B minv m" "privilege_wf priv"
    and "case pred of Some p \<Rightarrow> predicate_wf p | None \<Rightarrow> True"
    and "grant P B m s priv ex pred = Some (r, m')"
  shows "(s = SubjPrincipal (anonymous P) \<longrightarrow> r = Inl AnonymousPrincipal \<and> m' = m)
    \<and> (s \<noteq> SubjPrincipal (anonymous P) \<longrightarrow> r = Inr ()
        \<and> (\<forall>priv' s' now. holds P B m' s' priv' now =
             (if priv' = priv \<and> s' = s then Some (case ex of None \<Rightarrow> True | Some e \<Rightarrow> now \<le> e)
              else holds P B m s' priv' now)))
    \<and> (\<forall>priv' s' now. holds P B (snd (revoke P B m' s priv)) s' priv' now =
             (if priv' = priv \<and> s' = s then Some False else holds P B m' s' priv' now))"
proof -
  note st = assms(1)
  note put = auth_store.put_abs [OF st assms(2,3), of "\<lparr>expires_at_ns = ex, predicate = pred, evidence = None\<rparr>" s r m']
  have wf: "grant_row_wf \<lparr>expires_at_ns = ex, predicate = pred, evidence = None\<rparr>"
    using assms(4) by (simp add: grant_row_wf_def)
  note put = put [OF wf assms(5) [unfolded grant_def]]
  note H = auth_store.holds_abs [OF st]
  have "holds P B m' s' priv' now =
      (if priv' = priv \<and> s' = s then Some (case ex of None \<Rightarrow> True | Some e \<Rightarrow> now \<le> e)
       else holds P B m s' priv' now)" if "s \<noteq> SubjPrincipal (anonymous P)" for priv' s' now
    using put(3) [OF that]
    by (simp add: H [OF put(1)] H [OF assms(2)] row_expired_def not_less split: option.splits)
  moreover have "holds P B (snd (revoke P B m' s priv)) s' priv' now =
      (if priv' = priv \<and> s' = s then Some False else holds P B m' s' priv' now)" for priv' s' now
  proof -
    have rm: "snd (revoke P B m' s priv) = remove_keys B [grant_key P priv s] m'"
      by (simp add: revoke_def remove_keys_def Let_def)
    have inj: "grant_key P priv' s' = grant_key P priv s \<longleftrightarrow> priv' = priv \<and> s' = s"
      using principal_api.grant_key_inject [OF auth_store.axioms(1) [OF st]] by blast
    note rmk = auth_store.abs_remove_keys [OF st put(1), of "[grant_key P priv s]"]
    show ?thesis
      unfolding rm H [OF rmk(1)] H [OF put(1)] rmk(2) using inj by simp
  qed
  ultimately show ?thesis using put(2,3) by blast
qed

text \<open>C15 at an EXECUTE grant to PUBLIC that expires at time 50.\<close>

theorem grant_then_holds_witness:
  "\<exists>m'. grant principal29_ops al_ops [] Public (ExecutePreparedQuery [113]) (Some 50) None = Some (Inr (), m')
    \<and> holds principal29_ops al_ops m' Public (ExecutePreparedQuery [113]) 50 = Some True
    \<and> holds principal29_ops al_ops m' Public (ExecutePreparedQuery [113]) 51 = Some False
    \<and> holds principal29_ops al_ops m' (SubjPrincipal p1) (ExecutePreparedQuery [113]) 50 = Some False"
proof -
  obtain m' where m': "grant principal29_ops al_ops [] Public (ExecutePreparedQuery [113]) (Some 50) None
      = Some (Inr (), m')"
    by (simp add: grant_def grant_put_def grant_row_to_bytes_def)
  have "holds principal29_ops al_ops [] s priv now = Some False" for s priv now
    by (simp add: holds_def)
  moreover have "privilege_wf (ExecutePreparedQuery [113])"
    by (simp add: privilege_wf_def)
  ultimately show ?thesis
    using m' grant_then_holds [OF ax.auth_store_axioms grants_inv_empty _ _ m'] by simp
qed

text \<open>
  C21. Cascade invalidation. Dropping a graph's vocabulary removes exactly the rows whose privilege
  targets that graph (its data-plane rows and its graph-scoped metadata elevations, of every
  subject): rows of other graphs, control-plane elevations and prepared-query rows keep answering
  as before, the operation never traps on a well-formed state, and afterwards no one resolves the
  graph through a grant.
\<close>

theorem revoke_all_for_graph_exact:
  assumes "auth_store P B minv" "grants_inv P B minv m"
  shows "\<exists>n m'. revoke_all_for_graph P B m graph = Some (n, m') \<and> grants_inv P B minv m'
    \<and> (\<forall>s priv now. holds P B m' s priv now =
         (if targets_graph graph priv then Some False else holds P B m s priv now))
    \<and> (\<forall>s now. holds_any_graph_grant P B m' s graph now = Some False)"
proof -
  obtain n m' where m': "revoke_all_for_graph P B m graph = Some (n, m')" "grants_inv P B minv m'"
      "\<forall>priv s. grant_abs P B m' priv s = (if targets_graph graph priv then None else grant_abs P B m priv s)"
    using auth_store.revoke_all_abs [OF assms] by blast
  moreover have "holds P B m' s priv now = (if targets_graph graph priv then Some False else holds P B m s priv now)"
    for s priv now
    using m'(3) by (simp add: auth_store.holds_abs [OF assms(1) m'(2)] auth_store.holds_abs [OF assms])
  moreover have "holds_any_graph_grant P B m' s graph now = Some False" for s now
    using m'(3) by (auto simp: auth_store.holds_any_graph_grant_abs [OF assms(1) m'(2)])
  ultimately show ?thesis by blast
qed

text \<open>C21 on a store with rows for graphs 3 and 4: only the row of graph 4 still holds.\<close>

theorem revoke_all_for_graph_exact_witness:
  "\<exists>m n m'. holds principal29_ops al_ops m Public (match_priv 3 5) 0 = Some True
    \<and> revoke_all_for_graph principal29_ops al_ops m 3 = Some (n, m')
    \<and> holds principal29_ops al_ops m' Public (match_priv 3 5) 0 = Some False
    \<and> holds principal29_ops al_ops m' Public (match_priv 4 6) 0 = Some True"
proof -
  obtain m where m: "grants_inv principal29_ops al_ops al_inv m"
      "holds principal29_ops al_ops m Public (match_priv 3 5) 0 = Some True"
      "holds principal29_ops al_ops m Public (match_priv 4 6) 0 = Some True"
    by (rule two_graph_store) blast
  obtain n m' where m': "revoke_all_for_graph principal29_ops al_ops m 3 = Some (n, m')"
      "\<forall>s priv now. holds principal29_ops al_ops m' s priv now =
         (if targets_graph 3 priv then Some False else holds principal29_ops al_ops m s priv now)"
    using revoke_all_for_graph_exact [OF ax.auth_store_axioms m(1)] by blast
  from m'(2) m have "holds principal29_ops al_ops m' Public (match_priv 3 5) 0 = Some False"
      "holds principal29_ops al_ops m' Public (match_priv 4 6) 0 = Some True"
    by (simp_all add: match_priv_def)
  with m m' show ?thesis by blast
qed



text \<open>
  C22. Label visibility. The set of vertex labels a subject may match on a graph is exactly the set
  of labels with an unexpired \<open>MATCH\<close> row for that subject and graph, the wildcard flag is set
  exactly by the unexpired wildcard row, and the unconstrained-scan check agrees with it: it answers
  true exactly when the set is nonempty or the wildcard is present.
\<close>

theorem vertex_label_visibility:
  assumes "auth_store P B minv" "grants_inv P B minv m"
  shows "\<exists>labels wildcard. collect_vertex_label_match_set P B m s graph now = Some (labels, wildcard)
    \<and> (\<forall>l. l \<in> labels \<longleftrightarrow> holds P B m s (PrivGraph \<lparr>gp_graph = graph, gp_operation = Match,
          gp_resource = VertexLabel l\<rparr>) now = Some True)
    \<and> (wildcard \<longleftrightarrow> holds P B m s (PrivGraph \<lparr>gp_graph = graph, gp_operation = Match,
          gp_resource = AllVertexLabels\<rparr>) now = Some True)
    \<and> holds_any_vertex_label_match P B m s graph now = Some (labels \<noteq> {} \<or> wildcard)"
proof -
  have opt: "(\<exists>r. Q r) \<longleftrightarrow> (\<exists>l. Q (Some l)) \<or> Q None" for Q :: "u32 option \<Rightarrow> bool"
    by (metis not_None_eq)
  show ?thesis
    unfolding auth_store.collect_abs [OF assms] auth_store.holds_abs [OF assms]
      auth_store.holds_any_vertex_label_match_abs [OF assms] opt
    by (auto split: option.splits)
qed

text \<open>C22 on the two-graph store, for graph 3.\<close>

theorem vertex_label_visibility_witness:
  "\<exists>m labels wildcard. collect_vertex_label_match_set principal29_ops al_ops m Public 3 0 = Some (labels, wildcard)
    \<and> 5 \<in> labels \<and> holds_any_vertex_label_match principal29_ops al_ops m Public 3 0 = Some True"
proof -
  obtain m where m: "grants_inv principal29_ops al_ops al_inv m"
      "\<And>now. holds principal29_ops al_ops m Public (match_priv 3 5) now = Some True"
    by (rule two_graph_store) blast
  from vertex_label_visibility [OF ax.auth_store_axioms m(1), of Public 3 0] m(2) show ?thesis
    by (fastforce simp: match_priv_def)
qed



section \<open>Administrative capabilities\<close>

text \<open>
  C23. Bootstrap of the administrators is all or nothing: if the issuing principal or an initial
  administrator is the anonymous principal, the state is untouched and the error is reported;
  otherwise exactly the issuing principal and the listed administrators hold the full capability
  set, and the capabilities of everyone else are what they were.
\<close>

theorem bootstrap_principals_exact:
  assumes "auth_store P B minv" "minv m" "bootstrap_principals P B m issuing admins = (r, m')"
  shows "if anonymous P \<in> set (issuing # admins) then r = Inl AnonymousPrincipal \<and> m' = m
    else r = Inr () \<and> (\<forall>p. caps_of P B m' p =
      (if p \<in> set (issuing # admins) then Some all_caps else caps_of P B m p))"
proof (cases "anonymous P \<in> set (issuing # admins)")
  case True
  with assms(3) show ?thesis
    by (auto simp: bootstrap_principals_def validate_bootstrap_principals_def list_ex_iff)
next
  case False
  then have v: "validate_bootstrap_principals P issuing admins = Inr ()"
    by (auto simp: validate_bootstrap_principals_def list_ex_iff)
  let ?m1 = "bt_insert B m (as_slice P issuing) (caps_record_to_bytes all_caps)"
  have m1: "upsert_caps P B m issuing all_caps = (Inr (), ?m1)" "minv ?m1"
    using False assms(1,2) by (auto simp: upsert_caps_def stable_btree.insert_inv [OF auth_store.axioms(2)])
  have loop: "bootstrap_loop P B ?m1 issuing admins = (r, m')"
    using assms(3) v m1(1) by (simp add: bootstrap_principals_def)
  have "anonymous P \<notin> set admins" "anonymous P \<noteq> issuing" using False by auto
  with auth_store.bootstrap_loop_caps [OF assms(1) m1(2) loop]
    auth_store.upsert_caps_of [OF assms(1,2) m1(1)] False
  show ?thesis by auto
qed

text \<open>C23 with one administrator besides the issuer, on the empty store.\<close>

theorem bootstrap_principals_exact_witness:
  "\<exists>m'. bootstrap_principals principal29_ops al_ops [] p1 [p2] = (Inr (), m')
    \<and> caps_of principal29_ops al_ops m' p2 = Some all_caps
    \<and> caps_of principal29_ops al_ops m' (Principal29 [8]) = Some 0"
proof -
  obtain r m' where m': "bootstrap_principals principal29_ops al_ops [] p1 [p2] = (r, m')"
    by (cases "bootstrap_principals principal29_ops al_ops [] p1 [p2]")
  have "caps_of principal29_ops al_ops [] (Principal29 [8]) = Some 0"
    by (simp add: caps_of_def get_record_def)
  then show ?thesis
    using bootstrap_principals_exact [OF ax.auth_store_axioms _ m'] m' by simp
qed

end
