(* ===== verification/Posting_Reader.thy ===== *)
theory Posting_Reader
  imports Prelude
begin

text \<open>
  The reader contract of the text-postings crate (\<open>crates/ic-stable-text-postings/src/enc/mod.rs\<close>):
  the trait \<open>PostingReader\<close> as a record of operations, its documented behaviour as the locale
  \<open>posting_reader\<close>, and the unencoded reader \<open>PlainReader\<close> as its first provider. Docids are \<open>u32\<close>
  values, here naturals below \<open>2 ^ 32\<close>. A reader method takes \<open>&mut self\<close>, so it returns the new
  reader; a panic on corrupt data is \<open>None\<close>.

  The contract relates a reader to the list of its postings (docid, term frequency) and to the
  absolute index of the next unconsumed posting.
\<close>

section \<open>The trait\<close>

record 'r reader_ops =
  rd_len :: "'r \<Rightarrow> nat"
  rd_pos :: "'r \<Rightarrow> nat"
  rd_peek :: "'r \<Rightarrow> (nat option \<times> 'r) option"
  rd_next :: "'r \<Rightarrow> (nat option \<times> 'r) option"
  rd_advance :: "'r \<Rightarrow> nat \<Rightarrow> (nat option \<times> 'r) option"
  rd_tf :: "'r \<Rightarrow> (nat option \<times> 'r) option"
  rd_next_step :: "'r \<Rightarrow> ((nat \<times> nat) option \<times> 'r) option"

text \<open>The default methods of the trait, for a codec without stored frequencies.\<close>

definition default_tf :: "('r \<Rightarrow> (nat option \<times> 'r) option) \<Rightarrow> 'r \<Rightarrow> (nat option \<times> 'r) option" where
  "default_tf peek r = do { (v, r') \<leftarrow> peek r; Some (map_option (\<lambda>_. 1) v, r') }"

definition default_next_step ::
  "('r \<Rightarrow> (nat option \<times> 'r) option) \<Rightarrow> ('r \<Rightarrow> (nat option \<times> 'r) option)
   \<Rightarrow> 'r \<Rightarrow> ((nat \<times> nat) option \<times> 'r) option" where
  "default_next_step next_op tf_op r = do {
     (v, r') \<leftarrow> next_op r;
     case v of
       None \<Rightarrow> Some (None, r')
     | Some docid \<Rightarrow> do {
         (t, r'') \<leftarrow> tf_op r';
         Some (Some (docid, case t of Some n \<Rightarrow> n | None \<Rightarrow> 1), r'') } }"

section \<open>The contract\<close>

type_synonym postings = "(nat \<times> nat) list"

definition peeked :: "postings \<Rightarrow> nat \<Rightarrow> nat option" where
  "peeked ps p = (if p < length ps then Some (fst (ps ! p)) else None)"

text \<open>The index of the first posting at or after \<open>p\<close> whose docid is at least \<open>t\<close>.\<close>

definition adv :: "postings \<Rightarrow> nat \<Rightarrow> nat \<Rightarrow> nat" where
  "adv ps p t = p + length (takeWhile (\<lambda>x. fst x < t) (drop p ps))"

locale posting_reader =
  fixes R :: "'r reader_ops" and repr :: "'r \<Rightarrow> postings \<Rightarrow> nat \<Rightarrow> bool"
  assumes repr_sorted: "repr r ps p \<Longrightarrow> sorted_wrt (<) (map fst ps)"
    and repr_le: "repr r ps p \<Longrightarrow> p \<le> length ps"
    and repr_docid: "repr r ps p \<Longrightarrow> x \<in> set ps \<Longrightarrow> fst x < 2 ^ 32"
    and repr_small: "repr r ps p \<Longrightarrow> length ps < 2 ^ 32"
    and len_law: "repr r ps p \<Longrightarrow> rd_len R r = length ps"
    and pos_law: "repr r ps p \<Longrightarrow> rd_pos R r = p"
    and peek_law: "repr r ps p \<Longrightarrow> \<exists>r'. rd_peek R r = Some (peeked ps p, r') \<and> repr r' ps p"
    and next_law: "repr r ps p \<Longrightarrow> \<exists>r'. rd_next R r = Some (peeked ps p, r')
      \<and> repr r' ps (min (Suc p) (length ps))"
    and advance_law: "repr r ps p \<Longrightarrow> \<exists>r'. rd_advance R r t = Some (peeked ps (adv ps p t), r')
      \<and> repr r' ps (adv ps p t)"
    and tf_law: "repr r ps p \<Longrightarrow> \<exists>r'. rd_tf R r =
      Some (if p < length ps then Some (snd (ps ! p)) else None, r') \<and> repr r' ps p"
    and next_step_law: "repr r ps p \<Longrightarrow> \<exists>r'. rd_next_step R r =
      Some (if p < length ps then Some (ps ! p) else None, r') \<and> repr r' ps (min (Suc p) (length ps))"

text \<open>
  A codec without stored frequencies keeps the default methods, and their behaviour follows from that
  of the others.
\<close>

locale docid_reader =
  fixes R :: "'r reader_ops" and repr :: "'r \<Rightarrow> postings \<Rightarrow> nat \<Rightarrow> bool"
  assumes tf_default: "rd_tf R = default_tf (rd_peek R)"
    and next_step_default: "rd_next_step R = default_next_step (rd_next R) (rd_tf R)"
    and repr_sorted: "repr r ps p \<Longrightarrow> sorted_wrt (<) (map fst ps)"
    and repr_le: "repr r ps p \<Longrightarrow> p \<le> length ps"
    and repr_docid: "repr r ps p \<Longrightarrow> x \<in> set ps \<Longrightarrow> fst x < 2 ^ 32 \<and> snd x = 1"
    and repr_small: "repr r ps p \<Longrightarrow> length ps < 2 ^ 32"
    and len_law: "repr r ps p \<Longrightarrow> rd_len R r = length ps"
    and pos_law: "repr r ps p \<Longrightarrow> rd_pos R r = p"
    and peek_law: "repr r ps p \<Longrightarrow> \<exists>r'. rd_peek R r = Some (peeked ps p, r') \<and> repr r' ps p"
    and next_law: "repr r ps p \<Longrightarrow> \<exists>r'. rd_next R r = Some (peeked ps p, r')
      \<and> repr r' ps (min (Suc p) (length ps))"
    and advance_law: "repr r ps p \<Longrightarrow> \<exists>r'. rd_advance R r t = Some (peeked ps (adv ps p t), r')
      \<and> repr r' ps (adv ps p t)"

sublocale docid_reader \<subseteq> rd: posting_reader R repr
proof
  fix r ps p assume r: "repr r ps p"
  have one: "i < length ps \<Longrightarrow> snd (ps ! i) = 1" for i using repr_docid [OF r] by simp
  have tf: "\<exists>r'. rd_tf R s = Some (if q < length ps then Some (snd (ps ! q)) else None, r') \<and> repr r' ps q"
    if "repr s ps q" for s q
    using peek_law [OF that] one by (auto simp: tf_default default_tf_def peeked_def)
  from tf [OF r] show "\<exists>r'. rd_tf R r = Some (if p < length ps then Some (snd (ps ! p)) else None, r') \<and> repr r' ps p" .
  obtain r' where r': "rd_next R r = Some (peeked ps p, r')" "repr r' ps (min (Suc p) (length ps))"
    using next_law [OF r] by blast
  obtain r'' where r'': "rd_tf R r' = Some (if min (Suc p) (length ps) < length ps then Some (snd (ps ! min (Suc p) (length ps))) else None, r'')"
    "repr r'' ps (min (Suc p) (length ps))"
    using tf [OF r'(2)] by blast
  show "\<exists>r'. rd_next_step R r = Some (if p < length ps then Some (ps ! p) else None, r')
      \<and> repr r' ps (min (Suc p) (length ps))"
    using r' r'' one [of p] one [of "Suc p"]
    by (cases "p < length ps") (auto simp: next_step_default default_next_step_def peeked_def prod_eq_iff min_def)
qed (use repr_sorted repr_le repr_docid repr_small len_law pos_law peek_law next_law advance_law in \<open>auto\<close>)

section \<open>Call sequences\<close>

text \<open>What a client sees of a reader: the results of a sequence of calls.\<close>

datatype reader_call = CallPeek | CallNext | CallAdvance nat | CallTf | CallNextStep

datatype call_result = Docid "nat option" | Step "(nat \<times> nat) option"

fun run_call :: "'r reader_ops \<Rightarrow> 'r \<Rightarrow> reader_call \<Rightarrow> (call_result \<times> 'r) option" where
  "run_call R r CallPeek = map_option (map_prod Docid id) (rd_peek R r)"
| "run_call R r CallNext = map_option (map_prod Docid id) (rd_next R r)"
| "run_call R r (CallAdvance t) = map_option (map_prod Docid id) (rd_advance R r t)"
| "run_call R r CallTf = map_option (map_prod Docid id) (rd_tf R r)"
| "run_call R r CallNextStep = map_option (map_prod Step id) (rd_next_step R r)"

fun run_calls :: "'r reader_ops \<Rightarrow> 'r \<Rightarrow> reader_call list \<Rightarrow> call_result list option" where
  "run_calls R r [] = Some []"
| "run_calls R r (c # cs) = do {
     (x, r') \<leftarrow> run_call R r c;
     xs \<leftarrow> run_calls R r' cs;
     Some (x # xs) }"

text \<open>The same calls on the list of postings.\<close>

fun spec_call :: "postings \<Rightarrow> nat \<Rightarrow> reader_call \<Rightarrow> call_result \<times> nat" where
  "spec_call ps p CallPeek = (Docid (peeked ps p), p)"
| "spec_call ps p CallNext = (Docid (peeked ps p), min (Suc p) (length ps))"
| "spec_call ps p (CallAdvance t) = (Docid (peeked ps (adv ps p t)), adv ps p t)"
| "spec_call ps p CallTf = (Docid (if p < length ps then Some (snd (ps ! p)) else None), p)"
| "spec_call ps p CallNextStep = (Step (if p < length ps then Some (ps ! p) else None), min (Suc p) (length ps))"

fun spec_calls :: "postings \<Rightarrow> nat \<Rightarrow> reader_call list \<Rightarrow> call_result list" where
  "spec_calls ps p [] = []"
| "spec_calls ps p (c # cs) = fst (spec_call ps p c) # spec_calls ps (snd (spec_call ps p c)) cs"

context posting_reader
begin

lemma run_call_spec:
  assumes "repr r ps p"
  shows "\<exists>r'. run_call R r c = Some (fst (spec_call ps p c), r') \<and> repr r' ps (snd (spec_call ps p c))"
proof (cases c)
  case CallPeek
  then show ?thesis using peek_law [OF assms] by auto
next
  case CallNext
  then show ?thesis using next_law [OF assms] by auto
next
  case (CallAdvance t)
  then show ?thesis using advance_law [OF assms, of t] by auto
next
  case CallTf
  then show ?thesis using tf_law [OF assms] by auto
next
  case CallNextStep
  then show ?thesis using next_step_law [OF assms] by auto
qed

lemma run_calls_spec: "repr r ps p \<Longrightarrow> run_calls R r cs = Some (spec_calls ps p cs)"
proof (induction cs arbitrary: r p)
  case (Cons c cs)
  from run_call_spec [OF Cons.prems, of c] Cons.IH show ?case by auto
qed simp

text \<open>The laws seen through a constructor that wraps the reader.\<close>

definition reader_laws :: "('r \<Rightarrow> 'w) \<Rightarrow> 'r \<Rightarrow> postings \<Rightarrow> nat \<Rightarrow> bool" where
  "reader_laws W r ps p \<longleftrightarrow>
    sorted_wrt (<) (map fst ps) \<and> p \<le> length ps \<and> (\<forall>x\<in>set ps. fst x < 2 ^ 32) \<and> length ps < 2 ^ 32
    \<and> rd_len R r = length ps \<and> rd_pos R r = p
    \<and> (\<exists>r'. map_option (map_prod id W) (rd_peek R r) = Some (peeked ps p, W r') \<and> repr r' ps p)
    \<and> (\<exists>r'. map_option (map_prod id W) (rd_next R r) = Some (peeked ps p, W r') \<and> repr r' ps (min (Suc p) (length ps)))
    \<and> (\<forall>t. \<exists>r'. map_option (map_prod id W) (rd_advance R r t) = Some (peeked ps (adv ps p t), W r')
          \<and> repr r' ps (adv ps p t))
    \<and> (\<exists>r'. map_option (map_prod id W) (rd_tf R r)
          = Some (if p < length ps then Some (snd (ps ! p)) else None, W r') \<and> repr r' ps p)
    \<and> (\<exists>r'. map_option (map_prod id W) (rd_next_step R r)
          = Some (if p < length ps then Some (ps ! p) else None, W r') \<and> repr r' ps (min (Suc p) (length ps)))"

lemma wrapped_laws:
  assumes "repr r ps p"
  shows "reader_laws W r ps p"
proof -
  have "\<exists>r'. map_option (map_prod id W) (rd_advance R r t) = Some (peeked ps (adv ps p t), W r') \<and> repr r' ps (adv ps p t)" for t
    using advance_law [OF assms, of t] by auto
  moreover have "\<exists>r'. map_option (map_prod id W) (rd_peek R r) = Some (peeked ps p, W r') \<and> repr r' ps p"
    using peek_law [OF assms] by auto
  moreover have "\<exists>r'. map_option (map_prod id W) (rd_next R r) = Some (peeked ps p, W r') \<and> repr r' ps (min (Suc p) (length ps))"
    using next_law [OF assms] by auto
  moreover have "\<exists>r'. map_option (map_prod id W) (rd_tf R r)
      = Some (if p < length ps then Some (snd (ps ! p)) else None, W r') \<and> repr r' ps p"
    using tf_law [OF assms] by auto
  moreover have "\<exists>r'. map_option (map_prod id W) (rd_next_step R r)
      = Some (if p < length ps then Some (ps ! p) else None, W r') \<and> repr r' ps (min (Suc p) (length ps))"
    using next_step_law [OF assms] by auto
  ultimately show ?thesis
    using repr_sorted [OF assms] repr_le [OF assms] repr_docid [OF assms] repr_small [OF assms]
      len_law [OF assms] pos_law [OF assms]
    unfolding reader_laws_def by blast
qed

end

text \<open>Facts on positions every provider and client uses.\<close>

lemma adv_step: "p < length ps \<Longrightarrow> fst (ps ! p) < t \<Longrightarrow> adv ps p t = adv ps (Suc p) t"
  by (simp add: adv_def Cons_nth_drop_Suc [symmetric])

lemma adv_stop: "p < length ps \<Longrightarrow> t \<le> fst (ps ! p) \<Longrightarrow> adv ps p t = p"
  by (simp add: adv_def Cons_nth_drop_Suc [symmetric])

lemma adv_end: "length ps \<le> p \<Longrightarrow> adv ps p t = p"
  by (simp add: adv_def)

lemma adv_le: "p \<le> length ps \<Longrightarrow> adv ps p t \<le> length ps"
  using length_takeWhile_le [of "\<lambda>x. fst x < t" "drop p ps"] by (simp add: adv_def)

lemma adv_ge: "p \<le> adv ps p t"
  by (simp add: adv_def)

lemma adv_skip:
  assumes "p \<le> q" "q \<le> length ps" "\<And>i. p \<le> i \<Longrightarrow> i < q \<Longrightarrow> fst (ps ! i) < t"
  shows "adv ps p t = adv ps q t"
  using assms
proof (induction "q - p" arbitrary: p)
  case 0
  then show ?case by simp
next
  case (Suc n)
  then have "p < length ps" "fst (ps ! p) < t" by auto
  then have "adv ps p t = adv ps (Suc p) t" by (rule adv_step)
  also have "\<dots> = adv ps q t" using Suc by (intro Suc.hyps(1)) auto
  finally show ?case .
qed

lemma set_drop_adv:
  assumes "sorted_wrt (<) (map fst ps)"
  shows "fst ` set (drop (adv ps p t) ps) = {d \<in> fst ` set (drop p ps). t \<le> d}"
proof -
  let ?xs = "drop p ps"
  have s: "sorted_wrt (\<lambda>x y. fst x < fst y) ?xs"
    using assms by (simp add: sorted_wrt_map sorted_wrt_drop)
  have "drop (adv ps p t) ps = dropWhile (\<lambda>x. fst x < t) ?xs"
    by (simp add: adv_def dropWhile_eq_drop add.commute)
  moreover have "fst ` set (dropWhile (\<lambda>x. fst x < t) xs) = {d \<in> fst ` set xs. t \<le> d}"
    if "sorted_wrt (\<lambda>x y. fst x < fst y) xs" for xs :: postings
    using that
  proof (induction xs)
    case (Cons x xs)
    then have le: "\<And>y. y \<in> set xs \<Longrightarrow> fst x < fst y" by simp
    show ?case
    proof (cases "fst x < t")
      case True
      with Cons show ?thesis by auto
    next
      case False
      have "t \<le> fst y" if "y \<in> set (x # xs)" for y
        using that False by (auto dest: le)
      with False show ?thesis by auto
    qed
  qed simp
  ultimately show ?thesis using s by simp
qed

section \<open>PlainReader\<close>

record plain_reader =
  pr_docs :: "nat list"
  pr_pos :: nat

definition plain_new :: "nat list \<Rightarrow> plain_reader" where
  "plain_new docs = \<lparr>pr_docs = docs, pr_pos = 0\<rparr>"

definition plain_len :: "plain_reader \<Rightarrow> nat" where
  "plain_len r = length (pr_docs r) mod 2 ^ 32"

definition plain_peek :: "plain_reader \<Rightarrow> (nat option \<times> plain_reader) option" where
  "plain_peek r = Some (get (pr_docs r) (pr_pos r), r)"

definition plain_next :: "plain_reader \<Rightarrow> (nat option \<times> plain_reader) option" where
  "plain_next r = do {
     (v, r') \<leftarrow> plain_peek r;
     Some (v, if v \<noteq> None then r'\<lparr>pr_pos := pr_pos r' + 1\<rparr> else r') }"

function plain_advance :: "plain_reader \<Rightarrow> nat \<Rightarrow> (nat option \<times> plain_reader) option" where
  "plain_advance r target =
     (case get (pr_docs r) (pr_pos r) of
        None \<Rightarrow> Some (None, r)
      | Some v \<Rightarrow>
          (if target \<le> v then Some (Some v, r)
           else plain_advance (r\<lparr>pr_pos := pr_pos r + 1\<rparr>) target))"
  by pat_completeness auto
termination
  by (relation "measure (\<lambda>(r, _). length (pr_docs r) - pr_pos r)")
    (auto simp: index_def split: if_splits)

declare plain_advance.simps [simp del]

definition plain_ops :: "plain_reader reader_ops" where
  "plain_ops = \<lparr>rd_len = plain_len, rd_pos = pr_pos, rd_peek = plain_peek, rd_next = plain_next,
     rd_advance = plain_advance, rd_tf = default_tf plain_peek,
     rd_next_step = default_next_step plain_next (default_tf plain_peek)\<rparr>"

definition plain_repr :: "plain_reader \<Rightarrow> postings \<Rightarrow> nat \<Rightarrow> bool" where
  "plain_repr r ps p = (ps = map (\<lambda>d. (d, 1)) (pr_docs r) \<and> pr_pos r = p \<and> p \<le> length ps
     \<and> sorted_wrt (<) (pr_docs r) \<and> (\<forall>d\<in>set (pr_docs r). d < 2 ^ 32) \<and> length (pr_docs r) < 2 ^ 32)"

lemma plain_get: "plain_repr r ps p \<Longrightarrow> get (pr_docs r) p = peeked ps p"
  by (auto simp: plain_repr_def index_def peeked_def)

lemma plain_advance_law:
  "plain_repr r ps p \<Longrightarrow> \<exists>r'. plain_advance r t = Some (peeked ps (adv ps p t), r')
     \<and> plain_repr r' ps (adv ps p t)"
proof (induction r t arbitrary: p rule: plain_advance.induct)
  case (1 r t)
  have pos: "pr_pos r = p" using "1.prems" by (simp add: plain_repr_def)
  note g = plain_get [OF "1.prems"]
  show ?case
  proof (cases "p < length ps")
    case False
    with "1.prems" g show ?thesis
      by (subst plain_advance.simps) (simp add: pos peeked_def adv_end)
  next
    case True
    then have gv: "get (pr_docs r) (pr_pos r) = Some (fst (ps ! p))"
      using g by (simp add: pos peeked_def)
    show ?thesis
    proof (cases "t \<le> fst (ps ! p)")
      case le: True
      with True gv "1.prems" show ?thesis
        by (subst plain_advance.simps) (simp add: adv_stop peeked_def)
    next
      case False
      have r': "plain_repr (r\<lparr>pr_pos := pr_pos r + 1\<rparr>) ps (Suc p)"
        using "1.prems" True by (auto simp: plain_repr_def)
      from "1.IH" [OF gv _ r'] False gv True show ?thesis
        by (subst plain_advance.simps) (simp add: adv_step)
    qed
  qed
qed

interpretation plain: docid_reader plain_ops plain_repr
proof
  fix r ps p assume r: "plain_repr r ps p"
  show "sorted_wrt (<) (map fst ps)" "p \<le> length ps" "length ps < 2 ^ 32"
    using r by (auto simp: plain_repr_def o_def)
  show "\<And>x. x \<in> set ps \<Longrightarrow> fst x < 2 ^ 32 \<and> snd x = 1" "rd_len plain_ops r = length ps" "rd_pos plain_ops r = p"
    using r by (auto simp: plain_repr_def plain_ops_def plain_len_def)
  have peek: "plain_peek r = Some (peeked ps p, r)"
    using plain_get [OF r] r by (simp add: plain_peek_def plain_repr_def)
  then show "\<exists>r'. rd_peek plain_ops r = Some (peeked ps p, r') \<and> plain_repr r' ps p"
    using r by (simp add: plain_ops_def)
  let ?r = "if p < length ps then r\<lparr>pr_pos := pr_pos r + 1\<rparr> else r"
  have "plain_next r = Some (peeked ps p, ?r)" "plain_repr ?r ps (min (Suc p) (length ps))"
    using peek r by (auto simp: plain_next_def peeked_def plain_repr_def)
  then show "\<exists>r'. rd_next plain_ops r = Some (peeked ps p, r') \<and> plain_repr r' ps (min (Suc p) (length ps))"
    by (simp add: plain_ops_def)
  show "\<exists>r'. rd_advance plain_ops r t = Some (peeked ps (adv ps p t), r') \<and> plain_repr r' ps (adv ps p t)" for t
    using plain_advance_law [OF r] by (simp add: plain_ops_def)
qed (simp_all add: plain_ops_def)

end
