(* ===== verification/Skip_Index.thy ===== *)
theory Skip_Index
  imports Prelude
begin

text \<open>
  The bi-level skip trailer shared by the delta-varint posting codecs
  (\<open>crates/ic-stable-text-postings/src/enc/skip.rs\<close>) and the LEB128 primitives of
  \<open>enc/varint.rs\<close>. \<open>u32\<close> values are naturals below \<open>2 ^ 32\<close>; a \<open>corrupt postings\<close> panic is \<open>None\<close>.
  The bits that \<open>decode_delta\<close> ORs into its result are disjoint from those already there, so OR is
  addition.
\<close>

section \<open>LEB128\<close>

fun write_u32 :: "nat \<Rightarrow> bytes" where
  "write_u32 v = (if v div 128 = 0 then [word_of_nat (v mod 128)]
     else word_of_nat (v mod 128 + 128) # write_u32 (v div 128))"

declare write_u32.simps [simp del]

function decode_delta :: "bytes \<Rightarrow> nat \<Rightarrow> nat \<Rightarrow> nat \<Rightarrow> nat \<Rightarrow> (nat \<times> nat) option" where
  "decode_delta data payload_end byte_pos result shift =
     (if payload_end \<le> byte_pos then None
      else case get data byte_pos of
        None \<Rightarrow> None
      | Some byte \<Rightarrow>
          (if shift = 28 \<and> 0x0F < byte then None
           else let r = (result + (unat byte mod 128) * 2 ^ shift) mod 2 ^ 32 in
             if unat byte < 128 then Some (r, byte_pos + 1)
             else if 32 \<le> shift + 7 then None
             else decode_delta data payload_end (byte_pos + 1) r (shift + 7)))"
  by pat_completeness auto
termination
  by (relation "measure (\<lambda>(_, _, _, _, shift). 32 - shift)") auto

declare decode_delta.simps [simp del]

definition assert_strictly_increasing :: "nat list \<Rightarrow> bool" where
  "assert_strictly_increasing docs =
     (docs \<noteq> [] \<and> (\<forall>i < length docs - 1. docs ! i < docs ! (i + 1)))"

section \<open>The trailer\<close>

definition SKIP_BLOCK_POSTINGS :: nat where "SKIP_BLOCK_POSTINGS = 128"
definition SKIP_LEVEL1_STRIDE :: nat where "SKIP_LEVEL1_STRIDE = 32"
definition PLAIN_ENTRY_BYTES :: nat where "PLAIN_ENTRY_BYTES = 8"
definition FREQ_ENTRY_BYTES :: nat where "FREQ_ENTRY_BYTES = 12"

definition read_u32_le :: "bytes \<Rightarrow> nat \<Rightarrow> nat option" where
  "read_u32_le data at = map_option from_le (subslice data at (at + 4))"

definition write_entry :: "nat \<Rightarrow> nat \<Rightarrow> nat option \<Rightarrow> bytes" where
  "write_entry end_docid offset count = to_le 4 end_docid @ to_le 4 offset
     @ (case count of Some c \<Rightarrow> to_le 4 c | None \<Rightarrow> [])"

record skip_builder =
  sb_blocks :: "(nat \<times> nat \<times> nat) list"
  open_offset :: "nat option"
  open_count :: nat
  prev_docid :: nat

definition skip_new :: skip_builder where
  "skip_new = \<lparr>sb_blocks = [], open_offset = None, open_count = 0, prev_docid = 0\<rparr>"

definition close_block :: "skip_builder \<Rightarrow> skip_builder" where
  "close_block b = (case open_offset b of
     Some offset \<Rightarrow> b\<lparr>sb_blocks := sb_blocks b @ [(prev_docid b, offset mod 2 ^ 32, open_count b)],
       open_offset := None, open_count := 0\<rparr>
   | None \<Rightarrow> b)"

definition skip_posting :: "nat \<Rightarrow> nat \<Rightarrow> nat \<Rightarrow> skip_builder \<Rightarrow> skip_builder" where
  "skip_posting pos offset docid b =
     (let b1 = (if pos mod SKIP_BLOCK_POSTINGS = 0 then (close_block b)\<lparr>open_offset := Some offset\<rparr> else b)
      in b1\<lparr>open_count := open_count b1 + 1, prev_docid := docid\<rparr>)"

text \<open>The level-1 entry of the stride that starts at block \<open>s\<close>.\<close>

definition stride_entry :: "bool \<Rightarrow> (nat \<times> nat \<times> nat) list \<Rightarrow> nat \<Rightarrow> bytes" where
  "stride_entry freq_mode blocks s =
     (let stride_end = min (s + SKIP_LEVEL1_STRIDE) (length blocks);
          summed = sum_list (map (\<lambda>(_, _, c). c) (take (stride_end - s) (drop s blocks)))
      in write_entry (fst (blocks ! (stride_end - 1))) (fst (snd (blocks ! s)))
           (if freq_mode then Some summed else None))"

definition skip_finish :: "bool \<Rightarrow> skip_builder \<Rightarrow> bytes" where
  "skip_finish freq_mode b0 =
     (let blocks = sb_blocks (close_block b0) in
      concat (map (\<lambda>(end_docid, offset, count).
          write_entry end_docid offset (if freq_mode then Some count else None)) blocks)
      @ concat (map (\<lambda>i. stride_entry freq_mode blocks (i * SKIP_LEVEL1_STRIDE))
          [0..<div_ceil (length blocks) SKIP_LEVEL1_STRIDE])
      @ to_le 4 (length blocks))"

record skip_index =
  level0_offset :: nat
  skip_count :: nat
  stride_count :: nat
  entry_bytes :: nat
  with_counts :: bool

definition skip_parse :: "bytes \<Rightarrow> nat \<Rightarrow> nat \<Rightarrow> bool \<Rightarrow> (skip_index \<times> nat) option" where
  "skip_parse data count entry_width counts = do {
     let total = length data;
     guard (4 + 4 + entry_width \<le> total);
     raw \<leftarrow> read_u32_le data (total - 4);
     guard (raw \<le> div_ceil count SKIP_BLOCK_POSTINGS);
     let strides = div_ceil raw SKIP_LEVEL1_STRIDE;
     payload_end \<leftarrow> checked_sub64 total (4 + raw * entry_width + strides * entry_width);
     guard (4 \<le> payload_end);
     Some (\<lparr>level0_offset = payload_end, skip_count = raw, stride_count = strides,
            entry_bytes = entry_width, with_counts = counts\<rparr>, payload_end) }"

definition skip_entry_at :: "skip_index \<Rightarrow> bytes \<Rightarrow> nat \<Rightarrow> (nat \<times> nat \<times> nat option) option" where
  "skip_entry_at ix data base = do {
     e \<leftarrow> read_u32_le data base;
     off \<leftarrow> read_u32_le data (base + 4);
     c \<leftarrow> (if with_counts ix then map_option Some (read_u32_le data (base + 8)) else Some None);
     Some (e, off, c) }"

definition skip_block :: "skip_index \<Rightarrow> bytes \<Rightarrow> nat \<Rightarrow> (nat \<times> nat \<times> nat option) option" where
  "skip_block ix data i = skip_entry_at ix data (level0_offset ix + i * entry_bytes ix)"

definition skip_stride :: "skip_index \<Rightarrow> bytes \<Rightarrow> nat \<Rightarrow> (nat \<times> nat \<times> nat option) option" where
  "skip_stride ix data i =
     skip_entry_at ix data (level0_offset ix + skip_count ix * entry_bytes ix + i * entry_bytes ix)"

text \<open>The two binary searches: the first index in \<open>[lo, hi)\<close> whose entry is not below the target.\<close>

function lower_bound :: "(nat \<Rightarrow> bool option) \<Rightarrow> nat \<Rightarrow> nat \<Rightarrow> nat option" where
  "lower_bound below lo hi =
     (if lo < hi then do {
        b \<leftarrow> below ((lo + hi) div 2);
        if b then lower_bound below ((lo + hi) div 2 + 1) hi else lower_bound below lo ((lo + hi) div 2) }
      else Some lo)"
  by pat_completeness auto
termination
  by (relation "measure (\<lambda>(_, lo, hi). hi - lo)") auto

declare lower_bound.simps [simp del]

text \<open>The count check of freq mode reads the counts of the blocks before the landing block.\<close>

fun read_counts :: "skip_index \<Rightarrow> bytes \<Rightarrow> nat list \<Rightarrow> unit option" where
  "read_counts ix data [] = Some ()"
| "read_counts ix data (i # is) = do { _ \<leftarrow> skip_block ix data i; read_counts ix data is }"

definition jump_landing ::
  "skip_index \<Rightarrow> bytes \<Rightarrow> nat \<Rightarrow> nat \<Rightarrow> (nat \<times> nat \<times> nat) option option" where
  "jump_landing ix data target current_byte_pos =
     (if skip_count ix = 0 \<or> target = 0 then Some None
      else do {
        lo \<leftarrow> lower_bound (\<lambda>mid. map_option (\<lambda>(e, _). e < target) (skip_stride ix data mid)) 0 (stride_count ix);
        let stride_start = lo * SKIP_LEVEL1_STRIDE;
        blo \<leftarrow> lower_bound (\<lambda>mid. map_option (\<lambda>(e, _). e < target) (skip_block ix data mid))
                 stride_start (min (skip_count ix) (stride_start + SKIP_LEVEL1_STRIDE));
        if skip_count ix \<le> blo then Some None
        else do {
          (_, offset, _) \<leftarrow> skip_block ix data blo;
          if offset \<le> current_byte_pos then Some None
          else do {
            let pos_before = (blo * SKIP_BLOCK_POSTINGS) mod 2 ^ 32;
            _ \<leftarrow> (if with_counts ix
                 then read_counts ix data [blo div SKIP_LEVEL1_STRIDE * SKIP_LEVEL1_STRIDE..<blo]
                 else Some ());
            prev \<leftarrow> (if blo = 0 then Some 0 else map_option fst (skip_block ix data (blo - 1)));
            Some (Some (offset, pos_before, prev)) } } })"

section \<open>Lemmas: LEB128\<close>

lemma write_u32_nonempty [simp]: "write_u32 v \<noteq> []"
  by (subst write_u32.simps) simp

lemma shifted_sum_less:
  fixes r v s :: nat
  assumes "v * 2 ^ s < 2 ^ 32" "r < 2 ^ s" "s \<le> 32"
  shows "r + v * 2 ^ s < 2 ^ 32"
proof -
  have p: "(2::nat) ^ 32 = 2 ^ (32 - s) * 2 ^ s" using assms(3) by (simp flip: power_add)
  with assms(1) have "v < 2 ^ (32 - s)" by (metis mult_less_cancel2)
  then have "(v + 1) * 2 ^ s \<le> 2 ^ (32 - s) * 2 ^ s" by (intro mult_le_mono1) simp
  with p assms(2) show ?thesis by simp
qed

lemma unat_byte: "n < 256 \<Longrightarrow> unat (word_of_nat n :: u8) = n"
  by (simp add: unat_of_nat)

text \<open>What was written at a position is decoded there, within any payload that contains it.\<close>

lemma decode_delta_write:
  assumes "v * 2 ^ s < 2 ^ 32" "r < 2 ^ s" "s \<in> {0, 7, 14, 21, 28}"
    and "length pre + length (write_u32 v) \<le> pe"
  shows "decode_delta (pre @ write_u32 v @ post) pe (length pre) r s
    = Some (r + v * 2 ^ s, length pre + length (write_u32 v))"
  using assms
proof (induction v arbitrary: pre r s rule: write_u32.induct)
  case (1 v)
  have s32: "s \<le> 32" using "1.prems"(3) by auto
  have sum: "r + v * 2 ^ s < 2 ^ 32" using shifted_sum_less "1.prems"(1,2) s32 by blast
  have low: "(v mod 128) * 2 ^ s \<le> v * 2 ^ s" by simp
  have le: "length pre < pe" using "1.prems"(4) by (cases "write_u32 v") auto
  show ?case
  proof (cases "v div 128 = 0")
    case True
    then have v: "v < 128" "write_u32 v = [word_of_nat v]"
      by (simp_all add: write_u32.simps [of v] div_eq_0_iff)
    have "\<not> (s = 28 \<and> (0x0F :: u8) < word_of_nat v)"
      using "1.prems"(1) v(1) by (auto simp: word_less_nat_alt unat_byte)
    with v le sum show ?thesis
      by (subst decode_delta.simps) (simp add: index_append unat_byte Let_def)
  next
    case False
    then have big: "128 \<le> v" by (simp add: div_eq_0_iff)
    let ?b = "word_of_nat (v mod 128 + 128) :: u8"
    have w: "write_u32 v = ?b # write_u32 (v div 128)"
      using False by (simp add: write_u32.simps [of v])
    have b: "unat ?b = v mod 128 + 128" by (rule unat_byte) simp
    have "128 * 2 ^ s \<le> v * 2 ^ s" using big by simp
    then have s: "s \<noteq> 28" "s + 7 < 32" "s + 7 \<in> {0, 7, 14, 21, 28}"
      using "1.prems"(1,3) by auto
    let ?r = "r + (v mod 128) * 2 ^ s"
    have split: "?r + (v div 128) * 2 ^ (s + 7) = r + v * 2 ^ s"
    proof -
      have "v * 2 ^ s = (v div 128 * 128 + v mod 128) * 2 ^ s" by simp
      also have "\<dots> = (v div 128) * 2 ^ (s + 7) + (v mod 128) * 2 ^ s"
        by (simp only: add_mult_distrib power_add mult.assoc) (simp add: mult.commute)
      finally show ?thesis by linarith
    qed
    have r: "?r < 2 ^ (s + 7)"
    proof -
      have "v mod 128 \<le> 127" by (simp add: less_Suc_eq_le [symmetric])
      then have "(v mod 128) * 2 ^ s \<le> 127 * 2 ^ s" by (rule mult_le_mono1)
      then have "?r < 2 ^ s + 127 * 2 ^ s" using "1.prems"(2) by linarith
      then show ?thesis by (simp add: power_add)
    qed
    have lt: "?r < 2 ^ 32" using sum low by linarith
    have next_lt: "v div 128 * 2 ^ (s + 7) < 2 ^ 32" using split sum by linarith
    have "decode_delta ((pre @ [?b]) @ write_u32 (v div 128) @ post) pe (length (pre @ [?b])) ?r (s + 7)
        = Some (?r + (v div 128) * 2 ^ (s + 7), length (pre @ [?b]) + length (write_u32 (v div 128)))"
      using "1.prems"(4) w by (intro "1.IH" [OF False next_lt r s(3)]) simp
    moreover have "decode_delta (pre @ write_u32 v @ post) pe (length pre) r s
        = decode_delta (pre @ write_u32 v @ post) pe (length pre + 1) ?r (s + 7)"
      using le s(1,2) b lt
      by (subst decode_delta.simps) (simp add: w index_append Let_def)
    ultimately show ?thesis using split w by simp
  qed
qed

lemma decode_delta_at:
  assumes "v < 2 ^ 32" "length pre + length (write_u32 v) \<le> pe"
  shows "decode_delta (pre @ write_u32 v @ post) pe (length pre) 0 0
    = Some (v, length pre + length (write_u32 v))"
  using decode_delta_write [of v 0 0 pre pe post] assms by simp

lemma write_u32_length: "v < 2 ^ 32 \<Longrightarrow> length (write_u32 v) \<le> 5"
proof -
  have "v < 128 ^ n \<Longrightarrow> 0 < n \<Longrightarrow> length (write_u32 v) \<le> n" for v n :: nat
  proof (induction n arbitrary: v)
    case (Suc n)
    show ?case
    proof (cases "v div 128 = 0")
      case True
      then show ?thesis by (simp add: write_u32.simps [of v])
    next
      case False
      then have "n \<noteq> 0" using Suc.prems(1) by (cases n) (auto simp: div_eq_0_iff)
      moreover have "v div 128 < 128 ^ n" using Suc.prems(1) by (simp add: less_mult_imp_div_less mult.commute)
      ultimately show ?thesis using Suc.IH False by (simp add: write_u32.simps [of v])
    qed
  qed simp
  from this [of v 5] show "v < 2 ^ 32 \<Longrightarrow> length (write_u32 v) \<le> 5" by simp
qed

section \<open>Lemmas: the trailer\<close>

text \<open>Fields of equally wide records in a concatenation.\<close>

lemma read_u32_field:
  assumes "i < length xs" "\<And>x. x \<in> set xs \<Longrightarrow> length (f x) = w" "a + 4 \<le> w"
  shows "read_u32_le (pre @ concat (map f xs) @ post) (length pre + i * w + a)
    = read_u32_le (f (xs ! i)) a"
  using subslice_field [OF assms(1), of f w "a + 4" pre post a] assms(2,3)
  by (simp add: read_u32_le_def add.assoc)

lemma read_u32_append: "length pre = a \<Longrightarrow> v < 2 ^ 32 \<Longrightarrow> read_u32_le (pre @ to_le 4 v @ post) a = Some v"
  by (simp add: read_u32_le_def subslice_def from_le_to_le_id)

lemma read_u32_last: "v < 2 ^ 32 \<Longrightarrow> length pre = a \<Longrightarrow> read_u32_le (pre @ to_le 4 v) a = Some v"
  using read_u32_append [of pre a v "[]"] by simp

lemma length_write_entry:
  "length (write_entry e off c) = (case c of None \<Rightarrow> PLAIN_ENTRY_BYTES | Some _ \<Rightarrow> FREQ_ENTRY_BYTES)"
  by (cases c) (simp_all add: write_entry_def PLAIN_ENTRY_BYTES_def FREQ_ENTRY_BYTES_def)

lemma read_write_entry:
  assumes "e < 2 ^ 32" "off < 2 ^ 32" "\<And>n. c = Some n \<Longrightarrow> n < 2 ^ 32"
  shows "read_u32_le (write_entry e off c) 0 = Some e" "read_u32_le (write_entry e off c) 4 = Some off"
    and "c = Some n \<Longrightarrow> read_u32_le (write_entry e off c) 8 = Some n"
proof -
  show "read_u32_le (write_entry e off c) 0 = Some e"
    using read_u32_append [of "[]" 0 e] assms(1) by (simp add: write_entry_def)
  show "read_u32_le (write_entry e off c) 4 = Some off"
    using read_u32_append [of "to_le 4 e" 4 off] assms(2) by (simp add: write_entry_def)
  show "read_u32_le (write_entry e off c) 8 = Some n" if "c = Some n"
    using read_u32_last [of n "to_le 4 e @ to_le 4 off" 8] assms(3) that by (simp add: write_entry_def)
qed

definition entry_width :: "bool \<Rightarrow> nat" where
  "entry_width freq_mode = (if freq_mode then FREQ_ENTRY_BYTES else PLAIN_ENTRY_BYTES)"

definition entry_of :: "bool \<Rightarrow> nat \<times> nat \<times> nat \<Rightarrow> bytes" where
  "entry_of freq_mode b = write_entry (fst b) (fst (snd b)) (if freq_mode then Some (snd (snd b)) else None)"

lemma length_entry_of [simp]: "length (entry_of f b) = entry_width f"
  by (simp add: entry_of_def length_write_entry entry_width_def)

lemma length_stride_entry [simp]: "length (stride_entry f bs s) = entry_width f"
  by (simp add: stride_entry_def length_write_entry entry_width_def Let_def)

lemma entry_width_ge: "8 \<le> entry_width f" "f \<Longrightarrow> 12 \<le> entry_width f"
  by (simp_all add: entry_width_def PLAIN_ENTRY_BYTES_def FREQ_ENTRY_BYTES_def)

definition level0 :: "bool \<Rightarrow> (nat \<times> nat \<times> nat) list \<Rightarrow> bytes" where
  "level0 f bs = concat (map (entry_of f) bs)"

definition level1 :: "bool \<Rightarrow> (nat \<times> nat \<times> nat) list \<Rightarrow> bytes" where
  "level1 f bs = concat (map (\<lambda>i. stride_entry f bs (i * SKIP_LEVEL1_STRIDE))
     [0..<div_ceil (length bs) SKIP_LEVEL1_STRIDE])"

lemma skip_finish_alt:
  "skip_finish f b0 = level0 f (sb_blocks (close_block b0)) @ level1 f (sb_blocks (close_block b0))
     @ to_le 4 (length (sb_blocks (close_block b0)))"
  by (simp add: skip_finish_def level0_def level1_def Let_def entry_of_def [abs_def] case_prod_unfold)

lemma length_levels:
  "length (level0 f bs) = length bs * entry_width f"
  "length (level1 f bs) = div_ceil (length bs) SKIP_LEVEL1_STRIDE * entry_width f"
  unfolding level0_def level1_def by (subst length_concat_const [where w = "entry_width f"]; simp)+

definition skip_ix :: "bool \<Rightarrow> nat \<Rightarrow> nat \<Rightarrow> skip_index" where
  "skip_ix f payload_end n = \<lparr>level0_offset = payload_end, skip_count = n,
     stride_count = div_ceil n SKIP_LEVEL1_STRIDE, entry_bytes = entry_width f, with_counts = f\<rparr>"

lemma skip_parse_trailer:
  assumes "0 < length bs" "length bs \<le> div_ceil count SKIP_BLOCK_POSTINGS" "length bs < 2 ^ 32"
    and "4 \<le> length payload"
  shows "skip_parse (payload @ level0 f bs @ level1 f bs @ to_le 4 (length bs)) count (entry_width f) f
    = Some (skip_ix f (length payload) (length bs), length payload)"
proof -
  let ?d = "payload @ level0 f bs @ level1 f bs @ to_le 4 (length bs)"
  let ?w = "entry_width f"
  have len: "length ?d = length payload + length bs * ?w + div_ceil (length bs) SKIP_LEVEL1_STRIDE * ?w + 4"
    by (simp add: length_levels)
  have "read_u32_le ((payload @ level0 f bs @ level1 f bs) @ to_le 4 (length bs)) (length ?d - 4)
      = Some (length bs)"
    by (rule read_u32_last) (use assms(3) in simp_all)
  then have raw: "read_u32_le ?d (length ?d - 4) = Some (length bs)" by (simp only: append_assoc)
  have "1 * ?w \<le> length bs * ?w" using assms(1) by (intro mult_le_mono1) (simp add: Suc_leI)
  then have g: "4 + 4 + ?w \<le> length ?d" using len assms(4) by linarith
  have sub: "checked_sub64 (length ?d) (4 + length bs * ?w + div_ceil (length bs) SKIP_LEVEL1_STRIDE * ?w)
      = Some (length payload)"
    using len by (simp add: checked_sub64_def)
  show ?thesis
    unfolding skip_parse_def Let_def raw bind.simps sub skip_ix_def
    using g assms by simp
qed

lemma skip_entry_at_write:
  assumes "\<And>a. a + 4 \<le> entry_width f \<Longrightarrow> read_u32_le data (base + a) = read_u32_le (entry_of f (e, off, c)) a"
    and "e < 2 ^ 32" "off < 2 ^ 32" "c < 2 ^ 32" "with_counts ix = f"
  shows "skip_entry_at ix data base = Some (e, off, if f then Some c else None)"
  using assms(1) [of 0] assms(1) [of 4] assms(1) [of 8] assms(2-) entry_width_ge [of f]
    read_write_entry [of e off "if f then Some c else None"]
  by (cases f) (simp_all add: skip_entry_at_def entry_of_def)

definition blocks_ok :: "(nat \<times> nat \<times> nat) list \<Rightarrow> bool" where
  "blocks_ok bs = (\<forall>(e, off, c)\<in>set bs. e < 2 ^ 32 \<and> off < 2 ^ 32 \<and> c \<le> SKIP_BLOCK_POSTINGS)"

lemma blocks_ok_nth:
  "blocks_ok bs \<Longrightarrow> i < length bs \<Longrightarrow>
   fst (bs ! i) < 2 ^ 32 \<and> fst (snd (bs ! i)) < 2 ^ 32 \<and> snd (snd (bs ! i)) \<le> SKIP_BLOCK_POSTINGS"
  unfolding blocks_ok_def by (metis (no_types, lifting) case_prod_unfold nth_mem)

lemma skip_block_at:
  assumes "i < length bs" "blocks_ok bs"
  shows "skip_block (skip_ix f (length payload) (length bs)) (payload @ level0 f bs @ post) i
    = Some (fst (bs ! i), fst (snd (bs ! i)), if f then Some (snd (snd (bs ! i))) else None)"
  unfolding skip_block_def
proof (rule skip_entry_at_write)
  fix a assume "a + 4 \<le> entry_width f"
  then show "read_u32_le (payload @ level0 f bs @ post)
      (level0_offset (skip_ix f (length payload) (length bs)) + i * entry_bytes (skip_ix f (length payload) (length bs)) + a)
    = read_u32_le (entry_of f (fst (bs ! i), fst (snd (bs ! i)), snd (snd (bs ! i)))) a"
    unfolding level0_def skip_ix_def using read_u32_field [OF assms(1), of "entry_of f"] by simp
qed (use blocks_ok_nth [OF assms(2,1)] in \<open>auto simp: skip_ix_def SKIP_BLOCK_POSTINGS_def\<close>)

lemma sum_counts_bound: "blocks_ok bs \<Longrightarrow> sum_list (map (\<lambda>(_, _, c). c) bs) \<le> length bs * SKIP_BLOCK_POSTINGS"
  by (induction bs) (auto simp: blocks_ok_def)

lemma blocks_ok_sub: "blocks_ok bs \<Longrightarrow> blocks_ok (take n (drop m bs))"
  unfolding blocks_ok_def by (meson in_set_dropD in_set_takeD)

lemma skip_stride_at:
  assumes "j < div_ceil (length bs) SKIP_LEVEL1_STRIDE" "blocks_ok bs"
  shows "\<exists>off c. skip_stride (skip_ix f (length payload) (length bs))
      (payload @ level0 f bs @ level1 f bs @ post) j
    = Some (fst (bs ! (min (j * 32 + 32) (length bs) - 1)), off, c)"
proof -
  let ?s = "j * SKIP_LEVEL1_STRIDE" and ?e = "min (j * SKIP_LEVEL1_STRIDE + SKIP_LEVEL1_STRIDE) (length bs)"
  define c where "c = sum_list (map (\<lambda>(_, _, c). c) (take (?e - ?s) (drop ?s bs)))"
  have s: "?s < length bs" using assms(1) div_ceil_less_mult [of SKIP_LEVEL1_STRIDE j]
    by (simp add: SKIP_LEVEL1_STRIDE_def)
  have "c \<le> length (take (?e - ?s) (drop ?s bs)) * SKIP_BLOCK_POSTINGS"
    unfolding c_def by (rule sum_counts_bound [OF blocks_ok_sub [OF assms(2)]])
  also have "\<dots> \<le> SKIP_LEVEL1_STRIDE * SKIP_BLOCK_POSTINGS" by (intro mult_le_mono1) simp
  finally have c: "c < 2 ^ 32" by (simp add: SKIP_LEVEL1_STRIDE_def SKIP_BLOCK_POSTINGS_def)
  have e: "?e - 1 < length bs" using s by linarith
  have entry: "stride_entry f bs ?s = entry_of f (fst (bs ! (?e - 1)), fst (snd (bs ! ?s)), c)"
    by (simp add: stride_entry_def entry_of_def Let_def c_def)
  have "skip_stride (skip_ix f (length payload) (length bs)) (payload @ level0 f bs @ level1 f bs @ post) j
    = Some (fst (bs ! (?e - 1)), fst (snd (bs ! ?s)), if f then Some c else None)"
    unfolding skip_stride_def
  proof (rule skip_entry_at_write)
    fix a assume a: "a + 4 \<le> entry_width f"
    have j: "j < length [0..<div_ceil (length bs) SKIP_LEVEL1_STRIDE]" using assms(1) by simp
    have "read_u32_le ((payload @ level0 f bs) @ level1 f bs @ post) (length (payload @ level0 f bs) + j * entry_width f + a)
      = read_u32_le (stride_entry f bs ([0..<div_ceil (length bs) SKIP_LEVEL1_STRIDE] ! j * SKIP_LEVEL1_STRIDE)) a"
      unfolding level1_def by (rule read_u32_field [OF j]) (use a in simp_all)
    then show "read_u32_le (payload @ level0 f bs @ level1 f bs @ post)
      (level0_offset (skip_ix f (length payload) (length bs))
        + skip_count (skip_ix f (length payload) (length bs)) * entry_bytes (skip_ix f (length payload) (length bs))
        + j * entry_bytes (skip_ix f (length payload) (length bs)) + a)
      = read_u32_le (entry_of f (fst (bs ! (?e - 1)), fst (snd (bs ! ?s)), c)) a"
      using entry assms(1) by (simp add: skip_ix_def length_levels add.assoc)
  qed (use c blocks_ok_nth [OF assms(2) e] blocks_ok_nth [OF assms(2) s] in \<open>auto simp: skip_ix_def\<close>)
  then show ?thesis by (simp add: SKIP_LEVEL1_STRIDE_def)
qed

section \<open>Lemmas: the landing block\<close>

lemma lower_bound_threshold:
  "(\<And>i. lo \<le> i \<Longrightarrow> i < hi \<Longrightarrow> below i = Some (i < B)) \<Longrightarrow>
   lower_bound below lo hi = Some (max lo (min hi B))"
proof (induction below lo hi rule: lower_bound.induct)
  case (1 below lo hi)
  let ?m = "(lo + hi) div 2"
  show ?case
  proof (cases "lo < hi")
    case True
    then have b: "below ?m = Some (?m < B)" by (intro "1.prems") auto
    show ?thesis
    proof (cases "?m < B")
      case lt: True
      then have "lower_bound below (?m + 1) hi = Some (max (?m + 1) (min hi B))"
        using True b by (intro "1.IH"(1)) (auto intro: "1.prems")
      with True b lt show ?thesis by (subst lower_bound.simps) auto
    next
      case False
      then have "lower_bound below lo ?m = Some (max lo (min ?m B))"
        using True b by (intro "1.IH"(2)) (auto intro: "1.prems")
      with True b False show ?thesis by (subst lower_bound.simps) auto
    qed
  qed (simp add: lower_bound.simps)
qed

text \<open>The first block that ends at or above the target.\<close>

definition landing_block :: "(nat \<times> nat \<times> nat) list \<Rightarrow> nat \<Rightarrow> nat" where
  "landing_block bs target = length (takeWhile (\<lambda>b. fst b < target) bs)"

lemma landing_block_le: "landing_block bs t \<le> length bs"
  by (simp add: landing_block_def length_takeWhile_le)

lemma landing_block_iff:
  assumes "sorted_wrt (\<lambda>a b. fst a < fst b) bs" "i < length bs"
  shows "fst (bs ! i) < t \<longleftrightarrow> i < landing_block bs t"
proof
  assume "i < landing_block bs t"
  then show "fst (bs ! i) < t"
    unfolding landing_block_def by (metis nth_mem set_takeWhileD takeWhile_nth)
next
  assume lt: "fst (bs ! i) < t"
  show "i < landing_block bs t"
  proof (rule ccontr)
    assume "\<not> i < landing_block bs t"
    then have le: "landing_block bs t \<le> i" by simp
    then have "\<not> fst (bs ! landing_block bs t) < t"
      using assms(2) nth_length_takeWhile [of "\<lambda>b. fst b < t" bs] by (simp add: landing_block_def)
    moreover have "fst (bs ! landing_block bs t) \<le> fst (bs ! i)"
      using assms le sorted_wrt_nth_less [OF assms(1), of "landing_block bs t" i]
      by (cases "landing_block bs t = i") auto
    ultimately show False using lt by linarith
  qed
qed

lemma stride_iff:
  fixes B n j :: nat
  assumes "j < div_ceil n 32" "B \<le> n"
  shows "min (j * 32 + 32) n - 1 < B \<longleftrightarrow> j < (if B < n then B div 32 else div_ceil n 32)"
proof -
  have "j * 32 < n" using assms(1) div_ceil_less_mult [of 32 j n] by simp
  then show ?thesis using assms by (auto simp: min_def)
qed

lemma div_ceil_reach: "0 < k \<Longrightarrow> n \<le> div_ceil n k * k"
  by (rule div_ceil_mult)

text \<open>The two searches find the landing block and give its start.\<close>

lemma jump_landing_at:
  fixes f :: bool and payload post :: bytes and target cur :: nat
  assumes ok: "blocks_ok bs" and s: "sorted_wrt (\<lambda>a b. fst a < fst b) bs" and ne: "bs \<noteq> []"
  defines "ix \<equiv> skip_ix f (length payload) (length bs)"
    and "data \<equiv> payload @ level0 f bs @ level1 f bs @ post"
    and "b \<equiv> landing_block bs target"
  shows "jump_landing ix data target cur = Some
    (if target = 0 \<or> length bs \<le> b \<or> fst (snd (bs ! b)) \<le> cur then None
     else Some (fst (snd (bs ! b)), b * 128 mod 2 ^ 32, if b = 0 then 0 else fst (bs ! (b - 1))))"
proof (cases "target = 0")
  case False
  let ?n = "length bs"
  define B' where "B' = (if b < ?n then b div 32 else div_ceil ?n 32)"
  have bn: "b \<le> ?n" unfolding b_def by (rule landing_block_le)
  have block: "skip_block ix data i = Some (fst (bs ! i), fst (snd (bs ! i)), if f then Some (snd (snd (bs ! i))) else None)"
    if "i < ?n" for i
    unfolding ix_def data_def by (rule skip_block_at [OF that ok])
  have below0: "map_option (\<lambda>(e, _). e < target) (skip_block ix data i) = Some (i < b)" if "i < ?n" for i
    using landing_block_iff [OF s that, of target] by (simp add: block [OF that] b_def)
  have below1: "map_option (\<lambda>(e, _). e < target) (skip_stride ix data j) = Some (j < B')" if j: "j < div_ceil ?n 32" for j
  proof -
    have j': "j < div_ceil ?n SKIP_LEVEL1_STRIDE" using j by (simp add: SKIP_LEVEL1_STRIDE_def)
    obtain off c where st: "skip_stride ix data j = Some (fst (bs ! (min (j * 32 + 32) ?n - 1)), off, c)"
      using skip_stride_at [OF j' ok, of f payload post] unfolding ix_def data_def by blast
    have "min (j * 32 + 32) ?n - 1 < ?n" using ne by (cases bs) auto
    from landing_block_iff [OF s this, of target] stride_iff [OF j bn] show ?thesis
      by (simp add: st b_def [symmetric] B'_def)
  qed
  have S: "stride_count ix = div_ceil ?n 32" "skip_count ix = ?n"
    by (simp_all add: ix_def skip_ix_def SKIP_LEVEL1_STRIDE_def)
  have B'le: "B' \<le> div_ceil ?n 32" and reach: "?n \<le> div_ceil ?n 32 * 32"
    using div_ceil_reach [of 32 ?n] div_ceil_mono [of 32 b ?n] bn by (auto simp: B'_def div_ceil_def)
  have lb1: "lower_bound (\<lambda>mid. map_option (\<lambda>(e, _). e < target) (skip_stride ix data mid)) 0 (div_ceil ?n 32) = Some B'"
    using lower_bound_threshold [of 0 "div_ceil ?n 32" _ B'] below1 B'le by simp
  have lb0: "lower_bound (\<lambda>mid. map_option (\<lambda>(e, _). e < target) (skip_block ix data mid))
       (B' * 32) (min ?n (B' * 32 + 32)) = Some (max (B' * 32) (min (min ?n (B' * 32 + 32)) b))"
    by (rule lower_bound_threshold) (use below0 in simp)
  show ?thesis
  proof (cases "b < ?n")
    case True
    then have "B' = b div 32" by (simp add: B'_def)
    then have "max (B' * 32) (min (min ?n (B' * 32 + 32)) b) = b" using True by auto
    with lb0 have lb: "lower_bound (\<lambda>mid. map_option (\<lambda>(e, _). e < target) (skip_block ix data mid))
       (B' * 32) (min ?n (B' * 32 + 32)) = Some b" by simp
    have counts: "read_counts ix data is = Some ()" if "\<forall>i\<in>set is. i < ?n" for "is"
      using that by (induction "is") (simp_all add: block)
    have "read_counts ix data [b div 32 * 32..<b] = Some ()" by (rule counts) (use True in auto)
    moreover have "skip_block ix data (b - 1) = Some (fst (bs ! (b - 1)), fst (snd (bs ! (b - 1))),
        if f then Some (snd (snd (bs ! (b - 1)))) else None)"
      using True by (intro block) simp
    ultimately show ?thesis using False True ne
      by (simp add: jump_landing_def lb1 lb S block [OF True] SKIP_LEVEL1_STRIDE_def SKIP_BLOCK_POSTINGS_def Let_def)
  next
    case no: False
    then have "B' * 32 \<ge> ?n" using reach by (simp add: B'_def)
    with False no ne show ?thesis
      by (simp add: jump_landing_def lb1 lower_bound.simps [of _ "B' * 32" ?n] S SKIP_LEVEL1_STRIDE_def Let_def)
  qed
qed (simp add: jump_landing_def)

section \<open>Lemmas: the builder\<close>

text \<open>The builder after the first \<open>i\<close> postings, when posting \<open>k\<close> starts at byte \<open>off k\<close>.\<close>

primrec builder_at :: "nat list \<Rightarrow> (nat \<Rightarrow> nat) \<Rightarrow> nat \<Rightarrow> skip_builder" where
  "builder_at docs off 0 = skip_new"
| "builder_at docs off (Suc i) = skip_posting (i mod 2 ^ 32) (off i) (docs ! i) (builder_at docs off i)"

definition block_of :: "nat list \<Rightarrow> (nat \<Rightarrow> nat) \<Rightarrow> nat \<Rightarrow> nat \<times> nat \<times> nat" where
  "block_of docs off b = (docs ! (min (128 * (b + 1)) (length docs) - 1), off (128 * b) mod 2 ^ 32,
     min 128 (length docs - 128 * b))"

definition blocks_of :: "nat list \<Rightarrow> (nat \<Rightarrow> nat) \<Rightarrow> (nat \<times> nat \<times> nat) list" where
  "blocks_of docs off = map (block_of docs off) [0..<div_ceil (length docs) 128]"

lemma builder_at_state:
  assumes "i < length docs" "length docs < 2 ^ 32"
  shows "builder_at docs off (Suc i) = \<lparr>sb_blocks = map (block_of docs off) [0..<i div 128],
    open_offset = Some (off (128 * (i div 128))), open_count = Suc i - 128 * (i div 128), prev_docid = docs ! i\<rparr>"
  using assms
proof (induction i)
  case 0
  then show ?case
    by (simp add: skip_posting_def skip_new_def close_block_def SKIP_BLOCK_POSTINGS_def)
next
  case (Suc i)
  let ?b = "builder_at docs off (Suc i)"
  have IH: "?b = \<lparr>sb_blocks = map (block_of docs off) [0..<i div 128],
    open_offset = Some (off (128 * (i div 128))), open_count = Suc i - 128 * (i div 128), prev_docid = docs ! i\<rparr>"
    using Suc by simp
  have small: "Suc i mod 2 ^ 32 = Suc i" using Suc.prems by simp
  have step: "builder_at docs off (Suc (Suc i)) = skip_posting (Suc i) (off (Suc i)) (docs ! Suc i) ?b"
    using small by (simp only: builder_at.simps)
  show ?case
  proof (cases "Suc i mod 128 = 0")
    case True
    then obtain k where k: "Suc i = 128 * k" by (auto simp: mod_eq_0_iff_dvd)
    then obtain m where m: "k = Suc m" by (cases k) auto
    have i: "i div 128 = m" "i = 128 * m + 127" "Suc i div 128 = Suc m" "Suc i mod 128 = 0" using k m by auto
    have "block_of docs off m = (docs ! i, off (128 * m) mod 2 ^ 32, Suc i - 128 * m)"
      using i(2) Suc.prems(1) by (auto simp: block_of_def min_def add.commute)
    then show ?thesis
      unfolding step IH i(3) using i(1,2,4) k m
      by (simp add: skip_posting_def close_block_def SKIP_BLOCK_POSTINGS_def add.commute)
  next
    case False
    then have "Suc i div 128 = i div 128" by (simp only: div_Suc if_False)
    with False show ?thesis
      unfolding step IH by (simp add: skip_posting_def SKIP_BLOCK_POSTINGS_def Suc_diff_le div_times_less_eq_dividend)
  qed
qed

lemma div_ceil_Suc: "0 < k \<Longrightarrow> div_ceil (Suc i) k = Suc (i div k)"
  by (simp add: div_ceil_def div_Suc)

lemma finish_blocks:
  assumes "docs \<noteq> []" "length docs < 2 ^ 32"
  shows "sb_blocks (close_block (builder_at docs off (length docs))) = blocks_of docs off"
proof -
  obtain i where i: "length docs = Suc i" using assms(1) by (cases docs) auto
  have "div_ceil (length docs) 128 = Suc (i div 128)" using div_ceil_Suc [of 128 i] by (simp only: i)
  moreover have "block_of docs off (i div 128) = (docs ! i, off (128 * (i div 128)) mod 2 ^ 32, Suc i - 128 * (i div 128))"
  proof -
    have "i < 128 * (i div 128) + 128"
      by (metis add_less_cancel_left mod_less_divisor mult_div_mod_eq zero_less_numeral)
    then have "Suc i \<le> 128 * (i div 128 + 1)" "Suc i - 128 * (i div 128) \<le> 128" by simp_all
    then show ?thesis by (simp add: block_of_def i min_def)
  qed
  ultimately show ?thesis
    using builder_at_state [of i docs off] assms(2) by (simp add: i close_block_def blocks_of_def)
qed

lemma length_blocks_of: "length (blocks_of docs off) = div_ceil (length docs) 128"
  by (simp add: blocks_of_def)

lemma blocks_of_nth: "b < div_ceil (length docs) 128 \<Longrightarrow> blocks_of docs off ! b = block_of docs off b"
  by (simp add: blocks_of_def)

lemma blocks_of_ok:
  assumes "\<forall>d\<in>set docs. d < 2 ^ 32" "docs \<noteq> []"
  shows "blocks_ok (blocks_of docs off)"
proof -
  have "docs ! (min (128 * (b + 1)) (length docs) - 1) < 2 ^ 32" for b
    using assms by (intro bspec [OF assms(1)] nth_mem) (cases docs; simp)
  then show ?thesis by (auto simp: blocks_ok_def blocks_of_def block_of_def SKIP_BLOCK_POSTINGS_def)
qed

lemma blocks_of_sorted:
  assumes "sorted_wrt (<) docs"
  shows "sorted_wrt (\<lambda>a b. fst a < fst b) (blocks_of docs off)"
proof -
  have "fst (block_of docs off a) < fst (block_of docs off b)" if "a < b" "b < div_ceil (length docs) 128" for a b
  proof -
    have "128 * b < length docs" using that(2) div_ceil_less_mult [of 128 b "length docs"] by (simp add: mult.commute)
    with that(1) have "min (128 * (a + 1)) (length docs) - 1 < min (128 * (b + 1)) (length docs) - 1"
      "min (128 * (b + 1)) (length docs) - 1 < length docs" by auto
    then show ?thesis using sorted_wrt_nth_less [OF assms] by (simp add: block_of_def)
  qed
  then show ?thesis by (auto simp: sorted_wrt_iff_nth_less length_blocks_of blocks_of_nth)
qed

text \<open>
  What a reader needs of a jump: it lands at the start of a later block, and every posting before
  that block is below the target.
\<close>

lemma jump_landing_postings:
  fixes f :: bool and payload post :: bytes and off :: "nat \<Rightarrow> nat"
  assumes s: "sorted_wrt (<) docs" and r: "\<forall>d\<in>set docs. d < 2 ^ 32" and ne: "docs \<noteq> []"
    and len: "length docs < 2 ^ 32" and off: "\<And>k. k \<le> length docs \<Longrightarrow> off k < 2 ^ 32"
    and off0: "off 0 \<le> cur"
  defines "bs \<equiv> blocks_of docs off"
  obtains "jump_landing (skip_ix f (length payload) (length bs)) (payload @ level0 f bs @ level1 f bs @ post) target cur
      = Some None"
  | q where "jump_landing (skip_ix f (length payload) (length bs)) (payload @ level0 f bs @ level1 f bs @ post) target cur
      = Some (Some (off q, q, docs ! (q - 1)))"
    "0 < q" "q < length docs" "cur < off q" "\<And>i. i < q \<Longrightarrow> docs ! i < target"
proof -
  let ?b = "landing_block bs target"
  have bne: "bs \<noteq> []" using ne by (cases docs) (auto simp: bs_def blocks_of_def div_ceil_def)
  note J = jump_landing_at [OF blocks_of_ok [OF r ne, of off] blocks_of_sorted [OF s], folded bs_def, OF bne,
      of f payload post target cur]
  show thesis
  proof (cases "target = 0 \<or> length bs \<le> ?b \<or> fst (snd (bs ! ?b)) \<le> cur")
    case True
    with J show ?thesis by (intro that(1)) simp
  next
    case False
    then have b: "?b < div_ceil (length docs) 128" by (simp add: bs_def length_blocks_of)
    then have q: "?b * 128 < length docs" using div_ceil_less_mult [of 128 ?b "length docs"] by simp
    have o: "fst (snd (bs ! ?b)) = off (?b * 128)"
      using off [of "?b * 128"] q by (simp add: bs_def blocks_of_nth [OF b [unfolded bs_def]] block_of_def mult.commute)
    have pos: "0 < ?b" using False o off0 by (cases "?b = 0") auto
    have prev: "fst (bs ! (?b - 1)) = docs ! (?b * 128 - 1)"
      using pos b q by (simp add: bs_def blocks_of_nth block_of_def min_def mult.commute)
    have "docs ! i < target" if i: "i < ?b * 128" for i
    proof -
      have "fst (bs ! (?b - 1)) < target"
        using landing_block_iff [OF blocks_of_sorted [OF s], of "?b - 1" off target] pos b
        by (simp add: bs_def length_blocks_of)
      moreover have "docs ! i \<le> docs ! (?b * 128 - 1)"
        using sorted_wrt_nth_less [OF s, of i "?b * 128 - 1"] i q by (cases "i = ?b * 128 - 1") (auto simp: less_imp_le)
      ultimately show ?thesis using prev by linarith
    qed
    moreover have "?b * 128 mod 2 ^ 32 = ?b * 128" using q len by simp
    ultimately show ?thesis
      using J False pos q o prev by (intro that(2) [of "?b * 128"]) auto
  qed
qed

end
