(* ===== verification/Delta_Varint.thy ===== *)
theory Delta_Varint
  imports Posting_Reader Skip_Index
begin

text \<open>
  The two delta-varint posting codecs of \<open>crates/ic-stable-text-postings/src/enc\<close>:
  \<open>varint.rs\<close> (docids only) and \<open>freq_varint.rs\<close> (docids with one frequency byte each). Their code
  differs only in what follows a delta and in the width of a skip entry, so the loops below take
  these as arguments; \<open>encode_varint\<close>, \<open>encode_freq_varint\<close> and the operation records
  \<open>varint_ops\<close>, \<open>freq_ops\<close> are the two codecs. The varint reader keeps a docid where the model keeps
  it paired with the constant frequency 1. The position and the byte position stay below the count
  and the buffer length, so their additions do not wrap.
\<close>

section \<open>Encoders\<close>

fun encode_loop ::
  "(nat \<Rightarrow> bytes) \<Rightarrow> postings \<Rightarrow> nat \<Rightarrow> nat \<Rightarrow> bytes \<Rightarrow> skip_builder \<Rightarrow> bytes \<times> skip_builder" where
  "encode_loop tail [] i prev out skips = (out, skips)"
| "encode_loop tail ((doc, tf) # ps) i prev out skips =
     encode_loop tail ps (i + 1) doc (out @ write_u32 (if i = 0 then doc else doc - prev) @ tail tf)
       (skip_posting (i mod 2 ^ 32) (length out) doc skips)"

definition freq_tail :: "nat \<Rightarrow> bytes" where
  "freq_tail tf = [word_of_nat (min tf 255)]"

definition encode_varint :: "nat list \<Rightarrow> bytes option" where
  "encode_varint docs = (if assert_strictly_increasing docs
     then let (out, skips) = encode_loop (\<lambda>_. []) (map (\<lambda>d. (d, 1)) docs) 0 0 (to_le 4 (length docs)) skip_new
          in Some (out @ skip_finish False skips)
     else None)"

definition encode_freq_varint :: "nat list \<Rightarrow> nat list \<Rightarrow> bytes option" where
  "encode_freq_varint docs tfs = (if assert_strictly_increasing docs \<and> length docs = length tfs
     then let (out, skips) = encode_loop freq_tail (zip docs tfs) 0 0 (to_le 4 (length docs)) skip_new
          in Some (out @ skip_finish True skips)
     else None)"

section \<open>Readers\<close>

record delta_reader =
  dr_data :: bytes
  dr_count :: nat
  dr_byte_pos :: nat
  dr_payload_end :: nat
  dr_pos :: nat
  dr_prev :: nat
  dr_current :: "(nat \<times> nat) option"
  dr_skip :: skip_index

text \<open>What follows a delta: nothing, or the frequency byte inside the payload.\<close>

definition varint_tf :: "bytes \<Rightarrow> nat \<Rightarrow> nat \<Rightarrow> (nat \<times> nat) option" where
  "varint_tf data payload_end byte_pos = Some (1, byte_pos)"

definition freq_tf :: "bytes \<Rightarrow> nat \<Rightarrow> nat \<Rightarrow> (nat \<times> nat) option" where
  "freq_tf data payload_end byte_pos = do {
     tf_byte \<leftarrow> get data byte_pos;
     if payload_end \<le> byte_pos then None else Some (unat tf_byte, byte_pos + 1) }"

definition delta_new :: "nat \<Rightarrow> bool \<Rightarrow> bytes \<Rightarrow> delta_reader option" where
  "delta_new width freq_mode data = do {
     guard (4 \<le> length data);
     header \<leftarrow> subslice data 0 4;
     (skip, payload_end) \<leftarrow> skip_parse data (from_le header) width freq_mode;
     Some \<lparr>dr_data = data, dr_count = from_le header, dr_byte_pos = 4, dr_payload_end = payload_end,
           dr_pos = 0, dr_prev = 0, dr_current = None, dr_skip = skip\<rparr> }"

type_synonym tf_reader = "bytes \<Rightarrow> nat \<Rightarrow> nat \<Rightarrow> (nat \<times> nat) option"

definition delta_fill :: "tf_reader \<Rightarrow> delta_reader \<Rightarrow> delta_reader option" where
  "delta_fill tfr r = (if dr_current r = None \<and> dr_pos r < dr_count r then do {
       (delta, b1) \<leftarrow> decode_delta (dr_data r) (dr_payload_end r) (dr_byte_pos r) 0 0;
       let v = (if dr_pos r = 0 then delta else dr_prev r + delta);
       guard (v < 2 ^ 32);
       (tf, b2) \<leftarrow> tfr (dr_data r) (dr_payload_end r) b1;
       Some (r\<lparr>dr_byte_pos := b2, dr_prev := v, dr_current := Some (v, tf)\<rparr>) }
     else Some r)"

definition delta_peek :: "tf_reader \<Rightarrow> delta_reader \<Rightarrow> (nat option \<times> delta_reader) option" where
  "delta_peek tfr r = do { r' \<leftarrow> delta_fill tfr r; Some (map_option fst (dr_current r'), r') }"

definition delta_next :: "tf_reader \<Rightarrow> delta_reader \<Rightarrow> (nat option \<times> delta_reader) option" where
  "delta_next tfr r = do {
     (v, r') \<leftarrow> delta_peek tfr r;
     Some (v, if v \<noteq> None then r'\<lparr>dr_current := None, dr_pos := dr_pos r' + 1\<rparr> else r') }"

definition jump_toward :: "delta_reader \<Rightarrow> nat \<Rightarrow> delta_reader option" where
  "jump_toward r target = (if skip_count (dr_skip r) = 0 then Some r else do {
     landing \<leftarrow> jump_landing (dr_skip r) (dr_data r) target (dr_byte_pos r);
     case landing of
       None \<Rightarrow> Some r
     | Some (offset, pos_before, prev) \<Rightarrow>
         Some (r\<lparr>dr_byte_pos := offset, dr_pos := pos_before, dr_prev := prev, dr_current := None\<rparr>) })"

partial_function (option) delta_advance_loop ::
  "tf_reader \<Rightarrow> delta_reader \<Rightarrow> nat \<Rightarrow> (nat option \<times> delta_reader) option" where
  "delta_advance_loop tfr r target = do {
     (v, r') \<leftarrow> delta_peek tfr r;
     case v of
       None \<Rightarrow> Some (None, r')
     | Some d \<Rightarrow> (if target \<le> d then Some (Some d, r')
         else do { (_, r'') \<leftarrow> delta_next tfr r'; delta_advance_loop tfr r'' target }) }"

definition delta_advance :: "tf_reader \<Rightarrow> delta_reader \<Rightarrow> nat \<Rightarrow> (nat option \<times> delta_reader) option" where
  "delta_advance tfr r target = do {
     (v, r') \<leftarrow> delta_peek tfr r;
     case v of
       None \<Rightarrow> Some (None, r')
     | Some d \<Rightarrow> (if target \<le> d then Some (Some d, r')
         else do { r'' \<leftarrow> jump_toward r' target; delta_advance_loop tfr r'' target }) }"

definition freq :: "delta_reader \<Rightarrow> (nat option \<times> delta_reader) option" where
  "freq r = do { r' \<leftarrow> delta_fill freq_tf r; Some (map_option snd (dr_current r'), r') }"

definition varint_next_step :: "delta_reader \<Rightarrow> ((nat \<times> nat) option \<times> delta_reader) option" where
  "varint_next_step r = do { (v, r') \<leftarrow> delta_next varint_tf r; Some (map_option (\<lambda>d. (d, 1)) v, r') }"

definition freq_next_step :: "delta_reader \<Rightarrow> ((nat \<times> nat) option \<times> delta_reader) option" where
  "freq_next_step r = do {
     r' \<leftarrow> delta_fill freq_tf r;
     case dr_current r' of
       None \<Rightarrow> Some (None, r')
     | Some step \<Rightarrow> Some (Some step, r'\<lparr>dr_current := None, dr_pos := dr_pos r' + 1\<rparr>) }"

definition varint_new :: "bytes \<Rightarrow> delta_reader option" where
  "varint_new = delta_new PLAIN_ENTRY_BYTES False"

definition freq_new :: "bytes \<Rightarrow> delta_reader option" where
  "freq_new = delta_new FREQ_ENTRY_BYTES True"

definition varint_ops :: "delta_reader reader_ops" where
  "varint_ops = \<lparr>rd_len = dr_count, rd_pos = dr_pos, rd_peek = delta_peek varint_tf,
     rd_next = delta_next varint_tf, rd_advance = delta_advance varint_tf,
     rd_tf = default_tf (delta_peek varint_tf), rd_next_step = varint_next_step\<rparr>"

definition freq_ops :: "delta_reader reader_ops" where
  "freq_ops = \<lparr>rd_len = dr_count, rd_pos = dr_pos, rd_peek = delta_peek freq_tf,
     rd_next = delta_next freq_tf, rd_advance = delta_advance freq_tf,
     rd_tf = freq, rd_next_step = freq_next_step\<rparr>"

section \<open>The byte stream\<close>

definition delta_at :: "postings \<Rightarrow> nat \<Rightarrow> nat" where
  "delta_at ps i = (if i = 0 then fst (ps ! 0) else fst (ps ! i) - fst (ps ! (i - 1)))"

definition posting_code :: "(nat \<Rightarrow> bytes) \<Rightarrow> postings \<Rightarrow> nat \<Rightarrow> bytes" where
  "posting_code tail ps i = write_u32 (delta_at ps i) @ tail (snd (ps ! i))"

definition stream :: "(nat \<Rightarrow> bytes) \<Rightarrow> postings \<Rightarrow> nat \<Rightarrow> bytes" where
  "stream tail ps k = concat (map (posting_code tail ps) [0..<k])"

text \<open>The byte at which posting \<open>k\<close> starts.\<close>

definition off :: "(nat \<Rightarrow> bytes) \<Rightarrow> postings \<Rightarrow> nat \<Rightarrow> nat" where
  "off tail ps k = 4 + length (stream tail ps k)"

lemma stream_Suc: "stream tail ps (Suc k) = stream tail ps k @ posting_code tail ps k"
  by (simp add: stream_def)

lemma off_Suc: "off tail ps (Suc k) = off tail ps k + length (posting_code tail ps k)"
  by (simp add: off_def stream_Suc)

lemma off_less: "j < k \<Longrightarrow> off tail ps j < off tail ps k"
proof (induction k)
  case (Suc k)
  have "off tail ps k < off tail ps (Suc k)"
    by (cases "write_u32 (delta_at ps k)") (auto simp: off_Suc posting_code_def)
  with Suc show ?case by (cases "j = k") auto
qed simp

lemma off_mono: "j \<le> k \<Longrightarrow> off tail ps j \<le> off tail ps k"
  using off_less [of j k] by (cases "j = k") (auto simp: less_imp_le)

lemma stream_split:
  assumes "i < n"
  shows "stream tail ps n = stream tail ps i @ posting_code tail ps i @ concat (map (posting_code tail ps) [Suc i..<n])"
  using concat_split [of i "[0..<n]" "posting_code tail ps"] assms by (simp add: stream_def)

lemma encode_loop_stream:
  assumes "i \<le> length ps"
  shows "encode_loop tail (drop i ps) i (if i = 0 then 0 else fst (ps ! (i - 1)))
      (hdr @ stream tail ps i) (builder_at (map fst ps) (\<lambda>k. length hdr + length (stream tail ps k)) i)
    = (hdr @ stream tail ps (length ps),
       builder_at (map fst ps) (\<lambda>k. length hdr + length (stream tail ps k)) (length ps))"
  using assms
proof (induction "length ps - i" arbitrary: i)
  case (Suc m)
  then have i: "i < length ps" by linarith
  obtain d t where dt: "ps ! i = (d, t)" by (cases "ps ! i")
  have "drop i ps = (d, t) # drop (Suc i) ps" using Cons_nth_drop_Suc [OF i] dt by simp
  moreover have "posting_code tail ps i = write_u32 (if i = 0 then d else d - (if i = 0 then 0 else fst (ps ! (i - 1)))) @ tail t"
    using dt by (auto simp: posting_code_def delta_at_def)
  ultimately show ?case
    using Suc.hyps(1) [of "Suc i"] Suc.hyps(2) i dt by (simp add: stream_Suc)
qed simp

text \<open>The buffer both encoders produce.\<close>

definition delta_buffer :: "(nat \<Rightarrow> bytes) \<Rightarrow> bool \<Rightarrow> postings \<Rightarrow> bytes" where
  "delta_buffer tail f ps = (to_le 4 (length ps) @ stream tail ps (length ps))
     @ level0 f (blocks_of (map fst ps) (off tail ps)) @ level1 f (blocks_of (map fst ps) (off tail ps))
     @ to_le 4 (length (blocks_of (map fst ps) (off tail ps)))"

lemma encode_loop_buffer:
  assumes "ps \<noteq> []" "length ps < 2 ^ 32"
  shows "(let (out, skips) = encode_loop tail ps 0 0 (to_le 4 (length ps)) skip_new
    in out @ skip_finish f skips) = delta_buffer tail f ps"
proof -
  let ?h = "to_le 4 (length ps) :: bytes"
  have o: "(\<lambda>k. length ?h + length (stream tail ps k)) = off tail ps" by (simp add: off_def fun_eq_iff)
  have "encode_loop tail ps 0 0 ?h skip_new
      = (?h @ stream tail ps (length ps), builder_at (map fst ps) (off tail ps) (length ps))"
    using encode_loop_stream [of 0 ps tail ?h] unfolding o by (simp add: stream_def)
  moreover have "sb_blocks (close_block (builder_at (map fst ps) (off tail ps) (length ps)))
      = blocks_of (map fst ps) (off tail ps)"
    using finish_blocks [of "map fst ps" "off tail ps"] assms by simp
  ultimately show ?thesis by (simp add: delta_buffer_def skip_finish_alt)
qed

lemma sorted_iff_assert: "assert_strictly_increasing docs \<longleftrightarrow> docs \<noteq> [] \<and> sorted_wrt (<) docs"
proof -
  have "sorted_wrt (<) docs" if "\<forall>i < length docs - 1. docs ! i < docs ! (i + 1)"
  proof -
    have "docs ! i < docs ! j" if "i < j" "j < length docs" for i j
      using that
    proof (induction j)
      case (Suc j)
      have "docs ! j < docs ! Suc j"
        using \<open>\<forall>i < length docs - 1. docs ! i < docs ! (i + 1)\<close> Suc.prems(2) by auto
      with Suc show ?case by (cases "i = j") auto
    qed simp
    then show ?thesis by (simp add: sorted_wrt_iff_nth_less)
  qed
  then show ?thesis
    by (auto simp: assert_strictly_increasing_def sorted_wrt_iff_nth_less)
qed

section \<open>The reader over the buffer\<close>

definition delta_repr :: "(nat \<Rightarrow> bytes) \<Rightarrow> (nat \<Rightarrow> bool) \<Rightarrow> bool \<Rightarrow> delta_reader \<Rightarrow> postings \<Rightarrow> nat \<Rightarrow> bool" where
  "delta_repr tail tf_ok f r ps p =
    (ps \<noteq> [] \<and> sorted_wrt (<) (map fst ps) \<and> (\<forall>x\<in>set ps. fst x < 2 ^ 32 \<and> tf_ok (snd x))
     \<and> dr_data r = delta_buffer tail f ps \<and> length (dr_data r) < 2 ^ 32
     \<and> dr_count r = length ps \<and> dr_payload_end r = off tail ps (length ps)
     \<and> dr_skip r = skip_ix f (off tail ps (length ps)) (length (blocks_of (map fst ps) (off tail ps)))
     \<and> dr_pos r = p \<and> p \<le> length ps
     \<and> (case dr_current r of
          None \<Rightarrow> dr_byte_pos r = off tail ps p \<and> (0 < p \<longrightarrow> dr_prev r = fst (ps ! (p - 1)))
        | Some x \<Rightarrow> p < length ps \<and> x = ps ! p \<and> dr_byte_pos r = off tail ps (Suc p) \<and> dr_prev r = fst (ps ! p)))"

lemma length_payload: "length (to_le 4 (length ps) @ stream tail ps k :: bytes) = off tail ps k"
  by (simp add: off_def)

lemma buffer_bounds:
  assumes "length (delta_buffer tail f ps) < 2 ^ 32" "ps \<noteq> []"
  shows "off tail ps k < 2 ^ 32 \<or> length ps < k" "length ps < 2 ^ 32"
    "length (blocks_of (map fst ps) (off tail ps)) < 2 ^ 32"
proof -
  have le: "off tail ps (length ps) \<le> length (delta_buffer tail f ps)"
    unfolding delta_buffer_def by (simp add: off_def)
  then show "off tail ps k < 2 ^ 32 \<or> length ps < k"
    using assms(1) off_mono [of k "length ps" tail ps] by linarith
  have "k \<le> off tail ps k" for k
    by (induction k) (use off_less [of _ "Suc _" tail ps] in \<open>auto simp: Suc_le_eq intro: le_less_trans\<close>)
  from this [of "length ps"] show n: "length ps < 2 ^ 32" using le assms(1) by linarith
  have "div_ceil (length ps) 128 \<le> length ps"
    using div_ceil_less_mult [of 128 "length ps" "length ps"] by (simp add: not_less)
  then show "length (blocks_of (map fst ps) (off tail ps)) < 2 ^ 32" using n by (simp add: length_blocks_of)
qed

locale delta_codec =
  fixes tail :: "nat \<Rightarrow> bytes" and tf_ok :: "nat \<Rightarrow> bool" and f :: bool and tfr :: tf_reader
  assumes tfr_law: "tf_ok t \<Longrightarrow> length pre + length (tail t) \<le> pe \<Longrightarrow>
    tfr (pre @ tail t @ post) pe (length pre) = Some (t, length pre + length (tail t))"
begin

abbreviation repr :: "delta_reader \<Rightarrow> postings \<Rightarrow> nat \<Rightarrow> bool" where
  "repr \<equiv> delta_repr tail tf_ok f"

lemma decode_posting:
  assumes "i < length ps" "fst (ps ! i) < 2 ^ 32" "tf_ok (snd (ps ! i))"
  shows "\<exists>b1. decode_delta (delta_buffer tail f ps) (off tail ps (length ps)) (off tail ps i) 0 0
        = Some (delta_at ps i, b1)
      \<and> tfr (delta_buffer tail f ps) (off tail ps (length ps)) b1 = Some (snd (ps ! i), off tail ps (Suc i))"
proof -
  let ?pre = "to_le 4 (length ps) @ stream tail ps i" and ?w = "write_u32 (delta_at ps i)" and ?t = "tail (snd (ps ! i))"
  obtain post where buf: "delta_buffer tail f ps = ?pre @ ?w @ ?t @ post"
    using stream_split [OF assms(1), of tail ps] by (simp add: delta_buffer_def posting_code_def)
  have pre: "length ?pre = off tail ps i" by (rule length_payload)
  have nxt: "off tail ps (Suc i) = off tail ps i + length ?w + length ?t" by (simp add: off_Suc posting_code_def)
  have le: "off tail ps i + length ?w + length ?t \<le> off tail ps (length ps)"
    using off_mono [of "Suc i" "length ps" tail ps] assms(1) by (simp add: nxt Suc_leI)
  have "delta_at ps i < 2 ^ 32" using assms(2) by (auto simp: delta_at_def)
  then have "decode_delta (?pre @ ?w @ (?t @ post)) (off tail ps (length ps)) (length ?pre) 0 0
      = Some (delta_at ps i, length ?pre + length ?w)"
    using le by (intro decode_delta_at) (simp_all add: off_def)
  moreover have "tfr ((?pre @ ?w) @ ?t @ post) (off tail ps (length ps)) (length (?pre @ ?w))
      = Some (snd (ps ! i), length (?pre @ ?w) + length ?t)"
    using le by (intro tfr_law [OF assms(3)]) (simp add: off_def)
  ultimately show ?thesis
    unfolding buf nxt pre [symmetric] by (intro exI [of _ "length ?pre + length ?w"]) (simp add: add.assoc)
qed

lemma fill_law:
  assumes "repr r ps p"
  shows "\<exists>r'. delta_fill tfr r = Some r' \<and> repr r' ps p
    \<and> dr_current r' = (if p < length ps then Some (ps ! p) else None)"
proof (cases "dr_current r = None \<and> p < length ps")
  case True
  then have x: "fst (ps ! p) < 2 ^ 32" "tf_ok (snd (ps ! p))" using assms by (auto simp: delta_repr_def)
  obtain b1 where d: "decode_delta (dr_data r) (dr_payload_end r) (dr_byte_pos r) 0 0 = Some (delta_at ps p, b1)"
    and t: "tfr (dr_data r) (dr_payload_end r) b1 = Some (snd (ps ! p), off tail ps (Suc p))"
    using decode_posting [OF _ x] True assms by (auto simp: delta_repr_def)
  have "fst (ps ! (p - 1)) \<le> fst (ps ! p)"
    using assms True sorted_wrt_nth_less [of "(<)" "map fst ps" "p - 1" p]
    by (cases "p = 0") (auto simp: delta_repr_def less_imp_le)
  then have v: "(if dr_pos r = 0 then delta_at ps p else dr_prev r + delta_at ps p) = fst (ps ! p)"
    using assms True by (auto simp: delta_repr_def delta_at_def)
  have c: "dr_current r = None \<and> dr_pos r < dr_count r" using assms True by (auto simp: delta_repr_def)
  have "delta_fill tfr r = Some (r\<lparr>dr_byte_pos := off tail ps (Suc p), dr_prev := fst (ps ! p), dr_current := Some (ps ! p)\<rparr>)"
    using c x by (simp add: delta_fill_def d t v Let_def)
  with assms True show ?thesis by (auto simp: delta_repr_def)
next
  case False
  with assms have "delta_fill tfr r = Some r" by (auto simp: delta_fill_def delta_repr_def)
  with assms False show ?thesis by (auto simp: delta_repr_def split: option.splits)
qed

lemma peek_law:
  assumes "repr r ps p"
  shows "\<exists>r'. delta_peek tfr r = Some (peeked ps p, r') \<and> repr r' ps p
    \<and> dr_current r' = (if p < length ps then Some (ps ! p) else None)"
  using fill_law [OF assms] by (auto simp: delta_peek_def peeked_def)

lemma repr_consume:
  "repr r ps p \<Longrightarrow> p < length ps \<Longrightarrow> dr_current r = Some x \<Longrightarrow> repr (r\<lparr>dr_current := None, dr_pos := Suc (dr_pos r)\<rparr>) ps (Suc p)"
  by (auto simp: delta_repr_def)

lemma next_law:
  assumes "repr r ps p"
  shows "\<exists>r'. delta_next tfr r = Some (peeked ps p, r') \<and> repr r' ps (min (Suc p) (length ps))"
proof -
  obtain r' where r': "delta_peek tfr r = Some (peeked ps p, r')" "repr r' ps p"
    "dr_current r' = (if p < length ps then Some (ps ! p) else None)"
    using peek_law [OF assms] by blast
  show ?thesis
  proof (cases "p < length ps")
    case True
    with r' repr_consume [OF r'(2) True] show ?thesis by (auto simp: delta_next_def peeked_def)
  next
    case False
    with r' assms have "p = length ps" by (auto simp: delta_repr_def)
    with r' show ?thesis by (auto simp: delta_next_def peeked_def)
  qed
qed

lemma jump_law:
  assumes r: "repr r ps p" and cur: "dr_current r = Some x" and lt: "fst (ps ! p) < t"
  shows "\<exists>r' q. jump_toward r t = Some r' \<and> repr r' ps q \<and> p \<le> q \<and> adv ps p t = adv ps q t"
proof -
  let ?docs = "map fst ps" and ?off = "off tail ps"
  have R: "ps \<noteq> []" "sorted_wrt (<) ?docs" "dr_data r = delta_buffer tail f ps"
    "length (delta_buffer tail f ps) < 2 ^ 32" "p < length ps" "dr_byte_pos r = ?off (Suc p)"
    "dr_skip r = skip_ix f (?off (length ps)) (length (blocks_of ?docs ?off))"
    "\<forall>d\<in>set ?docs. d < 2 ^ 32"
    using r cur by (auto simp: delta_repr_def)
  note B = buffer_bounds [OF R(4,1)]
  have ne: "skip_count (dr_skip r) \<noteq> 0" using R(1,7) by (cases ps) (auto simp: skip_ix_def length_blocks_of div_ceil_def)
  have small: "?off k < 2 ^ 32" if "k \<le> length ?docs" for k using B(1) [of k] that by (simp add: not_less)
  have cur0: "?off 0 \<le> ?off (Suc p)" by (rule off_mono) simp
  have payload: "length (to_le 4 (length ps) @ stream tail ps (length ps) :: bytes) = ?off (length ps)"
    by (rule length_payload)
  have nd: "?docs \<noteq> []" "length ?docs < 2 ^ 32" using R(1) B(2) by simp_all
  show ?thesis
  proof (rule jump_landing_postings [where off = ?off, OF R(2,8) nd small cur0, where f = f and target = t
        and payload = "to_le 4 (length ps) @ stream tail ps (length ps)"
        and post = "to_le 4 (length (blocks_of ?docs ?off))"], goal_cases)
    case (1 k)
    then show ?case by simp
  next
    case 2
    then have "jump_landing (dr_skip r) (dr_data r) t (dr_byte_pos r) = Some None"
      unfolding R delta_buffer_def payload by simp
    with ne r show ?case by (auto simp: jump_toward_def)
  next
    case (3 q)
    then have j: "jump_landing (dr_skip r) (dr_data r) t (dr_byte_pos r) = Some (Some (?off q, q, ?docs ! (q - 1)))"
      unfolding R delta_buffer_def payload by simp
    have q: "p < q" "q < length ps" using 3(3,4) off_mono [of q "Suc p" tail ps] by (cases "q \<le> Suc p"; simp)+
    have "adv ps p t = adv ps q t" using q 3(5) by (intro adv_skip) auto
    moreover have "repr (r\<lparr>dr_byte_pos := ?off q, dr_pos := q, dr_prev := ?docs ! (q - 1), dr_current := None\<rparr>) ps q"
      using r q by (auto simp: delta_repr_def)
    ultimately show ?case using j ne q by (auto simp: jump_toward_def)
  qed
qed

lemma advance_loop_law:
  "repr r ps p \<Longrightarrow> \<exists>r'. delta_advance_loop tfr r t = Some (peeked ps (adv ps p t), r') \<and> repr r' ps (adv ps p t)"
proof (induction "length ps - p" arbitrary: r p rule: less_induct)
  case less
  obtain r' where r': "delta_peek tfr r = Some (peeked ps p, r')" "repr r' ps p"
    using peek_law [OF less.prems] by blast
  show ?case
  proof (cases "p < length ps \<and> fst (ps ! p) < t")
    case True
    obtain r'' where r'': "delta_next tfr r' = Some (peeked ps p, r'')" "repr r'' ps (min (Suc p) (length ps))"
      using next_law [OF r'(2)] by blast
    have m: "min (Suc p) (length ps) = Suc p" using True by simp
    have IH: "\<exists>s. delta_advance_loop tfr r'' t = Some (peeked ps (adv ps (Suc p) t), s) \<and> repr s ps (adv ps (Suc p) t)"
      using less.hyps [OF _ r''(2) [unfolded m]] True by auto
    have "delta_advance_loop tfr r t = delta_advance_loop tfr r'' t"
      using True r'(1) r''(1) by (subst delta_advance_loop.simps) (simp add: peeked_def)
    with IH True show ?thesis by (simp add: adv_step)
  next
    case False
    then have a: "adv ps p t = p" by (cases "p < length ps") (auto simp: adv_stop adv_end)
    show ?thesis
      using False r' by (subst delta_advance_loop.simps) (auto simp: a peeked_def)
  qed
qed

lemma advance_law:
  assumes "repr r ps p"
  shows "\<exists>r'. delta_advance tfr r t = Some (peeked ps (adv ps p t), r') \<and> repr r' ps (adv ps p t)"
proof -
  obtain r' where r': "delta_peek tfr r = Some (peeked ps p, r')" "repr r' ps p"
    "dr_current r' = (if p < length ps then Some (ps ! p) else None)"
    using peek_law [OF assms] by blast
  show ?thesis
  proof (cases "p < length ps \<and> fst (ps ! p) < t")
    case True
    obtain r'' q where r'': "jump_toward r' t = Some r''" "repr r'' ps q" "adv ps p t = adv ps q t"
      using jump_law [OF r'(2), of "ps ! p" t] r'(3) True by auto
    have "delta_advance tfr r t = delta_advance_loop tfr r'' t"
      using True r'(1) r''(1) by (simp add: delta_advance_def peeked_def)
    with advance_loop_law [OF r''(2)] r''(3) show ?thesis by simp
  next
    case False
    then have a: "adv ps p t = p" by (cases "p < length ps") (auto simp: adv_stop adv_end)
    with False r' show ?thesis by (auto simp: delta_advance_def peeked_def)
  qed
qed

lemma basic_laws:
  assumes "repr r ps p"
  shows "sorted_wrt (<) (map fst ps)" "p \<le> length ps" "x \<in> set ps \<Longrightarrow> fst x < 2 ^ 32"
    "dr_count r = length ps" "dr_pos r = p" "length ps < 2 ^ 32"
  using assms buffer_bounds(2) [of tail f ps] by (auto simp: delta_repr_def)

text \<open>Opening the buffer an encoder produced.\<close>

lemma new_law:
  assumes "ps \<noteq> []" "sorted_wrt (<) (map fst ps)" "\<forall>x\<in>set ps. fst x < 2 ^ 32 \<and> tf_ok (snd x)"
    and len: "length (delta_buffer tail f ps) < 2 ^ 32"
  shows "\<exists>r. delta_new (entry_width f) f (delta_buffer tail f ps) = Some r \<and> repr r ps 0"
proof -
  let ?d = "delta_buffer tail f ps" and ?bs = "blocks_of (map fst ps) (off tail ps)"
  note B = buffer_bounds [OF len assms(1)]
  have hdr: "subslice ?d 0 4 = Some (to_le 4 (length ps))"
    by (simp add: delta_buffer_def subslice_def)
  have cnt: "from_le (to_le 4 (length ps) :: bytes) = length ps" using B(2) by (simp add: from_le_to_le_id)
  have "0 < length ?bs" using assms(1) by (cases ps) (auto simp: length_blocks_of div_ceil_def)
  then have "skip_parse ?d (length ps) (entry_width f) f = Some (skip_ix f (off tail ps (length ps)) (length ?bs), off tail ps (length ps))"
    using skip_parse_trailer [of ?bs "length ps" "to_le 4 (length ps) @ stream tail ps (length ps)" f] B(3)
    unfolding length_payload by (simp add: delta_buffer_def length_blocks_of SKIP_BLOCK_POSTINGS_def off_def)
  moreover have "4 \<le> length ?d" by (simp add: delta_buffer_def)
  ultimately show ?thesis
    using assms hdr cnt by (auto simp: delta_new_def delta_repr_def off_def stream_def)
qed

end

section \<open>The two codecs\<close>

interpretation vc: delta_codec "\<lambda>_. []" "\<lambda>t. t = 1" False varint_tf
  by unfold_locales (simp add: varint_tf_def)

interpretation fc: delta_codec freq_tail "\<lambda>t. t \<le> 255" True freq_tf
  by unfold_locales (auto simp: freq_tf_def freq_tail_def index_append unat_byte)

abbreviation varint_repr :: "delta_reader \<Rightarrow> postings \<Rightarrow> nat \<Rightarrow> bool" where
  "varint_repr \<equiv> delta_repr (\<lambda>_. []) (\<lambda>t. t = 1) False"

abbreviation freq_repr :: "delta_reader \<Rightarrow> postings \<Rightarrow> nat \<Rightarrow> bool" where
  "freq_repr \<equiv> delta_repr freq_tail (\<lambda>t. t \<le> 255) True"

lemma varint_tf_one: "varint_repr r ps p \<Longrightarrow> q < length ps \<Longrightarrow> snd (ps ! q) = 1"
  by (auto simp: delta_repr_def)

interpretation varint: posting_reader varint_ops varint_repr
proof
  fix r ps p assume r: "varint_repr r ps p"
  note one = varint_tf_one [OF r]
  show "sorted_wrt (<) (map fst ps)" "p \<le> length ps" "\<And>x. x \<in> set ps \<Longrightarrow> fst x < 2 ^ 32" "length ps < 2 ^ 32"
    "rd_len varint_ops r = length ps" "rd_pos varint_ops r = p"
    using vc.basic_laws [OF r] by (simp_all add: varint_ops_def)
  show "\<exists>r'. rd_peek varint_ops r = Some (peeked ps p, r') \<and> varint_repr r' ps p"
    using vc.peek_law [OF r] by (auto simp: varint_ops_def)
  show "\<exists>r'. rd_next varint_ops r = Some (peeked ps p, r') \<and> varint_repr r' ps (min (Suc p) (length ps))"
    using vc.next_law [OF r] by (auto simp: varint_ops_def)
  show "\<exists>r'. rd_advance varint_ops r t = Some (peeked ps (adv ps p t), r') \<and> varint_repr r' ps (adv ps p t)" for t
    using vc.advance_law [OF r] by (auto simp: varint_ops_def)
  show "\<exists>r'. rd_tf varint_ops r = Some (if p < length ps then Some (snd (ps ! p)) else None, r') \<and> varint_repr r' ps p"
    using vc.peek_law [OF r] one by (auto simp: varint_ops_def default_tf_def peeked_def)
  show "\<exists>r'. rd_next_step varint_ops r = Some (if p < length ps then Some (ps ! p) else None, r')
      \<and> varint_repr r' ps (min (Suc p) (length ps))"
    using vc.next_law [OF r] one [of p]
    by (auto simp: varint_ops_def varint_next_step_def peeked_def prod_eq_iff)
qed

interpretation freq: posting_reader freq_ops freq_repr
proof
  fix r ps p assume r: "freq_repr r ps p"
  show "sorted_wrt (<) (map fst ps)" "p \<le> length ps" "\<And>x. x \<in> set ps \<Longrightarrow> fst x < 2 ^ 32" "length ps < 2 ^ 32"
    "rd_len freq_ops r = length ps" "rd_pos freq_ops r = p"
    using fc.basic_laws [OF r] by (simp_all add: freq_ops_def)
  show "\<exists>r'. rd_peek freq_ops r = Some (peeked ps p, r') \<and> freq_repr r' ps p"
    using fc.peek_law [OF r] by (auto simp: freq_ops_def)
  show "\<exists>r'. rd_next freq_ops r = Some (peeked ps p, r') \<and> freq_repr r' ps (min (Suc p) (length ps))"
    using fc.next_law [OF r] by (auto simp: freq_ops_def)
  show "\<exists>r'. rd_advance freq_ops r t = Some (peeked ps (adv ps p t), r') \<and> freq_repr r' ps (adv ps p t)" for t
    using fc.advance_law [OF r] by (auto simp: freq_ops_def)
  obtain r' where r': "delta_fill freq_tf r = Some r'" "freq_repr r' ps p"
    "dr_current r' = (if p < length ps then Some (ps ! p) else None)"
    using fc.fill_law [OF r] by blast
  then show "\<exists>r'. rd_tf freq_ops r = Some (if p < length ps then Some (snd (ps ! p)) else None, r') \<and> freq_repr r' ps p"
    by (auto simp: freq_ops_def freq_def)
  show "\<exists>r'. rd_next_step freq_ops r = Some (if p < length ps then Some (ps ! p) else None, r')
      \<and> freq_repr r' ps (min (Suc p) (length ps))"
  proof (cases "p < length ps")
    case True
    with r' fc.repr_consume [OF r'(2) True] show ?thesis by (auto simp: freq_ops_def freq_next_step_def)
  next
    case False
    with fc.basic_laws(2) [OF r] have "p = length ps" by simp
    with r' show ?thesis by (auto simp: freq_ops_def freq_next_step_def)
  qed
qed

lemma varint_encode_new:
  assumes "docs \<noteq> []" "sorted_wrt (<) docs" "\<forall>d\<in>set docs. d < 2 ^ 32" "length docs < 2 ^ 32"
  shows "encode_varint docs = Some (delta_buffer (\<lambda>_. []) False (map (\<lambda>d. (d, 1)) docs))"
    and "length (delta_buffer (\<lambda>_. []) False (map (\<lambda>d. (d, 1)) docs)) < 2 ^ 32 \<Longrightarrow>
      \<exists>r. varint_new (delta_buffer (\<lambda>_. []) False (map (\<lambda>d. (d, 1)) docs)) = Some r
        \<and> varint_repr r (map (\<lambda>d. (d, 1)) docs) 0"
  using encode_loop_buffer [of "map (\<lambda>d. (d, 1)) docs" "\<lambda>_. []" False] assms
    vc.new_law [of "map (\<lambda>d. (d, 1)) docs"]
  by (auto simp: encode_varint_def sorted_iff_assert case_prod_unfold Let_def varint_new_def entry_width_def o_def)

text \<open>The frequency byte saturates, so the buffer is that of the capped frequencies.\<close>

definition capped :: "postings \<Rightarrow> postings" where
  "capped ps = map (\<lambda>(d, t). (d, min t 255)) ps"

lemma capped_simps [simp]:
  "length (capped ps) = length ps" "map fst (capped ps) = map fst ps" "capped ps = [] \<longleftrightarrow> ps = []"
  by (simp_all add: capped_def case_prod_unfold o_def)

lemma stream_capped: "k \<le> length ps \<Longrightarrow> stream freq_tail (capped ps) k = stream freq_tail ps k"
proof -
  have "posting_code freq_tail (capped ps) i = posting_code freq_tail ps i" if "i < length ps" for i
    using that by (auto simp: posting_code_def delta_at_def capped_def freq_tail_def case_prod_unfold)
  then show "k \<le> length ps \<Longrightarrow> stream freq_tail (capped ps) k = stream freq_tail ps k"
    unfolding stream_def by (intro arg_cong [where f = concat] map_cong) auto
qed

lemma buffer_capped: "delta_buffer freq_tail True (capped ps) = delta_buffer freq_tail True ps"
proof -
  have "block_of (map fst ps) (off freq_tail (capped ps)) b = block_of (map fst ps) (off freq_tail ps) b"
    if "b < div_ceil (length ps) 128" for b
    using div_ceil_less_mult [of 128 b "length ps"] that
    by (simp add: block_of_def off_def stream_capped mult.commute)
  then have "blocks_of (map fst ps) (off freq_tail (capped ps)) = blocks_of (map fst ps) (off freq_tail ps)"
    by (simp add: blocks_of_def)
  then show ?thesis by (simp add: delta_buffer_def stream_capped)
qed

lemma freq_encode_new:
  assumes "docs \<noteq> []" "sorted_wrt (<) docs" "\<forall>d\<in>set docs. d < 2 ^ 32" "length docs < 2 ^ 32" "length tfs = length docs"
  shows "encode_freq_varint docs tfs = Some (delta_buffer freq_tail True (zip docs tfs))"
    and "length (delta_buffer freq_tail True (zip docs tfs)) < 2 ^ 32 \<Longrightarrow>
      \<exists>r. freq_new (delta_buffer freq_tail True (zip docs tfs)) = Some r \<and> freq_repr r (capped (zip docs tfs)) 0"
proof -
  have ne: "zip docs tfs \<noteq> []" using assms(1,5) by (cases docs; cases tfs) auto
  show "encode_freq_varint docs tfs = Some (delta_buffer freq_tail True (zip docs tfs))"
    using encode_loop_buffer [OF ne, of freq_tail True] assms ne
    by (simp add: encode_freq_varint_def sorted_iff_assert case_prod_unfold Let_def)
  show "\<exists>r. freq_new (delta_buffer freq_tail True (zip docs tfs)) = Some r \<and> freq_repr r (capped (zip docs tfs)) 0"
    if "length (delta_buffer freq_tail True (zip docs tfs)) < 2 ^ 32"
  proof -
    have "\<forall>x\<in>set (capped (zip docs tfs)). fst x < 2 ^ 32 \<and> snd x \<le> 255"
      using assms(3) by (auto simp: capped_def dest: set_zip_leftD)
    then show ?thesis
      using fc.new_law [of "capped (zip docs tfs)"] ne assms that
      by (simp add: buffer_capped freq_new_def entry_width_def)
  qed
qed

end
