(* ===== verification/Bit_Stream.thy ===== *)
theory Bit_Stream
  imports Prelude
begin

text \<open>
  LSB-first bit packing (\<open>crates/ic-stable-text-postings/src/enc/bitio.rs\<close>), shared by the
  frame-of-reference and Elias-Fano codecs. The 64-bit accumulator is a natural number with the
  bit operations of the source; the writer keeps it below \<open>2 ^ 39\<close>, and the truncation to 64 bits
  is written out. The specification of both sides is the list of bits of the stream.
\<close>

unbundle bit_operations_syntax

section \<open>Writer and reader\<close>

record bit_writer =
  bw_out :: bytes
  bw_acc :: nat
  bw_acc_bits :: nat

definition bw_new :: bit_writer where
  "bw_new = \<lparr>bw_out = [], bw_acc = 0, bw_acc_bits = 0\<rparr>"

function bw_flush :: "bytes \<Rightarrow> nat \<Rightarrow> nat \<Rightarrow> bit_writer" where
  "bw_flush out acc acc_bits =
     (if 8 \<le> acc_bits then bw_flush (out @ [word_of_nat (acc AND 255)]) (drop_bit 8 acc) (acc_bits - 8)
      else \<lparr>bw_out = out, bw_acc = acc, bw_acc_bits = acc_bits\<rparr>)"
  by pat_completeness auto
termination
  by (relation "measure (\<lambda>(_, _, n). n)") auto

declare bw_flush.simps [simp del]

definition bw_push :: "nat \<Rightarrow> nat \<Rightarrow> bit_writer \<Rightarrow> bit_writer" where
  "bw_push value bits w =
     bw_flush (bw_out w) (bw_acc w OR take_bit 64 (push_bit (bw_acc_bits w) value)) (bw_acc_bits w + bits)"

definition bw_finish :: "bit_writer \<Rightarrow> bytes" where
  "bw_finish w = (if 0 < bw_acc_bits w then bw_out w @ [word_of_nat (bw_acc w AND 255)] else bw_out w)"

record bit_reader =
  br_data :: bytes
  br_pos :: nat

definition br_new :: "bytes \<Rightarrow> bit_reader" where
  "br_new data = \<lparr>br_data = data, br_pos = 0\<rparr>"

definition seek_bits :: "nat \<Rightarrow> bit_reader \<Rightarrow> bit_reader" where
  "seek_bits pos r = r\<lparr>br_pos := pos\<rparr>"

fun br_read_loop :: "bytes \<Rightarrow> nat \<Rightarrow> nat list \<Rightarrow> nat \<Rightarrow> (nat \<times> nat) option" where
  "br_read_loop data pos [] v = Some (v, pos)"
| "br_read_loop data pos (i # is) v = do {
     byte \<leftarrow> get data (drop_bit 3 pos);
     let b = (drop_bit (pos AND 7) (unat byte)) AND 1;
     br_read_loop data (pos + 1) is (v OR push_bit i b) }"

definition br_read :: "nat \<Rightarrow> bit_reader \<Rightarrow> (nat \<times> bit_reader) option" where
  "br_read bits r = do {
     (v, pos) \<leftarrow> br_read_loop (br_data r) (br_pos r) [0..<bits] 0;
     Some (take_bit 32 v, r\<lparr>br_pos := pos\<rparr>) }"

section \<open>The stream of bits\<close>

definition value_bits :: "nat \<Rightarrow> nat \<Rightarrow> bool list" where
  "value_bits w v = map (bit v) [0..<w]"

definition byte_bits :: "bytes \<Rightarrow> bool list" where
  "byte_bits bs = concat (map (\<lambda>b. map (bit b) [0..<8]) bs)"

lemma length_value_bits [simp]: "length (value_bits w v) = w"
  by (simp add: value_bits_def)

lemma byte_bits_simps [simp]:
  "byte_bits [] = []" "byte_bits (b # bs) = map (bit b) [0..<8] @ byte_bits bs"
  "byte_bits (as @ bs) = byte_bits as @ byte_bits bs"
  by (simp_all add: byte_bits_def)

lemma length_byte_bits [simp]: "length (byte_bits bs) = 8 * length bs"
  by (induction bs) simp_all

lemma byte_bits_nth:
  assumes "i < 8 * length bs"
  shows "byte_bits bs ! i = bit (bs ! (i div 8)) (i mod 8)"
  using assms
proof (induction bs arbitrary: i)
  case (Cons b bs)
  show ?case
  proof (cases "i < 8")
    case True
    then show ?thesis by (simp add: nth_append)
  next
    case False
    then obtain j where j: "i = j + 8" by (metis add.commute le_Suc_ex not_less)
    then have "byte_bits (b # bs) ! i = byte_bits bs ! j" by (simp add: nth_append)
    also have "byte_bits bs ! j = bit (bs ! (j div 8)) (j mod 8)" using Cons j by (intro Cons.IH) simp
    finally have "byte_bits (b # bs) ! i = bit (bs ! (j div 8)) (j mod 8)" .
    moreover have "(j + 8) div 8 = Suc (j div 8)" "(j + 8) mod 8 = j mod 8" by simp_all
    ultimately show ?thesis by (simp only: j nth_Cons_Suc)
  qed
qed simp

lemma bits_below: "(v::nat) < 2 ^ w \<Longrightarrow> w \<le> n \<Longrightarrow> \<not> bit v n"
  by (metis bit_take_bit_iff not_le take_bit_nat_eq_self)

text \<open>The writer's bits: the whole bytes and the accumulated rest.\<close>

definition bw_bits :: "bit_writer \<Rightarrow> bool list" where
  "bw_bits w = byte_bits (bw_out w) @ value_bits (bw_acc_bits w) (bw_acc w)"

definition bw_ok :: "bit_writer \<Rightarrow> bool" where
  "bw_ok w = (bw_acc w < 2 ^ bw_acc_bits w \<and> bw_acc_bits w < 8)"

lemma byte_of_acc: "map (bit (word_of_nat (acc AND 255) :: u8)) [0..<8] = value_bits 8 acc"
proof -
  have "(255::nat) = mask 8" by (simp add: mask_eq_exp_minus_1)
  then have "acc AND 255 = take_bit 8 acc" by (simp add: take_bit_eq_mask)
  then show ?thesis by (auto simp: value_bits_def bit_of_nat_iff bit_take_bit_iff)
qed

lemma value_bits_split: "value_bits (m + n) v = value_bits m v @ value_bits n (drop_bit m v)"
  by (rule nth_equalityI) (auto simp: value_bits_def nth_append bit_drop_bit_eq)

lemma bw_flush_bits:
  "acc < 2 ^ n \<Longrightarrow> bw_bits (bw_flush out acc n) = byte_bits out @ value_bits n acc \<and> bw_ok (bw_flush out acc n)"
proof (induction out acc n rule: bw_flush.induct)
  case (1 out acc n)
  show ?case
  proof (cases "8 \<le> n")
    case True
    then have p: "(2::nat) ^ n = 2 ^ 8 * 2 ^ (n - 8)" by (metis le_add_diff_inverse power_add)
    have "drop_bit 8 acc < 2 ^ (n - 8)"
      using "1.prems" p by (simp add: drop_bit_eq_div less_mult_imp_div_less mult.commute)
    from "1.IH" [OF True this] show ?thesis
      using True value_bits_split [of 8 "n - 8" acc]
      by (subst (1 2) bw_flush.simps) (simp add: byte_of_acc)
  next
    case False
    then show ?thesis using "1.prems" by (subst (1 2) bw_flush.simps) (simp add: bw_bits_def bw_ok_def)
  qed
qed

lemma or_push_less:
  fixes acc v :: nat
  assumes "acc < 2 ^ k" "v < 2 ^ w"
  shows "acc OR push_bit k v < 2 ^ (k + w)"
proof -
  have "acc < 2 ^ (k + w)" using assms(1) by (rule less_le_trans) simp
  moreover have "push_bit k v < 2 ^ (k + w)" using assms(2) by (simp add: push_bit_eq_mult power_add)
  ultimately show ?thesis by (simp add: take_bit_nat_eq_self_iff [symmetric])
qed

lemma bw_push_bits:
  assumes "bw_ok w" "value < 2 ^ bits" "bits \<le> 32"
  shows "bw_bits (bw_push value bits w) = bw_bits w @ value_bits bits value" "bw_ok (bw_push value bits w)"
proof -
  let ?k = "bw_acc_bits w"
  have ok: "bw_acc w < 2 ^ ?k" "?k < 8" using assms(1) by (auto simp: bw_ok_def)
  have "push_bit ?k value < 2 ^ (bits + ?k)" using assms(2) by (simp add: push_bit_eq_mult power_add)
  also have "\<dots> \<le> (2::nat) ^ 64" using assms(3) ok(2) by (intro power_increasing) auto
  finally have t: "take_bit 64 (push_bit ?k value) = push_bit ?k value" by (simp add: take_bit_nat_eq_self)
  have less: "bw_acc w OR push_bit ?k value < 2 ^ (?k + bits)" using or_push_less ok(1) assms(2) by blast
  have "value_bits (?k + bits) (bw_acc w OR push_bit ?k value) = value_bits ?k (bw_acc w) @ value_bits bits value"
    using bits_below [OF ok(1)] bits_below [OF assms(2)]
    by (intro nth_equalityI) (auto simp: value_bits_def nth_append bit_or_iff bit_push_bit_iff)
  with bw_flush_bits [OF less, of "bw_out w"]
  show "bw_bits (bw_push value bits w) = bw_bits w @ value_bits bits value" "bw_ok (bw_push value bits w)"
    by (simp_all add: bw_push_def t bw_bits_def)
qed

text \<open>Finishing pads with zero bits to a whole byte.\<close>

lemma bw_finish_bits:
  assumes "bw_ok w"
  shows "\<exists>pad. byte_bits (bw_finish w) = bw_bits w @ pad"
proof (cases "bw_acc_bits w = 0")
  case False
  have "value_bits 8 (bw_acc w) = value_bits (bw_acc_bits w) (bw_acc w)
      @ value_bits (8 - bw_acc_bits w) (drop_bit (bw_acc_bits w) (bw_acc w))"
    using value_bits_split [of "bw_acc_bits w" "8 - bw_acc_bits w" "bw_acc w"] assms by (simp add: bw_ok_def)
  with False show ?thesis by (simp add: bw_finish_def bw_bits_def byte_of_acc)
qed (simp add: bw_finish_def bw_bits_def value_bits_def)

lemma length_bw_finish:
  assumes "bw_ok w"
  shows "length (bw_finish w) = div_ceil (length (bw_bits w)) 8"
proof (cases "bw_acc_bits w")
  case 0
  then show ?thesis by (simp add: bw_finish_def bw_bits_def div_ceil_def)
next
  case (Suc k)
  moreover have "bw_acc_bits w < 8" using assms by (simp add: bw_ok_def)
  ultimately show ?thesis by (simp add: bw_finish_def bw_bits_def div_ceil_def)
qed

section \<open>Reading back\<close>

lemma br_read_loop_value:
  "take n (drop pos (byte_bits data)) = value_bits n x \<Longrightarrow> pos + n \<le> 8 * length data \<Longrightarrow>
   br_read_loop data pos [k..<k + n] v = Some (v OR push_bit k (take_bit n x), pos + n)"
proof (induction n arbitrary: pos k x v)
  case (Suc n)
  have pos: "pos < 8 * length data" using Suc.prems(2) by simp
  then have pd: "pos div 8 < length data" by (simp add: div_less_iff_less_mult mult.commute)
  have split: "take (Suc n) (drop pos (byte_bits data)) = byte_bits data ! pos # take n (drop (Suc pos) (byte_bits data))"
    using pos by (simp add: take_Suc_conv_app_nth Cons_nth_drop_Suc [symmetric])
  have xs: "value_bits (Suc n) x = bit x 0 # value_bits n (x div 2)"
    using value_bits_split [of 1 n x] by (simp add: value_bits_def drop_bit_eq_div)
  have b0: "bit (data ! (pos div 8)) (pos mod 8) = odd x"
    and rest: "take n (drop (Suc pos) (byte_bits data)) = value_bits n (x div 2)"
    using Suc.prems(1) split xs byte_bits_nth [OF pos] by (simp_all add: bit_0)
  have p7: "pos AND 7 = pos mod 8" and p3: "drop_bit 3 pos = pos div 8"
    using take_bit_eq_mask [of 3 pos] by (simp_all add: take_bit_eq_mod mask_eq_exp_minus_1 drop_bit_eq_div)
  have byte: "drop_bit (pos mod 8) (unat (data ! (pos div 8))) mod 2 = of_bool (odd x)"
    using b0 by (simp add: and_one_eq mod_2_eq_odd bit_iff_odd_drop_bit [symmetric] bit_unsigned_iff)
  have IH: "br_read_loop data (Suc pos) [Suc k..<Suc k + n] (v OR push_bit k (of_bool (odd x)))
      = Some ((v OR push_bit k (of_bool (odd x))) OR push_bit (Suc k) (take_bit n (x div 2)), Suc pos + n)"
    by (rule Suc.IH [OF rest]) (use Suc.prems(2) in simp)
  have or: "(v OR push_bit k (of_bool (odd x))) OR push_bit (Suc k) (take_bit n (x div 2)) = v OR push_bit k (take_bit (Suc n) x)"
  proof (rule bit_eqI)
    fix i show "bit ((v OR push_bit k (of_bool (odd x))) OR push_bit (Suc k) (take_bit n (x div 2))) i
        = bit (v OR push_bit k (take_bit (Suc n) x)) i"
      by (cases "k \<le> i"; cases "i - k")
        (auto simp: bit_or_iff bit_push_bit_iff bit_take_bit_iff bit_0 bit_of_bool_iff Suc_le_eq diff_Suc simp del: push_bit_Suc simp flip: bit_Suc)
  qed
  have step: "br_read_loop data pos (k # is) v = br_read_loop data (Suc pos) is (v OR push_bit k (of_bool (odd x)))" for "is"
    by (simp add: index_def pd p7 p3 byte Let_def)
  have "[k..<k + Suc n] = k # [Suc k..<Suc k + n]" by (simp add: upt_rec [of k])
  then have "br_read_loop data pos [k..<k + Suc n] v
      = Some ((v OR push_bit k (of_bool (odd x))) OR push_bit (Suc k) (take_bit n (x div 2)), Suc pos + n)"
    by (simp only: step IH)
  then show ?case unfolding or by simp
qed (simp add: value_bits_def)

lemma br_read_value:
  assumes "take n (drop (br_pos r) (byte_bits (br_data r))) = value_bits n x" "br_pos r + n \<le> 8 * length (br_data r)"
    and "x < 2 ^ n" "n \<le> 32"
  shows "br_read n r = Some (x, r\<lparr>br_pos := br_pos r + n\<rparr>)"
proof -
  have "x < 2 ^ 32" using assms(3,4) by (meson less_le_trans one_le_numeral power_increasing)
  then show ?thesis
    using br_read_loop_value [OF assms(1,2), of 0 0] assms(3) by (simp add: br_read_def take_bit_nat_eq_self)
qed

end
