(* ===== verification/Frame_Codec.thy ===== *)
theory Frame_Codec
  imports Posting_Reader Skip_Index Bit_Stream
begin

text \<open>
  The frame-of-reference codec (\<open>crates/ic-stable-text-postings/src/enc/frame.rs\<close>): blocks of 128
  docids stored as a base and bit-packed differences. \<open>u32\<close> values are naturals below \<open>2 ^ 32\<close>, a
  panic is \<open>None\<close>. \<open>chunks\<close>, \<open>leading_zeros\<close> and \<open>partition_point\<close> are the standard-library functions
  of those names; \<open>partition_point\<close> is called on a partitioned slice only.
\<close>

section \<open>Standard-library functions\<close>

function chunks :: "nat \<Rightarrow> 'a list \<Rightarrow> 'a list list" where
  "chunks k xs = (if xs = [] \<or> k = 0 then [] else take k xs # chunks k (drop k xs))"
  by pat_completeness auto
termination
  by (relation "measure (\<lambda>(_, xs). length xs)") auto

declare chunks.simps [simp del]

definition leading_zeros :: "nat \<Rightarrow> nat" where
  "leading_zeros v = length (takeWhile (\<lambda>i. \<not> bit v i) (rev [0..<32]))"

definition partition_point :: "('a \<Rightarrow> bool) \<Rightarrow> 'a list \<Rightarrow> nat" where
  "partition_point P xs = length (takeWhile P xs)"

section \<open>Encoder\<close>

definition FOR_BLOCK_SIZE :: nat where "FOR_BLOCK_SIZE = 128"

definition block_bits :: "nat list \<Rightarrow> nat" where
  "block_bits block = (let span = block ! (length block - 1) - block ! 0 in
     if span = 0 then 0 else 32 - leading_zeros span)"

definition block_payload :: "nat list \<Rightarrow> bytes" where
  "block_payload block = bw_finish (fold (\<lambda>v. bw_push (v - block ! 0) (block_bits block)) block bw_new)"

definition for_block_step :: "nat list \<Rightarrow> bytes \<times> nat list \<times> bytes \<Rightarrow> bytes \<times> nat list \<times> bytes" where
  "for_block_step block = (\<lambda>(descriptors, offsets, payload).
     (descriptors @ to_le 4 (block ! 0) @ [word_of_nat (block_bits block)],
      offsets @ [length payload mod 2 ^ 32], payload @ block_payload block))"

definition encode_frame_of_reference :: "nat list \<Rightarrow> bytes option" where
  "encode_frame_of_reference docs = (if assert_strictly_increasing docs
     then let block_count = div_ceil (length docs) FOR_BLOCK_SIZE;
              (descriptors, offsets, payload) = fold for_block_step (chunks FOR_BLOCK_SIZE docs) ([], [], [])
          in Some (to_le 4 (length docs) @ to_le 4 block_count @ descriptors
               @ concat (map (to_le 4) (offsets @ [length payload mod 2 ^ 32])) @ payload)
     else None)"

section \<open>Reader\<close>

definition read_u32 :: "bytes \<Rightarrow> nat \<Rightarrow> nat option" where
  "read_u32 data offset = map_option from_le (subslice data offset (offset + 4))"

record for_reader =
  fr_data :: bytes
  fr_header_end :: nat
  fr_count :: nat
  fr_bases :: "nat list"
  fr_widths :: "nat list"
  fr_offsets :: "nat list"
  fr_pos :: nat
  fr_cached_block :: nat
  fr_cache :: "nat list"

definition for_new :: "bytes \<Rightarrow> for_reader option" where
  "for_new data = do {
     guard (8 \<le> length data);
     count \<leftarrow> read_u32 data 0;
     block_count \<leftarrow> read_u32 data 4;
     guard (\<not> (block_count = 0 \<or> count \<le> (block_count - 1) * FOR_BLOCK_SIZE));
     let offs_start = 8 + block_count * 5;
     let header_end = offs_start + (block_count + 1) * 4;
     guard (header_end \<le> length data);
     bases \<leftarrow> those (map (\<lambda>b. read_u32 data (8 + b * 5)) [0..<block_count]);
     widths \<leftarrow> those (map (\<lambda>b. map_option unat (get data (8 + b * 5 + 4))) [0..<block_count]);
     offsets \<leftarrow> those (map (\<lambda>b. read_u32 data (offs_start + b * 4)) [0..<block_count + 1]);
     Some \<lparr>fr_data = data, fr_header_end = header_end, fr_count = count, fr_bases = bases,
           fr_widths = widths, fr_offsets = offsets, fr_pos = 0, fr_cached_block = 2 ^ 32 - 1, fr_cache = []\<rparr> }"

fun read_values :: "nat \<Rightarrow> nat \<Rightarrow> nat \<Rightarrow> bit_reader \<Rightarrow> nat list option" where
  "read_values 0 width base r = Some []"
| "read_values (Suc n) width base r = do {
     (v, r') \<leftarrow> br_read width r;
     vs \<leftarrow> read_values n width base r';
     Some ((base + v) mod 2 ^ 32 # vs) }"

definition ensure_block :: "for_reader \<Rightarrow> nat \<Rightarrow> for_reader option" where
  "ensure_block r b = (if fr_cached_block r = b then Some r else do {
     o1 \<leftarrow> get (fr_offsets r) b;
     o2 \<leftarrow> get (fr_offsets r) (b + 1);
     sl \<leftarrow> subslice (fr_data r) (fr_header_end r + o1) (fr_header_end r + o2);
     let elems = (if b = length (fr_bases r) - 1 then fr_count r - (length (fr_bases r) - 1) * FOR_BLOCK_SIZE
                  else FOR_BLOCK_SIZE);
     base \<leftarrow> get (fr_bases r) b;
     width \<leftarrow> get (fr_widths r) b;
     cache \<leftarrow> read_values elems width base (br_new sl);
     Some (r\<lparr>fr_cached_block := b, fr_cache := cache\<rparr>) })"

definition for_peek :: "for_reader \<Rightarrow> (nat option \<times> for_reader) option" where
  "for_peek r = (if fr_count r \<le> fr_pos r then Some (None, r) else do {
     r' \<leftarrow> ensure_block r (fr_pos r div FOR_BLOCK_SIZE);
     v \<leftarrow> get (fr_cache r') (fr_pos r mod FOR_BLOCK_SIZE);
     Some (Some v, r') })"

definition for_next :: "for_reader \<Rightarrow> (nat option \<times> for_reader) option" where
  "for_next r = do {
     (v, r') \<leftarrow> for_peek r;
     Some (v, if v \<noteq> None then r'\<lparr>fr_pos := fr_pos r' + 1\<rparr> else r') }"

partial_function (option) locate_loop ::
  "for_reader \<Rightarrow> nat \<Rightarrow> nat \<Rightarrow> nat \<Rightarrow> ((nat \<times> nat) option \<times> for_reader) option" where
  "locate_loop r target frontier_block block = do {
     r' \<leftarrow> ensure_block r block;
     let start = (if block = frontier_block then fr_pos r' mod FOR_BLOCK_SIZE else 0);
     case find (\<lambda>i. target \<le> fr_cache r' ! i) [start..<length (fr_cache r')] of
       Some i \<Rightarrow> Some (Some (block * FOR_BLOCK_SIZE + i, fr_cache r' ! i), r')
     | None \<Rightarrow> (if length (fr_bases r') \<le> block + 1 then Some (None, r')
         else locate_loop r' target frontier_block (block + 1)) }"

definition locate :: "for_reader \<Rightarrow> nat \<Rightarrow> ((nat \<times> nat) option \<times> for_reader) option" where
  "locate r target = do {
     (current, r') \<leftarrow> for_peek r;
     case current of
       Some v \<Rightarrow> (if target \<le> v then Some (Some (fr_pos r', v), r')
         else if fr_count r' \<le> fr_pos r' then Some (None, r')
         else locate_loop r' target (fr_pos r' div FOR_BLOCK_SIZE)
                (max (partition_point (\<lambda>base. base \<le> target) (fr_bases r') - 1) (fr_pos r' div FOR_BLOCK_SIZE)))
     | None \<Rightarrow> (if fr_count r' \<le> fr_pos r' then Some (None, r')
         else locate_loop r' target (fr_pos r' div FOR_BLOCK_SIZE)
                (max (partition_point (\<lambda>base. base \<le> target) (fr_bases r') - 1) (fr_pos r' div FOR_BLOCK_SIZE))) }"

definition for_advance :: "for_reader \<Rightarrow> nat \<Rightarrow> (nat option \<times> for_reader) option" where
  "for_advance r target = do {
     (found, r') \<leftarrow> locate r target;
     case found of
       Some (at_pos, value) \<Rightarrow> Some (Some value, r'\<lparr>fr_pos := at_pos\<rparr>)
     | None \<Rightarrow> Some (None, r'\<lparr>fr_pos := fr_count r'\<rparr>) }"

definition for_ops :: "for_reader reader_ops" where
  "for_ops = \<lparr>rd_len = fr_count, rd_pos = fr_pos, rd_peek = for_peek, rd_next = for_next,
     rd_advance = for_advance, rd_tf = default_tf for_peek,
     rd_next_step = default_next_step for_next (default_tf for_peek)\<rparr>"

section \<open>Lemmas: chunks and widths\<close>

lemma length_chunks: "0 < k \<Longrightarrow> length (chunks k xs) = div_ceil (length xs) k"
proof (induction k xs rule: chunks.induct)
  case (1 k xs)
  show ?case
  proof (cases "xs = []")
    case False
    then have "length (chunks k xs) = Suc (div_ceil (length xs - k) k)"
      using 1 by (subst chunks.simps) simp
    also have "\<dots> = div_ceil (length xs) k"
    proof (cases "length xs \<le> k")
      case True
      then show ?thesis using False "1.prems" by (cases "length xs = k") (auto simp: div_ceil_def)
    next
      case big: False
      then show ?thesis using "1.prems" by (auto simp: div_ceil_def le_div_geq le_mod_geq)
    qed
    finally show ?thesis .
  qed (simp add: chunks.simps div_ceil_def)
qed

lemma chunks_nth: "0 < k \<Longrightarrow> b < length (chunks k xs) \<Longrightarrow> chunks k xs ! b = take k (drop (b * k) xs)"
proof (induction k xs arbitrary: b rule: chunks.induct)
  case (1 k xs)
  show ?case
  proof (cases "xs = []")
    case True
    with "1.prems" show ?thesis by (simp add: chunks.simps)
  next
    case False
    have c: "chunks k xs = take k xs # chunks k (drop k xs)" using False "1.prems" by (subst chunks.simps) simp
    show ?thesis
    proof (cases b)
      case (Suc b')
      with 1 False c show ?thesis by (simp add: add.commute)
    qed (simp add: c)
  qed
qed

lemma chunks_eq_map: "0 < k \<Longrightarrow> chunks k xs = map (\<lambda>b. take k (drop (b * k) xs)) [0..<div_ceil (length xs) k]"
  by (rule nth_equalityI) (simp_all add: length_chunks chunks_nth)

lemma leading_zeros_bound:
  assumes "v < 2 ^ 32"
  shows "v < 2 ^ (32 - leading_zeros v)" "leading_zeros v \<le> 32"
proof -
  let ?ks = "rev [0..<32] :: nat list"
  show le: "leading_zeros v \<le> 32"
    using length_takeWhile_le [of "\<lambda>i. \<not> bit v i" ?ks] by (simp add: leading_zeros_def)
  have "\<not> bit v i" if "32 - leading_zeros v \<le> i" for i
  proof (cases "i < 32")
    case True
    then have "31 - i < leading_zeros v" using that by linarith
    then have "?ks ! (31 - i) \<in> set (takeWhile (\<lambda>i. \<not> bit v i) ?ks)"
      unfolding leading_zeros_def by (metis nth_mem takeWhile_nth)
    moreover have "?ks ! (31 - i) = i" using True by (simp add: rev_nth)
    ultimately show ?thesis by (auto dest: set_takeWhileD)
  next
    case False
    with assms show ?thesis using bit_take_bit_iff [of 32 v i] by (simp add: take_bit_nat_eq_self)
  qed
  then have "take_bit (32 - leading_zeros v) v = v"
    by (intro bit_eqI) (meson bit_take_bit_iff not_le)
  then show "v < 2 ^ (32 - leading_zeros v)" by (simp add: take_bit_nat_eq_self_iff)
qed

section \<open>Lemmas: one block\<close>

lemma fold_push_bits:
  assumes "\<forall>v\<in>set vs. f v < 2 ^ w" "w \<le> 32" "bw_ok bw"
  shows "bw_bits (fold (\<lambda>v. bw_push (f v) w) vs bw) = bw_bits bw @ concat (map (\<lambda>v. value_bits w (f v)) vs)"
    "bw_ok (fold (\<lambda>v. bw_push (f v) w) vs bw)"
  using assms by (induction vs arbitrary: bw) (simp_all add: bw_push_bits)

lemma read_values_bits:
  assumes "byte_bits (br_data r) = pre @ concat (map (value_bits w) vs) @ pad" "br_pos r = length pre"
    "\<forall>v\<in>set vs. v < 2 ^ w" "w \<le> 32"
  shows "read_values (length vs) w base r = Some (map (\<lambda>v. (base + v) mod 2 ^ 32) vs)"
  using assms
proof (induction vs arbitrary: r pre)
  case (Cons v vs)
  have len: "8 * length (br_data r) = length (byte_bits (br_data r))" by simp
  have "br_read w r = Some (v, r\<lparr>br_pos := br_pos r + w\<rparr>)"
    using Cons.prems by (intro br_read_value) (simp_all add: len del: length_byte_bits)
  moreover have "read_values (length vs) w base (r\<lparr>br_pos := br_pos r + w\<rparr>) = Some (map (\<lambda>v. (base + v) mod 2 ^ 32) vs)"
    using Cons.prems by (intro Cons.IH [of _ "pre @ value_bits w v"]) simp_all
  ultimately show ?case by simp
qed simp

lemma sorted_ends:
  assumes "sorted_wrt (<) (xs :: nat list)" "v \<in> set xs"
  shows "xs ! 0 \<le> v" "v \<le> xs ! (length xs - 1)"
proof -
  obtain i where i: "i < length xs" "v = xs ! i" using assms(2) by (auto simp: in_set_conv_nth)
  show "xs ! 0 \<le> v" using i sorted_wrt_nth_less [OF assms(1), of 0 i] by (cases "i = 0") auto
  show "v \<le> xs ! (length xs - 1)"
    using i sorted_wrt_nth_less [OF assms(1), of i "length xs - 1"]
    by (cases "i = length xs - 1") (auto simp: less_imp_le)
qed

lemma block_bits_bound:
  assumes "sorted_wrt (<) block" "\<forall>v\<in>set block. v < 2 ^ 32"
  shows "v \<in> set block \<Longrightarrow> v - block ! 0 < 2 ^ block_bits block" "block_bits block \<le> 32"
proof -
  let ?s = "block ! (length block - 1) - block ! 0"
  show "block_bits block \<le> 32" by (simp add: block_bits_def Let_def)
  assume v: "v \<in> set block"
  note e = sorted_ends [OF assms(1) v]
  show "v - block ! 0 < 2 ^ block_bits block"
  proof (cases "?s = 0")
    case True
    with e show ?thesis by (simp add: block_bits_def)
  next
    case False
    have "block \<noteq> []" using v by auto
    then have "block ! (length block - 1) < 2 ^ 32" using assms(2) by simp
    then have "?s < 2 ^ 32" by linarith
    from leading_zeros_bound(1) [OF this] False have "?s < 2 ^ block_bits block" by (simp add: block_bits_def Let_def)
    moreover have "v - block ! 0 \<le> ?s" using e by simp
    ultimately show ?thesis by (rule le_less_trans [rotated])
  qed
qed

lemma block_payload_read:
  assumes "sorted_wrt (<) block" "\<forall>v\<in>set block. v < 2 ^ 32"
  shows "read_values (length block) (block_bits block) (block ! 0) (br_new (block_payload block)) = Some block"
proof -
  let ?w = "block_bits block" and ?f = "\<lambda>v. v - block ! 0"
  have f: "\<forall>v\<in>set block. ?f v < 2 ^ ?w" and w: "?w \<le> 32" using block_bits_bound [OF assms] by auto
  have "bw_ok bw_new" "bw_bits bw_new = []" by (simp_all add: bw_ok_def bw_new_def bw_bits_def value_bits_def)
  with fold_push_bits [OF f w, of bw_new]
  have "bw_bits (fold (\<lambda>v. bw_push (?f v) ?w) block bw_new) = concat (map (value_bits ?w) (map ?f block))"
    "bw_ok (fold (\<lambda>v. bw_push (?f v) ?w) block bw_new)" by (simp_all add: o_def)
  with bw_finish_bits obtain pad where
    "byte_bits (block_payload block) = concat (map (value_bits ?w) (map ?f block)) @ pad"
    unfolding block_payload_def by metis
  then have "read_values (length (map ?f block)) ?w (block ! 0) (br_new (block_payload block))
      = Some (map (\<lambda>v. (block ! 0 + v) mod 2 ^ 32) (map ?f block))"
    using f w by (intro read_values_bits [of _ "[]" _ _ pad]) (auto simp: br_new_def)
  moreover have "map (\<lambda>v. (block ! 0 + v) mod 2 ^ 32) (map ?f block) = block"
    using sorted_ends(1) [OF assms(1)] assms(2) by (auto intro!: map_idI)
  ultimately show ?thesis by simp
qed

section \<open>Lemmas: the buffer\<close>

definition for_blocks :: "nat list \<Rightarrow> nat list list" where
  "for_blocks docs = chunks FOR_BLOCK_SIZE docs"

definition for_descriptor :: "nat list \<Rightarrow> bytes" where
  "for_descriptor block = to_le 4 (block ! 0) @ [word_of_nat (block_bits block)]"

definition for_offset :: "nat list \<Rightarrow> nat \<Rightarrow> nat" where
  "for_offset docs b = length (concat (map block_payload (take b (for_blocks docs))))"

definition for_buffer :: "nat list \<Rightarrow> bytes" where
  "for_buffer docs = to_le 4 (length docs) @ to_le 4 (length (for_blocks docs))
     @ concat (map for_descriptor (for_blocks docs))
     @ concat (map (\<lambda>b. to_le 4 (for_offset docs b mod 2 ^ 32)) [0..<length (for_blocks docs) + 1])
     @ concat (map block_payload (for_blocks docs))"

lemma for_block_step_apply:
  "for_block_step c (d, o1, p) = (d @ for_descriptor c, o1 @ [length p mod 2 ^ 32], p @ block_payload c)"
  by (simp add: for_block_step_def for_descriptor_def)

lemma fold_for_block_step:
  "fold for_block_step cs (d, o1, p) = (d @ concat (map for_descriptor cs),
     o1 @ map (\<lambda>i. (length p + length (concat (map block_payload (take i cs)))) mod 2 ^ 32) [0..<length cs],
     p @ concat (map block_payload cs))"
proof (induction cs arbitrary: d o1 p)
  case (Cons c cs)
  have "map (\<lambda>i. (length p + length (concat (map block_payload (take i (c # cs))))) mod 2 ^ 32) [0..<length (c # cs)]
    = length p mod 2 ^ 32 # map (\<lambda>i. (length (p @ block_payload c) + length (concat (map block_payload (take i cs)))) mod 2 ^ 32)
        [0..<length cs]"
    by (simp del: upt_Suc add: upt_conv_Cons map_Suc_upt [symmetric] o_def add.assoc)
  then show ?case by (simp del: upt_Suc add: Cons.IH for_block_step_apply)
qed simp

lemma encode_for_buffer:
  "assert_strictly_increasing docs \<Longrightarrow> encode_frame_of_reference docs = Some (for_buffer docs)"
  by (simp add: encode_frame_of_reference_def for_buffer_def for_blocks_def fold_for_block_step Let_def
      length_chunks FOR_BLOCK_SIZE_def for_offset_def o_def)

definition for_header_end :: "nat \<Rightarrow> nat" where
  "for_header_end B = 8 + B * 5 + (B + 1) * 4"

lemma read_u32_eq: "read_u32 = read_u32_le"
  by (simp add: fun_eq_iff read_u32_def read_u32_le_def)

lemma index_field:
  assumes "i < length xs" "\<And>x. x \<in> set xs \<Longrightarrow> length (f x) = w" "a < w"
  shows "get (pre @ concat (map f xs) @ post) (length pre + i * w + a) = get (f (xs ! i)) a"
proof -
  have len: "length (concat (map f (take i xs))) = i * w"
    using assms(1) length_concat_const [of "take i xs" f w] assms(2) by (auto dest: in_set_takeD)
  have "length (f (xs ! i)) = w" using assms(1,2) by simp
  then show ?thesis
    using concat_split [OF assms(1), of f] assms(3) len by (auto simp: index_def nth_append add.assoc)
qed

lemma length_for_descriptor: "length (for_descriptor block) = 5"
  by (simp add: for_descriptor_def)

lemma length_for_tables:
  "length (concat (map for_descriptor cs)) = length cs * 5"
  "length (concat (map (\<lambda>b. to_le 4 (g b)) xs)) = length xs * 4"
  using length_concat_const [of cs for_descriptor 5] length_concat_const [of xs "\<lambda>b. to_le 4 (g b)" 4]
  by (simp_all add: length_for_descriptor)

lemma length_for_blocks: "length (for_blocks docs) = div_ceil (length docs) 128"
  by (simp add: for_blocks_def length_chunks FOR_BLOCK_SIZE_def)

lemma for_blocks_nth: "b < length (for_blocks docs) \<Longrightarrow> for_blocks docs ! b = take 128 (drop (b * 128) docs)"
  by (simp add: for_blocks_def chunks_nth FOR_BLOCK_SIZE_def)

lemma for_block_start: "b < length (for_blocks docs) \<longleftrightarrow> b * 128 < length docs"
  using div_ceil_less_mult [of 128 b "length docs"] by (simp add: length_for_blocks)

lemma for_block_facts:
  assumes "b < length (for_blocks docs)" "sorted_wrt (<) docs" "\<forall>d\<in>set docs. d < 2 ^ 32"
  shows "sorted_wrt (<) (for_blocks docs ! b)" "\<forall>v\<in>set (for_blocks docs ! b). v < 2 ^ 32"
    "length (for_blocks docs ! b) = min 128 (length docs - b * 128)"
    "i < length (for_blocks docs ! b) \<Longrightarrow> for_blocks docs ! b ! i = docs ! (b * 128 + i)"
  using assms for_block_start [of b docs]
  by (auto simp: for_blocks_nth sorted_wrt_take sorted_wrt_drop dest: in_set_takeD in_set_dropD)

lemma for_offset_le:
  assumes "b \<le> length (for_blocks docs)"
  shows "for_offset docs b \<le> length (for_buffer docs)"
proof -
  have "concat (map block_payload (for_blocks docs))
      = concat (map block_payload (take b (for_blocks docs))) @ concat (map block_payload (drop b (for_blocks docs)))"
    by (metis append_take_drop_id concat_append map_append)
  then show ?thesis by (simp add: for_offset_def for_buffer_def)
qed

text \<open>Lists whose buffer the reader is specified for.\<close>

definition for_ok :: "nat list \<Rightarrow> bool" where
  "for_ok docs = (docs \<noteq> [] \<and> sorted_wrt (<) docs \<and> (\<forall>d\<in>set docs. d < 2 ^ 32)
     \<and> length docs < 2 ^ 32 \<and> length (for_buffer docs) < 2 ^ 32)"

lemma for_count_pos:
  assumes "for_ok docs"
  shows "0 < length (for_blocks docs)" "(length (for_blocks docs) - 1) * 128 < length docs"
proof -
  show p: "0 < length (for_blocks docs)" using assms for_block_start [of 0 docs] by (simp add: for_ok_def)
  then show "(length (for_blocks docs) - 1) * 128 < length docs"
    using for_block_start [of "length (for_blocks docs) - 1" docs] by simp
qed

lemma for_sizes:
  assumes "for_ok docs"
  shows "length (for_blocks docs) < 2 ^ 32" "b \<le> length (for_blocks docs) \<Longrightarrow> for_offset docs b < 2 ^ 32"
proof -
  have small: "length (for_buffer docs) < 2 ^ 32" using assms by (simp add: for_ok_def)
  have "length (for_blocks docs) * 5 \<le> length (for_buffer docs)"
    by (simp add: for_buffer_def length_for_tables)
  then show "length (for_blocks docs) < 2 ^ 32" using small by linarith
  show "b \<le> length (for_blocks docs) \<Longrightarrow> for_offset docs b < 2 ^ 32" using for_offset_le [of b docs] small by linarith
qed

lemma for_header_fields:
  assumes "for_ok docs"
  shows "read_u32 (for_buffer docs) 0 = Some (length docs)"
    "read_u32 (for_buffer docs) 4 = Some (length (for_blocks docs))"
proof -
  have n: "length docs < 2 ^ 32" "length (for_blocks docs) < 2 ^ 32"
    using assms for_sizes(1) [OF assms] by (simp_all add: for_ok_def)
  show "read_u32 (for_buffer docs) 0 = Some (length docs)"
    unfolding read_u32_eq for_buffer_def using read_u32_append [of "[]" 0 "length docs"] n(1) by simp
  show "read_u32 (for_buffer docs) 4 = Some (length (for_blocks docs))"
    unfolding read_u32_eq for_buffer_def using read_u32_append [of "to_le 4 (length docs)" 4] n(2) by simp
qed

lemma for_block_fields:
  assumes "for_ok docs" "b < length (for_blocks docs)"
  shows "read_u32 (for_buffer docs) (8 + b * 5) = Some (for_blocks docs ! b ! 0)"
    "get (for_buffer docs) (8 + b * 5 + 4) = Some (word_of_nat (block_bits (for_blocks docs ! b)))"
    "block_bits (for_blocks docs ! b) \<le> 32"
proof -
  let ?c = "for_blocks docs ! b"
  have ok: "sorted_wrt (<) docs" "\<forall>d\<in>set docs. d < 2 ^ 32" using assms(1) by (auto simp: for_ok_def)
  note F = for_block_facts [OF assms(2) ok]
  have "0 < length ?c" using F(3) assms(2) for_block_start [of b docs] by simp
  then have c0: "?c ! 0 < 2 ^ 32" using F(2) by simp
  have pre: "length (to_le 4 (length docs) @ to_le 4 (length (for_blocks docs)) :: bytes) = 8" by simp
  show "read_u32 (for_buffer docs) (8 + b * 5) = Some (?c ! 0)"
    using read_u32_field [OF assms(2), of for_descriptor 5 0 "to_le 4 (length docs) @ to_le 4 (length (for_blocks docs))"]
      read_u32_append [of "[]" 0 "?c ! 0"] c0
    by (simp add: read_u32_eq for_buffer_def length_for_descriptor for_descriptor_def)
  show "get (for_buffer docs) (8 + b * 5 + 4) = Some (word_of_nat (block_bits ?c))"
    using index_field [OF assms(2), of for_descriptor 5 4 "to_le 4 (length docs) @ to_le 4 (length (for_blocks docs))"]
    by (simp add: for_buffer_def length_for_descriptor for_descriptor_def index_append del: add_mult_distrib2)
  show "block_bits ?c \<le> 32" by (rule block_bits_bound(2) [OF F(1,2)])
qed

lemma for_offset_field:
  assumes "for_ok docs" "b < length (for_blocks docs) + 1"
  shows "read_u32 (for_buffer docs) (8 + length (for_blocks docs) * 5 + b * 4) = Some (for_offset docs b)"
proof -
  let ?pre = "to_le 4 (length docs) @ to_le 4 (length (for_blocks docs)) @ concat (map for_descriptor (for_blocks docs))"
  have b: "b < length [0..<length (for_blocks docs) + 1]" using assms(2) by simp
  have o: "for_offset docs b < 2 ^ 32" using for_sizes(2) [OF assms(1), of b] assms(2) by simp
  have "length ?pre = 8 + length (for_blocks docs) * 5" by (simp add: length_for_tables)
  then show ?thesis
    using read_u32_field [OF b, of "\<lambda>b. to_le 4 (for_offset docs b mod 2 ^ 32)" 4 0 ?pre] o assms(2)
      read_u32_append [of "[]" 0 "for_offset docs b" "[]"]
    by (simp add: read_u32_eq for_buffer_def nth_append del: upt_Suc)
qed

lemma for_block_slice:
  assumes "b < length (for_blocks docs)"
  shows "subslice (for_buffer docs) (for_header_end (length (for_blocks docs)) + for_offset docs b)
      (for_header_end (length (for_blocks docs)) + for_offset docs (Suc b)) = Some (block_payload (for_blocks docs ! b))"
proof -
  let ?cs = "for_blocks docs"
  let ?pre = "to_le 4 (length docs) @ to_le 4 (length ?cs) @ concat (map for_descriptor ?cs)
     @ concat (map (\<lambda>b. to_le 4 (for_offset docs b mod 2 ^ 32)) [0..<length ?cs + 1])"
  have len: "length ?pre = for_header_end (length ?cs)"
    by (simp add: length_for_tables for_header_end_def del: upt_Suc)
  have buf: "for_buffer docs = (?pre @ concat (map block_payload (take b ?cs))) @ block_payload (?cs ! b)
      @ concat (map block_payload (drop (Suc b) ?cs))"
    using concat_split [OF assms, of block_payload] by (simp add: for_buffer_def)
  have suc: "for_offset docs (Suc b) = for_offset docs b + length (block_payload (?cs ! b))"
    using assms by (simp add: for_offset_def take_Suc_conv_app_nth)
  have lenA: "length (?pre @ concat (map block_payload (take b ?cs))) = for_header_end (length ?cs) + for_offset docs b"
    unfolding length_append [of ?pre] len for_offset_def [of docs b] ..
  show ?thesis unfolding buf suc
    by (rule subslice_append [OF lenA refl]) (simp only: add.assoc)
qed

section \<open>Lemmas: the reader\<close>

definition for_repr :: "for_reader \<Rightarrow> postings \<Rightarrow> nat \<Rightarrow> bool" where
  "for_repr r ps p = (for_ok (map fst ps) \<and> (\<forall>x\<in>set ps. snd x = 1)
     \<and> fr_data r = for_buffer (map fst ps) \<and> fr_header_end r = for_header_end (length (for_blocks (map fst ps)))
     \<and> fr_count r = length ps \<and> fr_bases r = map (\<lambda>c. c ! 0) (for_blocks (map fst ps))
     \<and> fr_widths r = map block_bits (for_blocks (map fst ps))
     \<and> fr_offsets r = map (for_offset (map fst ps)) [0..<length (for_blocks (map fst ps)) + 1]
     \<and> fr_pos r = p \<and> p \<le> length ps
     \<and> (fr_cached_block r = 2 ^ 32 - 1 \<or> fr_cached_block r < length (for_blocks (map fst ps))
          \<and> fr_cache r = for_blocks (map fst ps) ! fr_cached_block r))"

lemma for_new_law:
  assumes "for_ok docs"
  shows "\<exists>r. for_new (for_buffer docs) = Some r \<and> for_repr r (map (\<lambda>d. (d, 1)) docs) 0"
proof -
  let ?d = "for_buffer docs" and ?cs = "for_blocks docs"
  have bases: "those (map (\<lambda>b. read_u32 ?d (8 + b * 5)) [0..<length ?cs]) = Some (map (\<lambda>c. c ! 0) ?cs)"
    using those_map_Some [of "[0..<length ?cs]" "\<lambda>b. read_u32 ?d (8 + b * 5)" "\<lambda>b. ?cs ! b ! 0"]
      for_block_fields(1) [OF assms] map_nth [of ?cs]
    by (metis (no_types, lifting) atLeast_upt lessThan_iff list.map_comp comp_def map_eq_conv)
  have widths: "those (map (\<lambda>b. map_option unat (get ?d (8 + b * 5 + 4))) [0..<length ?cs]) = Some (map block_bits ?cs)"
  proof -
    have "map_option unat (get ?d (8 + b * 5 + 4)) = Some (block_bits (?cs ! b))" if "b < length ?cs" for b
      using for_block_fields(2,3) [OF assms that] by (simp add: unat_byte)
    then have "those (map (\<lambda>b. map_option unat (get ?d (8 + b * 5 + 4))) [0..<length ?cs])
        = Some (map (\<lambda>b. block_bits (?cs ! b)) [0..<length ?cs])"
      by (intro those_map_Some) simp
    moreover have "map (\<lambda>b. block_bits (?cs ! b)) [0..<length ?cs] = map block_bits ?cs"
      by (rule nth_equalityI) simp_all
    ultimately show ?thesis by simp
  qed
  have offsets: "those (map (\<lambda>b. read_u32 ?d (8 + length ?cs * 5 + b * 4)) [0..<length ?cs + 1])
      = Some (map (for_offset docs) [0..<length ?cs + 1])"
    by (rule those_map_Some) (use for_offset_field [OF assms] in auto)
  have len: "for_header_end (length ?cs) \<le> length ?d"
    by (simp add: for_buffer_def length_for_tables for_header_end_def del: upt_Suc)
  note H = for_header_fields [OF assms] and P = for_count_pos [OF assms]
  have he: "8 + length ?cs * 5 + (length ?cs + 1) * 4 = for_header_end (length ?cs)"
    by (simp add: for_header_end_def)
  have "for_new ?d = Some \<lparr>fr_data = ?d, fr_header_end = for_header_end (length ?cs), fr_count = length docs,
      fr_bases = map (\<lambda>c. c ! 0) ?cs, fr_widths = map block_bits ?cs,
      fr_offsets = map (for_offset docs) [0..<length ?cs + 1], fr_pos = 0, fr_cached_block = 2 ^ 32 - 1, fr_cache = []\<rparr>"
    using P len unfolding for_new_def H Let_def he bind.simps bases widths offsets
    by (simp add: FOR_BLOCK_SIZE_def for_header_end_def)
  then show ?thesis using assms by (auto simp: for_repr_def o_def)
qed

lemma ensure_block_law:
  assumes r: "for_repr r ps p" and b: "b < length (for_blocks (map fst ps))"
  shows "\<exists>r'. ensure_block r b = Some r' \<and> for_repr r' ps p \<and> fr_cache r' = for_blocks (map fst ps) ! b"
proof (cases "fr_cached_block r = b")
  case True
  have "length (for_blocks (map fst ps)) \<le> 2 ^ 32 - 1"
    using r for_sizes(1) [of "map fst ps"] by (auto simp: for_repr_def)
  with True b have "fr_cached_block r \<noteq> 2 ^ 32 - 1" by linarith
  with True r show ?thesis by (auto simp: ensure_block_def for_repr_def)
next
  case False
  let ?docs = "map fst ps" let ?cs = "for_blocks ?docs"
  have ok: "for_ok ?docs" using r by (simp add: for_repr_def)
  then have S: "sorted_wrt (<) ?docs" "\<forall>d\<in>set ?docs. d < 2 ^ 32" by (auto simp: for_ok_def)
  note F = for_block_facts [OF b S]
  have o: "get (fr_offsets r) b = Some (for_offset ?docs b)" "get (fr_offsets r) (b + 1) = Some (for_offset ?docs (Suc b))"
    using r b by (simp_all add: for_repr_def index_def nth_append del: upt_Suc)
  have sl: "subslice (fr_data r) (fr_header_end r + for_offset ?docs b) (fr_header_end r + for_offset ?docs (Suc b))
      = Some (block_payload (?cs ! b))"
    using for_block_slice [OF b] r by (simp add: for_repr_def)
  have bw: "get (fr_bases r) b = Some (?cs ! b ! 0)" "get (fr_widths r) b = Some (block_bits (?cs ! b))"
    using r b by (simp_all add: for_repr_def index_def)
  have elems: "(if b = length (fr_bases r) - 1 then fr_count r - (length (fr_bases r) - 1) * FOR_BLOCK_SIZE else FOR_BLOCK_SIZE)
      = length (?cs ! b)"
  proof -
    have "b * 128 + 128 < length ?docs \<or> length ?docs \<le> b * 128 + 128" by linarith
    moreover have "Suc b < length ?cs \<longleftrightarrow> b * 128 + 128 < length ?docs"
      using for_block_start [of "Suc b" ?docs] by (simp add: add.commute)
    ultimately show ?thesis using b r F(3) by (auto simp: for_repr_def FOR_BLOCK_SIZE_def)
  qed
  have "ensure_block r b = Some (r\<lparr>fr_cached_block := b, fr_cache := ?cs ! b\<rparr>)"
    by (simp only: ensure_block_def False if_False o sl bw elems Let_def bind.simps block_payload_read [OF F(1,2)])
  with r b show ?thesis by (auto simp: for_repr_def)
qed

lemma for_pos_block:
  assumes "p < length docs"
  shows "p div 128 < length (for_blocks docs)" "p mod 128 < min 128 (length docs - p div 128 * 128)"
proof -
  have "p div 128 * 128 + p mod 128 = p" by simp
  moreover have "p mod 128 < 128" by simp
  ultimately show "p div 128 < length (for_blocks docs)" "p mod 128 < min 128 (length docs - p div 128 * 128)"
    using assms for_block_start [of "p div 128" docs] by linarith+
qed

lemma for_block_nth:
  assumes "for_repr r ps p" "b < length (for_blocks (map fst ps))" "i < length (for_blocks (map fst ps) ! b)"
  shows "for_blocks (map fst ps) ! b ! i = fst (ps ! (b * 128 + i))" "b * 128 + i < length ps"
    "length (for_blocks (map fst ps) ! b) = min 128 (length ps - b * 128)"
proof -
  have S: "sorted_wrt (<) (map fst ps)" "\<forall>d\<in>set (map fst ps). d < 2 ^ 32"
    using assms(1) by (auto simp: for_repr_def for_ok_def)
  note F = for_block_facts [OF assms(2) S]
  show "length (for_blocks (map fst ps) ! b) = min 128 (length ps - b * 128)" using F(3) by simp
  then show lt: "b * 128 + i < length ps" using assms(3) by (simp add: less_diff_conv add.commute)
  show "for_blocks (map fst ps) ! b ! i = fst (ps ! (b * 128 + i))" using F(4) [OF assms(3)] lt by simp
qed

lemma for_peek_law:
  assumes r: "for_repr r ps p"
  shows "\<exists>r'. for_peek r = Some (peeked ps p, r') \<and> for_repr r' ps p"
proof (cases "p < length ps")
  case True
  let ?cs = "for_blocks (map fst ps)"
  have b: "p div 128 < length ?cs" using for_pos_block(1) [of p "map fst ps"] True by simp
  obtain r' where r': "ensure_block r (p div 128) = Some r'" "for_repr r' ps p" "fr_cache r' = ?cs ! (p div 128)"
    using ensure_block_law [OF r b] by blast
  have S: "sorted_wrt (<) (map fst ps)" "\<forall>d\<in>set (map fst ps). d < 2 ^ 32"
    using r by (auto simp: for_repr_def for_ok_def)
  have i: "p mod 128 < length (?cs ! (p div 128))"
    using for_pos_block(2) [of p "map fst ps"] True for_block_facts(3) [OF b S] by simp
  then have "get (fr_cache r') (p mod 128) = Some (fst (ps ! p))"
    using for_block_nth(1) [OF r b i] by (simp add: r'(3) index_def)
  with r r' True show ?thesis
    by (auto simp: for_peek_def for_repr_def peeked_def FOR_BLOCK_SIZE_def)
next
  case False
  with r show ?thesis by (auto simp: for_peek_def for_repr_def peeked_def)
qed

lemma for_next_law:
  assumes r: "for_repr r ps p"
  shows "\<exists>r'. for_next r = Some (peeked ps p, r') \<and> for_repr r' ps (min (Suc p) (length ps))"
proof -
  obtain r' where r': "for_peek r = Some (peeked ps p, r')" "for_repr r' ps p" using for_peek_law [OF r] by blast
  show ?thesis
  proof (cases "p < length ps")
    case True
    then have "for_repr (r'\<lparr>fr_pos := fr_pos r' + 1\<rparr>) ps (Suc p)" using r'(2) by (auto simp: for_repr_def)
    with r' True show ?thesis by (auto simp: for_next_def peeked_def)
  next
    case False
    with r'(2) have "p = length ps" by (auto simp: for_repr_def)
    with r' show ?thesis by (auto simp: for_next_def peeked_def)
  qed
qed

lemma find_from:
  assumes "start \<le> n"
  shows "find P [start..<n] = Some i \<Longrightarrow> start \<le> i \<and> i < n \<and> P i \<and> (\<forall>j. start \<le> j \<and> j < i \<longrightarrow> \<not> P j)"
    "find P [start..<n] = None \<Longrightarrow> \<forall>j. start \<le> j \<and> j < n \<longrightarrow> \<not> P j"
proof -
  assume "find P [start..<n] = Some i"
  then obtain k where k: "k < n - start" "P (start + k)" "i = start + k" "\<forall>j<k. \<not> P (start + j)"
    by (auto simp: find_Some_iff)
  have "\<not> P j" if "start \<le> j" "j < i" for j using k(4) [rule_format, of "j - start"] that k(3) by simp
  with k assms show "start \<le> i \<and> i < n \<and> P i \<and> (\<forall>j. start \<le> j \<and> j < i \<longrightarrow> \<not> P j)" by auto
qed (auto simp: find_None_iff)

text \<open>The block scan finds the first posting at or above the target.\<close>

lemma locate_loop_law:
  assumes "for_repr r ps p" "p < length ps" "p div 128 \<le> b" "b < length (for_blocks (map fst ps))"
    and "\<And>i. p \<le> i \<Longrightarrow> i < b * 128 \<Longrightarrow> fst (ps ! i) < t"
  shows "\<exists>r'. locate_loop r t (p div 128) b = Some (if adv ps p t < length ps
      then Some (adv ps p t, fst (ps ! adv ps p t)) else None, r') \<and> for_repr r' ps p"
  using assms
proof (induction "length (for_blocks (map fst ps)) - b" arbitrary: r b rule: less_induct)
  case less
  let ?cs = "for_blocks (map fst ps)"
  obtain r' where r': "ensure_block r b = Some r'" "for_repr r' ps p" "fr_cache r' = ?cs ! b"
    using ensure_block_law [OF less.prems(1,4)] by blast
  have pos: "fr_pos r' = p" "length (fr_bases r') = length ?cs" using r'(2) by (simp_all add: for_repr_def)
  define start where "start = (if b = p div 128 then p mod 128 else 0)"
  have S: "sorted_wrt (<) (map fst ps)" "\<forall>d\<in>set (map fst ps). d < 2 ^ 32"
    using r'(2) by (auto simp: for_repr_def for_ok_def)
  have len: "length (?cs ! b) = min 128 (length ps - b * 128)" using for_block_facts(3) [OF less.prems(4) S] by simp
  have start: "start \<le> length (?cs ! b)"
    using for_pos_block(2) [of p "map fst ps"] less.prems(2) len by (auto simp: start_def less_imp_le)
  have cover: "b * 128 + start \<le> i \<or> i < b * 128" if "p \<le> i" for i
    using that by (auto simp: start_def)
  have before: "fst (ps ! i) < t" if "p \<le> i" "i < b * 128 + k" "k \<le> length (?cs ! b)"
      "\<forall>j. start \<le> j \<and> j < k \<longrightarrow> \<not> t \<le> ?cs ! b ! j" for i k
  proof (cases "i < b * 128")
    case True
    with that(1) show ?thesis by (rule less.prems(5))
  next
    case False
    then have ge: "b * 128 + start \<le> i" using cover [OF that(1)] by simp
    have "i - b * 128 < length (?cs ! b)" using that(2,3) False by linarith
    moreover have "start \<le> i - b * 128 \<and> i - b * 128 < k" using ge that(2) False by linarith
    ultimately show ?thesis
      using for_block_nth(1) [OF r'(2) less.prems(4), of "i - b * 128"] that(4) [rule_format, of "i - b * 128"] False by (simp add: not_le)
  qed
  have ple: "p \<le> b * 128 + start"
  proof (cases "b = p div 128")
    case False
    then have "Suc (p div 128) * 128 \<le> b * 128" using less.prems(3) by (intro mult_le_mono1) simp
    moreover have "p < Suc (p div 128) * 128" using dividend_less_div_times [of 128 p] by simp
    ultimately show ?thesis by linarith
  qed (simp add: start_def)
  show ?case
  proof (cases "find (\<lambda>i. t \<le> fr_cache r' ! i) [start..<length (fr_cache r')]")
    case (Some i)
    then have i: "start \<le> i" "i < length (?cs ! b)" "t \<le> ?cs ! b ! i" "\<forall>j. start \<le> j \<and> j < i \<longrightarrow> \<not> t \<le> ?cs ! b ! j"
      using find_from(1) [OF start, of "\<lambda>i. t \<le> ?cs ! b ! i" i] by (auto simp: r'(3))
    note n = for_block_nth [OF r'(2) less.prems(4) i(2)]
    have "adv ps p t = adv ps (b * 128 + i) t"
      using ple i(1) n(2) before [OF _ _ less_imp_le [OF i(2)] i(4)] by (intro adv_skip) auto
    also have "\<dots> = b * 128 + i" using n i(3) by (intro adv_stop) simp_all
    finally have a: "adv ps p t = b * 128 + i" .
    show ?thesis
      using Some r' n a pos
      by (subst locate_loop.simps) (auto simp: FOR_BLOCK_SIZE_def start_def Let_def)
  next
    case None
    then have all: "\<forall>j. start \<le> j \<and> j < length (?cs ! b) \<longrightarrow> \<not> t \<le> ?cs ! b ! j"
      using find_from(2) [OF start, of "\<lambda>i. t \<le> ?cs ! b ! i"] by (auto simp: r'(3))
    show ?thesis
    proof (cases "Suc b < length ?cs")
      case True
      then have "b * 128 + 128 < length ps" using for_block_start [of "Suc b" "map fst ps"] by simp
      then have l: "length (?cs ! b) = 128" using len by simp
      have "\<exists>s. locate_loop r' t (p div 128) (Suc b) = Some (if adv ps p t < length ps
          then Some (adv ps p t, fst (ps ! adv ps p t)) else None, s) \<and> for_repr s ps p"
        using True less.prems(3) before [OF _ _ order_refl all] l
        by (intro less.hyps [OF _ r'(2) less.prems(2)]) auto
      moreover have "locate_loop r t (p div 128) b = locate_loop r' t (p div 128) (Suc b)"
        using None r' pos True by (subst locate_loop.simps) (auto simp: FOR_BLOCK_SIZE_def start_def Let_def split: if_splits)
      ultimately show ?thesis by simp
    next
      case False
      then have l: "b * 128 + length (?cs ! b) = length ps"
        using for_block_start [of "Suc b" "map fst ps"] for_block_start [of b "map fst ps"] less.prems(4) len by simp
      have "adv ps p t = adv ps (length ps) t"
        using less.prems(2) before [OF _ _ order_refl all] l by (intro adv_skip) auto
      then have "adv ps p t = length ps" by (simp add: adv_end)
      with None r' pos False show ?thesis
        by (subst locate_loop.simps) (auto simp: FOR_BLOCK_SIZE_def start_def Let_def split: if_splits)
    qed
  qed
qed

lemma locate_law:
  assumes r: "for_repr r ps p"
  shows "\<exists>r'. locate r t = Some (if adv ps p t < length ps then Some (adv ps p t, fst (ps ! adv ps p t)) else None, r')
    \<and> for_repr r' ps p"
proof -
  obtain r' where r': "for_peek r = Some (peeked ps p, r')" "for_repr r' ps p" using for_peek_law [OF r] by blast
  have f: "fr_pos r' = p" "fr_count r' = length ps" "fr_bases r' = map (\<lambda>c. c ! 0) (for_blocks (map fst ps))"
    "p \<le> length ps"
    using r'(2) by (simp_all add: for_repr_def)
  show ?thesis
  proof (cases "p < length ps \<and> fst (ps ! p) < t")
    case False
    then have "adv ps p t = p" by (cases "p < length ps") (auto simp: adv_stop adv_end)
    with False r' f show ?thesis by (auto simp: locate_def peeked_def)
  next
    case True
    let ?cs = "for_blocks (map fst ps)"
    define b where "b = max (partition_point (\<lambda>base. base \<le> t) (fr_bases r') - 1) (p div 128)"
    have pp: "partition_point (\<lambda>base. base \<le> t) (fr_bases r') \<le> length ?cs"
      using length_takeWhile_le [of "\<lambda>base. base \<le> t" "fr_bases r'"] by (simp add: partition_point_def f(3))
    have pb: "p div 128 < length ?cs" using for_pos_block(1) [of p "map fst ps"] True by simp
    have b: "p div 128 \<le> b" "b < length ?cs" using pp pb by (auto simp: b_def)
    have S: "sorted_wrt (<) (map fst ps)" "\<forall>d\<in>set (map fst ps). d < 2 ^ 32"
      using r'(2) by (auto simp: for_repr_def for_ok_def)
    have "fst (ps ! i) < t" if i: "p \<le> i" "i < b * 128" for i
    proof -
      have "b \<noteq> p div 128" using i by auto
      then have bp: "Suc b \<le> partition_point (\<lambda>base. base \<le> t) (fr_bases r')" using i(2) by (auto simp: b_def max_def split: if_splits)
      then have "fr_bases r' ! b \<in> set (takeWhile (\<lambda>base. base \<le> t) (fr_bases r'))"
        unfolding partition_point_def by (metis Suc_le_eq nth_mem takeWhile_nth)
      then have "?cs ! b ! 0 \<le> t" using b(2) by (auto simp: f(3) dest: set_takeWhileD)
      moreover have b0: "b * 128 < length ps" using for_block_start [of b "map fst ps"] b(2) by simp
      moreover have "?cs ! b ! 0 = fst (ps ! (b * 128))"
        using for_block_nth(1) [OF r'(2) b(2), of 0] for_block_facts(3) [OF b(2) S] b0 by simp
      moreover have "fst (ps ! i) < fst (ps ! (b * 128))"
        using sorted_wrt_nth_less [OF S(1) i(2)] b0 i(2) by simp
      ultimately show ?thesis by linarith
    qed
    from locate_loop_law [OF r'(2) _ b this] True r'(1) f show ?thesis
      by (simp add: locate_def peeked_def FOR_BLOCK_SIZE_def b_def)
  qed
qed

interpretation forc: docid_reader for_ops for_repr
proof
  fix r ps p assume r: "for_repr r ps p"
  show "sorted_wrt (<) (map fst ps)" "p \<le> length ps" "\<And>x. x \<in> set ps \<Longrightarrow> fst x < 2 ^ 32 \<and> snd x = 1" "length ps < 2 ^ 32"
    "rd_len for_ops r = length ps" "rd_pos for_ops r = p"
    using r by (auto simp: for_repr_def for_ok_def for_ops_def)
  show "\<exists>r'. rd_peek for_ops r = Some (peeked ps p, r') \<and> for_repr r' ps p"
    using for_peek_law [OF r] by (simp add: for_ops_def)
  show "\<exists>r'. rd_next for_ops r = Some (peeked ps p, r') \<and> for_repr r' ps (min (Suc p) (length ps))"
    using for_next_law [OF r] by (simp add: for_ops_def)
  fix t
  obtain r' where r': "locate r t = Some (if adv ps p t < length ps then Some (adv ps p t, fst (ps ! adv ps p t)) else None, r')"
    "for_repr r' ps p"
    using locate_law [OF r] by blast
  have "p \<le> length ps" using r by (simp add: for_repr_def)
  from adv_le [OF this, of t] r' show "\<exists>r'. rd_advance for_ops r t = Some (peeked ps (adv ps p t), r') \<and> for_repr r' ps (adv ps p t)"
    by (auto simp: for_ops_def for_advance_def peeked_def for_repr_def)
qed (simp_all add: for_ops_def)

end
