(* ===== verification/Elias_Fano.thy ===== *)
theory Elias_Fano
  imports Posting_Reader Skip_Index Bit_Stream Frame_Codec
begin

text \<open>
  The plain Elias-Fano codec (\<open>crates/ic-stable-text-postings/src/enc/elias_fano.rs\<close>): low bits
  packed, high parts as a unary bit vector read by an incremental scan. \<open>u32\<close> values are naturals
  below \<open>2 ^ 32\<close>, the words of the unary vector are \<open>u64\<close> values, a panic is \<open>None\<close>. The subtraction
  in \<open>scan_one\<close> wraps at 32 bits, as in a release build.
\<close>

section \<open>Encoder\<close>

definition ilog2 :: "nat \<Rightarrow> nat" where
  "ilog2 v = 31 - leading_zeros v"

text \<open>\<open>checked_div\<close> fails for a list length that truncates to zero, \<open>checked_ilog2\<close> for a zero quotient.\<close>

definition ef_low_width :: "nat \<Rightarrow> nat \<Rightarrow> nat" where
  "ef_low_width lst n = (let d = n mod 2 ^ 32 in
     if d = 0 then 0 else if lst div d = 0 then 0 else min (ilog2 (lst div d)) 31)"

fun ef_set_bits :: "nat \<Rightarrow> nat \<Rightarrow> nat list \<Rightarrow> u64 list \<Rightarrow> u64 list option" where
  "ef_set_bits l i [] words = Some words"
| "ef_set_bits l i (v # vs) words = do {
     let b = drop_bit l v + i;
     w \<leftarrow> get words (b div 64);
     ef_set_bits l (i + 1) vs (words[b div 64 := w OR push_bit (b mod 64) 1]) }"

definition ef_low_bytes :: "nat \<Rightarrow> nat list \<Rightarrow> bytes" where
  "ef_low_bytes l docs = bw_finish (if 0 < l
     then let m = drop_bit (32 - l) (2 ^ 32 - 1) in fold (\<lambda>v. bw_push (v AND m) l) docs bw_new
     else bw_new)"

definition encode_elias_fano :: "nat list \<Rightarrow> bytes option" where
  "encode_elias_fano docs = do {
     guard (assert_strictly_increasing docs);
     let n = length docs;
     let lst = docs ! (n - 1);
     let l = ef_low_width lst n;
     let word_count = (drop_bit l lst + n) div 64 + 1;
     words \<leftarrow> ef_set_bits l 0 docs (replicate word_count 0);
     Some (to_le 4 n @ [word_of_nat l] @ to_le 4 lst @ to_le 4 word_count
       @ concat (map u64_to_le words) @ ef_low_bytes l docs) }"

section \<open>Reader\<close>

record ef_reader =
  ef_data :: bytes
  ef_words_start :: nat
  ef_word_count :: nat
  ef_lows_start :: nat
  ef_count :: nat
  ef_l :: nat
  ef_pos :: nat
  ef_highs :: "nat list"
  ef_scan_done :: nat
  ef_scan_bit :: nat

definition ef_new :: "bytes \<Rightarrow> ef_reader option" where
  "ef_new data = do {
     guard (13 \<le> length data);
     count \<leftarrow> read_u32 data 0;
     l \<leftarrow> get data 4;
     _ \<leftarrow> read_u32 data 5;
     word_count \<leftarrow> read_u32 data 9;
     guard (\<not> (31 < unat l \<or> count = 0 \<or> length data < 13 + word_count * 8));
     Some \<lparr>ef_data = data, ef_words_start = 13, ef_word_count = word_count,
           ef_lows_start = 13 + word_count * 8, ef_count = count, ef_l = unat l, ef_pos = 0,
           ef_highs = [], ef_scan_done = 0, ef_scan_bit = 0\<rparr> }"

definition ef_word :: "ef_reader \<Rightarrow> nat \<Rightarrow> u64 option" where
  "ef_word r wi = map_option u64_from_le
     (subslice (ef_data r) (ef_words_start r + wi * 8) (ef_words_start r + wi * 8 + 8))"

definition read_low :: "ef_reader \<Rightarrow> nat \<Rightarrow> nat option" where
  "read_low r i = (if ef_l r = 0 then Some 0 else do {
     lows \<leftarrow> slice_from (ef_data r) (ef_lows_start r);
     (v, _) \<leftarrow> br_read (ef_l r) (seek_bits (i * ef_l r) (br_new lows));
     Some v })"

definition trailing_zeros :: "u64 \<Rightarrow> nat" where
  "trailing_zeros w = length (takeWhile (\<lambda>i. \<not> bit w i) [0..<64])"

definition mask_from :: "u64 \<Rightarrow> nat \<Rightarrow> u64" where
  "mask_from w b = (if b = 0 then w else w AND NOT (push_bit b 1 - 1))"

partial_function (option) ef_scan_loop :: "ef_reader \<Rightarrow> nat \<Rightarrow> nat \<Rightarrow> nat option" where
  "ef_scan_loop r w b = do {
     word \<leftarrow> ef_word r w;
     if mask_from word b \<noteq> 0 then Some (w * 64 + trailing_zeros (mask_from word b))
     else ef_scan_loop r (w + 1) 0 }"

definition scan_one :: "ef_reader \<Rightarrow> (nat \<times> ef_reader) option" where
  "scan_one r = do {
     bit_pos \<leftarrow> ef_scan_loop r (ef_scan_bit r div 64) (ef_scan_bit r mod 64);
     Some ((bit_pos mod 2 ^ 32 + 2 ^ 32 - ef_scan_done r) mod 2 ^ 32, r\<lparr>ef_scan_bit := bit_pos + 1\<rparr>) }"

text \<open>One more high part in the window.\<close>

definition scan_push :: "ef_reader \<Rightarrow> ef_reader option" where
  "scan_push r = do {
     (high, r') \<leftarrow> scan_one r;
     Some (r'\<lparr>ef_scan_done := ef_scan_done r' + 1, ef_highs := ef_highs r' @ [high]\<rparr>) }"

partial_function (option) buffer_through :: "ef_reader \<Rightarrow> nat \<Rightarrow> ef_reader option" where
  "buffer_through r i =
     (if ef_scan_done r \<le> i then
        (if ef_count r \<le> ef_scan_done r then None
         else do { r' \<leftarrow> scan_push r; buffer_through r' i })
      else Some r)"

definition ef_value :: "ef_reader \<Rightarrow> nat option" where
  "ef_value r = do {
     high \<leftarrow> get (ef_highs r) 0;
     low \<leftarrow> read_low r (ef_pos r);
     Some (take_bit 32 (push_bit (ef_l r) high) OR low) }"

definition ef_drop_head :: "ef_reader \<Rightarrow> ef_reader" where
  "ef_drop_head r = r\<lparr>ef_highs := tl (ef_highs r), ef_pos := ef_pos r + 1\<rparr>"

definition ef_peek :: "ef_reader \<Rightarrow> (nat option \<times> ef_reader) option" where
  "ef_peek r = (if ef_count r \<le> ef_pos r then Some (None, r) else do {
     r' \<leftarrow> buffer_through r (ef_pos r);
     v \<leftarrow> ef_value r';
     Some (Some v, r') })"

definition ef_next :: "ef_reader \<Rightarrow> (nat option \<times> ef_reader) option" where
  "ef_next r = do {
     (v, r') \<leftarrow> ef_peek r;
     Some (v, if v \<noteq> None then ef_drop_head r' else r') }"

text \<open>
  The two loops of \<open>advance\<close>. The first discards postings whose high part is below the threshold and
  says whether one is left; the second checks candidates.
\<close>

partial_function (option) ef_discard :: "ef_reader \<Rightarrow> nat \<Rightarrow> (bool \<times> ef_reader) option" where
  "ef_discard r threshold =
     (if ef_pos r < ef_scan_done r then do {
        high \<leftarrow> get (ef_highs r) 0;
        if high < threshold then ef_discard (ef_drop_head r) threshold else Some (True, r) }
      else if ef_count r \<le> ef_scan_done r then Some (False, r\<lparr>ef_pos := ef_count r\<rparr>)
      else do {
        (high, r1) \<leftarrow> scan_one r;
        let r2 = r1\<lparr>ef_scan_done := ef_scan_done r1 + 1\<rparr>;
        if high < threshold then ef_discard (r2\<lparr>ef_pos := ef_scan_done r2\<rparr>) threshold
        else Some (True, r2\<lparr>ef_highs := ef_highs r2 @ [high]\<rparr>) })"

partial_function (option) ef_candidates :: "ef_reader \<Rightarrow> nat \<Rightarrow> (nat option \<times> ef_reader) option" where
  "ef_candidates r target =
     (if ef_pos r = ef_scan_done r \<and> ef_count r \<le> ef_scan_done r then Some (None, r\<lparr>ef_pos := ef_count r\<rparr>)
      else do {
        r' \<leftarrow> (if ef_pos r = ef_scan_done r then scan_push r else Some r);
        v \<leftarrow> ef_value r';
        if target \<le> v then Some (Some v, r') else ef_candidates (ef_drop_head r') target })"

definition ef_advance :: "ef_reader \<Rightarrow> nat \<Rightarrow> (nat option \<times> ef_reader) option" where
  "ef_advance r target = do {
     (current, r') \<leftarrow> ef_peek r;
     if (case current of Some v \<Rightarrow> target \<le> v | None \<Rightarrow> False) then Some (current, r')
     else if ef_count r' \<le> ef_pos r' then Some (None, r')
     else do {
       (left, r'') \<leftarrow> ef_discard r' (drop_bit (ef_l r') target);
       if left then ef_candidates r'' target else Some (None, r'') } }"

definition ef_ops :: "ef_reader reader_ops" where
  "ef_ops = \<lparr>rd_len = ef_count, rd_pos = ef_pos, rd_peek = ef_peek, rd_next = ef_next,
     rd_advance = ef_advance, rd_tf = default_tf ef_peek,
     rd_next_step = default_next_step ef_next (default_tf ef_peek)\<rparr>"

section \<open>Lemmas: the unary vector\<close>

lemma ef_low_width_le: "ef_low_width lst n \<le> 31"
  by (simp add: ef_low_width_def Let_def)

definition ef_lw :: "nat list \<Rightarrow> nat" where
  "ef_lw docs = ef_low_width (docs ! (length docs - 1)) (length docs)"

definition ef_high :: "nat list \<Rightarrow> nat \<Rightarrow> nat" where
  "ef_high docs i = drop_bit (ef_lw docs) (docs ! i)"

definition upos :: "nat list \<Rightarrow> nat \<Rightarrow> nat" where
  "upos docs i = ef_high docs i + i"

definition ef_word_total :: "nat list \<Rightarrow> nat" where
  "ef_word_total docs = (ef_high docs (length docs - 1) + length docs) div 64 + 1"

text \<open>The bit at an absolute position of a word vector.\<close>

definition vec_bit :: "u64 list \<Rightarrow> nat \<Rightarrow> bool" where
  "vec_bit ws b = (b div 64 < length ws \<and> bit (ws ! (b div 64)) (b mod 64))"

lemma vec_bit_replicate: "\<not> vec_bit (replicate n 0) b"
  by (simp add: vec_bit_def)

lemma vec_bit_set:
  assumes "b div 64 < length ws"
  shows "vec_bit (ws[b div 64 := ws ! (b div 64) OR push_bit (b mod 64) 1]) c \<longleftrightarrow> vec_bit ws c \<or> c = b"
proof (cases "c div 64 = b div 64")
  case True
  have "c mod 64 = b mod 64 \<longleftrightarrow> c = b" using True by (metis div_mult_mod_eq)
  moreover have "bit (push_bit (b mod 64) (1 :: u64)) (c mod 64) \<longleftrightarrow> c mod 64 = b mod 64"
    by (auto simp: bit_exp_iff)
  ultimately show ?thesis using True assms by (auto simp: vec_bit_def bit_or_iff)
next
  case False
  then show ?thesis by (auto simp: vec_bit_def nth_list_update)
qed

lemma ef_set_bits_vec:
  assumes "\<And>k. k < length vs \<Longrightarrow> (drop_bit l (vs ! k) + (i + k)) div 64 < length ws"
  shows "\<exists>ws'. ef_set_bits l i vs ws = Some ws' \<and> length ws' = length ws
    \<and> (\<forall>c. vec_bit ws' c \<longleftrightarrow> vec_bit ws c \<or> (\<exists>k<length vs. c = drop_bit l (vs ! k) + (i + k)))"
  using assms
proof (induction vs arbitrary: i ws)
  case (Cons v vs)
  let ?b = "drop_bit l v + i"
  let ?ws = "ws[?b div 64 := ws ! (?b div 64) OR push_bit (?b mod 64) 1]"
  have b: "?b div 64 < length ws" using Cons.prems [of 0] by simp
  have IHp: "(drop_bit l (vs ! k) + (Suc i + k)) div 64 < length ?ws" if "k < length vs" for k
    using Cons.prems [of "Suc k"] that by simp
  obtain ws' where w: "ef_set_bits l (Suc i) vs ?ws = Some ws'" "length ws' = length ws"
    "\<And>c. vec_bit ws' c \<longleftrightarrow> vec_bit ?ws c \<or> (\<exists>k<length vs. c = drop_bit l (vs ! k) + (Suc i + k))"
    using Cons.IH [of "Suc i" ?ws] IHp by auto
  have "(\<exists>k<length (v # vs). c = drop_bit l ((v # vs) ! k) + (i + k))
      \<longleftrightarrow> c = ?b \<or> (\<exists>k<length vs. c = drop_bit l (vs ! k) + (Suc i + k))" for c
    by (auto simp: less_Suc_eq_0_disj)
  with w b show ?case by (auto simp: index_def vec_bit_set [OF b, simplified])
qed simp

text \<open>Lists the codec is specified for.\<close>

definition ef_ok :: "nat list \<Rightarrow> bool" where
  "ef_ok docs = (docs \<noteq> [] \<and> sorted_wrt (<) docs \<and> (\<forall>d\<in>set docs. d < 2 ^ 32) \<and> length docs < 2 ^ 32)"

lemma ef_high_mono:
  assumes "ef_ok docs" "i \<le> j" "j < length docs"
  shows "ef_high docs i \<le> ef_high docs j"
proof -
  have "docs ! i \<le> docs ! j"
    using assms sorted_wrt_nth_less [of "(<)" docs i j] by (cases "i = j") (auto simp: ef_ok_def less_imp_le)
  then show ?thesis by (simp add: ef_high_def drop_bit_eq_div div_le_mono)
qed

lemma upos_less: "ef_ok docs \<Longrightarrow> i < j \<Longrightarrow> j < length docs \<Longrightarrow> upos docs i < upos docs j"
  using ef_high_mono [of docs i j] by (simp add: upos_def)

lemma upos_word:
  assumes "ef_ok docs" "i < length docs"
  shows "upos docs i div 64 < ef_word_total docs"
proof -
  have "upos docs i \<le> ef_high docs (length docs - 1) + length docs"
    using ef_high_mono [OF assms(1), of i "length docs - 1"] assms(2) unfolding upos_def by linarith
  then show ?thesis by (simp add: ef_word_total_def div_le_mono le_imp_less_Suc)
qed

text \<open>The words the encoder stores.\<close>

definition ef_words :: "nat list \<Rightarrow> u64 list" where
  "ef_words docs = the (ef_set_bits (ef_lw docs) 0 docs (replicate (ef_word_total docs) 0))"

lemma ef_words:
  assumes "ef_ok docs"
  shows "ef_set_bits (ef_lw docs) 0 docs (replicate (ef_word_total docs) 0) = Some (ef_words docs)"
    "length (ef_words docs) = ef_word_total docs"
    "vec_bit (ef_words docs) c \<longleftrightarrow> (\<exists>k<length docs. c = upos docs k)"
proof -
  have "(drop_bit (ef_lw docs) (docs ! k) + (0 + k)) div 64 < length (replicate (ef_word_total docs) (0 :: u64))"
    if "k < length docs" for k
    using upos_word [OF assms that] by (simp add: upos_def ef_high_def)
  from ef_set_bits_vec [of docs "ef_lw docs" 0, OF this] obtain ws where
    "ef_set_bits (ef_lw docs) 0 docs (replicate (ef_word_total docs) 0) = Some ws"
    "length ws = ef_word_total docs"
    "\<And>c. vec_bit ws c \<longleftrightarrow> (\<exists>k<length docs. c = upos docs k)"
    by (auto simp: vec_bit_replicate upos_def ef_high_def)
  then show "ef_set_bits (ef_lw docs) 0 docs (replicate (ef_word_total docs) 0) = Some (ef_words docs)"
    "length (ef_words docs) = ef_word_total docs"
    "vec_bit (ef_words docs) c \<longleftrightarrow> (\<exists>k<length docs. c = upos docs k)"
    by (simp_all add: ef_words_def)
qed

definition ef_header :: "nat list \<Rightarrow> bytes" where
  "ef_header docs = to_le 4 (length docs) @ [word_of_nat (ef_lw docs)] @ to_le 4 (docs ! (length docs - 1))
     @ to_le 4 (ef_word_total docs)"

definition ef_buffer :: "nat list \<Rightarrow> bytes" where
  "ef_buffer docs = ef_header docs @ concat (map u64_to_le (ef_words docs)) @ ef_low_bytes (ef_lw docs) docs"

lemma length_ef_header [simp]: "length (ef_header docs) = 13"
  by (simp add: ef_header_def)

lemma encode_ef_buffer:
  assumes "ef_ok docs" "assert_strictly_increasing docs"
  shows "encode_elias_fano docs = Some (ef_buffer docs)"
  using assms(2) ef_words(1) [OF assms(1)]
  by (simp add: encode_elias_fano_def ef_buffer_def ef_header_def ef_lw_def ef_word_total_def ef_high_def Let_def)

lemma length_words: "length (concat (map u64_to_le ws)) = length ws * 8"
  by (rule length_concat_const) simp

lemma ef_word_at:
  assumes "ef_data r = ef_buffer docs" "ef_words_start r = 13" "wi < length (ef_words docs)"
  shows "ef_word r wi = Some (ef_words docs ! wi)"
proof -
  have "subslice (ef_buffer docs) (13 + wi * 8 + 0) (13 + wi * 8 + 8) = subslice (u64_to_le (ef_words docs ! wi)) 0 8"
    unfolding ef_buffer_def using subslice_field [OF assms(3), of u64_to_le 8 8 "ef_header docs" _ 0] by simp
  then show ?thesis using assms(1,2) by (simp add: ef_word_def subslice_def)
qed

section \<open>Lemmas: scanning\<close>

lemma bit_mask_from: "b < 64 \<Longrightarrow> bit (mask_from w b) i \<longleftrightarrow> b \<le> i \<and> bit w i"
proof -
  assume "b < 64"
  have "push_bit b (1 :: u64) - 1 = mask b" by (simp add: mask_eq_exp_minus_1)
  then show ?thesis
    by (cases "i < 64") (auto simp: mask_from_def bit_and_iff bit_not_iff bit_mask_iff dest: bit_imp_le_length)
qed

lemma trailing_zeros_first:
  assumes "bit w k" "\<And>i. i < k \<Longrightarrow> \<not> bit w i" "k < 64"
  shows "trailing_zeros w = k"
proof -
  have "[0..<64] = [0..<k] @ k # [Suc k..<64]"
    using upt_add_eq_append [of 0 k "64 - k"] assms(3) by (simp add: upt_conv_Cons)
  then show ?thesis using assms(1,2) by (simp add: trailing_zeros_def takeWhile_append)
qed

text \<open>The scan from position \<open>64 w + b\<close> finds the next set bit.\<close>

lemma ef_scan_loop_next:
  assumes "ef_data r = ef_buffer docs" "ef_words_start r = 13" "b < 64" "w * 64 + b \<le> P"
    and "vec_bit (ef_words docs) P" "\<And>c. w * 64 + b \<le> c \<Longrightarrow> c < P \<Longrightarrow> \<not> vec_bit (ef_words docs) c"
  shows "ef_scan_loop r w b = Some P"
  using assms(3-)
proof (induction "P div 64 - w" arbitrary: w b)
  case 0
  have Pw: "P div 64 = w"
  proof -
    have "w \<le> P div 64" using 0(3) by (simp add: less_eq_div_iff_mult_less_eq)
    with 0(1) show ?thesis by simp
  qed
  have P: "P = w * 64 + P mod 64" using Pw by (metis div_mult_mod_eq)
  have word: "ef_word r w = Some (ef_words docs ! w)"
    using 0(4) Pw by (intro ef_word_at [OF assms(1,2)]) (simp add: vec_bit_def)
  have wl: "w < length (ef_words docs)" using 0(4) Pw by (simp add: vec_bit_def)
  let ?m = "mask_from (ef_words docs ! w) b"
  have bitP: "bit ?m (P mod 64)" using 0(2-4) Pw P by (simp add: bit_mask_from vec_bit_def)
  have "\<not> bit ?m i" if "i < P mod 64" for i
  proof
    assume "bit ?m i"
    then have i: "b \<le> i" "bit (ef_words docs ! w) i" using 0(2) by (simp_all add: bit_mask_from)
    have "i < 64" using that by (meson less_trans mod_less_divisor zero_less_numeral)
    then have "vec_bit (ef_words docs) (w * 64 + i)" using i(2) wl by (simp add: vec_bit_def)
    with 0(5) [of "w * 64 + i"] i(1) that P show False by simp
  qed
  then have "trailing_zeros ?m = P mod 64" using bitP by (intro trailing_zeros_first) auto
  moreover have "?m \<noteq> 0" using bitP by auto
  ultimately show ?case using word P by (subst ef_scan_loop.simps) simp
next
  case (Suc n)
  then have lt: "w < P div 64" by linarith
  have wl: "w < length (ef_words docs)" using Suc(5) lt by (simp add: vec_bit_def)
  have Pw: "(w + 1) * 64 \<le> P" using lt by (metis Suc_eq_plus1 Suc_leI div_le_mono div_mult_self_is_m le_trans less_eq_div_iff_mult_less_eq zero_less_numeral)
  have "mask_from (ef_words docs ! w) b = 0"
  proof (rule bit_eqI)
    fix i assume "possible_bit TYPE(u64) i"
    then have i64: "i < 64" by simp
    have "\<not> vec_bit (ef_words docs) (w * 64 + i)" if "b \<le> i"
      using Suc(6) [of "w * 64 + i"] that i64 Pw by simp
    then show "bit (mask_from (ef_words docs ! w) b) i = bit 0 i"
      using Suc(3) wl i64 by (auto simp: bit_mask_from vec_bit_def)
  qed
  moreover have "ef_word r w = Some (ef_words docs ! w)" by (rule ef_word_at [OF assms(1,2) wl])
  moreover have "ef_scan_loop r (w + 1) 0 = Some P"
    using Suc(2,5,6) Pw Suc(3) by (intro Suc(1)) auto
  ultimately show ?case by (subst ef_scan_loop.simps) simp
qed

section \<open>Lemmas: low bits and values\<close>

lemma low_mask:
  fixes v :: nat
  assumes "0 < l" "l \<le> 31"
  shows "v AND drop_bit (32 - l) (2 ^ 32 - 1) = take_bit l v"
proof -
  have M: "(2 ^ 32 - 1 :: nat) = mask 32" by (simp add: mask_eq_exp_minus_1)
  have "bit (drop_bit (32 - l) (mask 32 :: nat)) n = bit (mask l :: nat) n" for n
    using assms by (simp only: bit_drop_bit_eq o_apply bit_mask_iff) auto
  then have "drop_bit (32 - l) (2 ^ 32 - 1 :: nat) = mask l" unfolding M by (intro bit_eqI)
  then show ?thesis by (simp only: take_bit_eq_mask)
qed

lemma ef_low_writer:
  assumes "0 < l" "l \<le> 31"
  obtains w where "ef_low_bytes l docs = bw_finish w" "bw_ok w"
    "bw_bits w = concat (map (\<lambda>v. value_bits l (take_bit l v)) docs)"
proof -
  have "bw_ok bw_new" "bw_bits bw_new = []" by (simp_all add: bw_ok_def bw_new_def bw_bits_def value_bits_def)
  with fold_push_bits [of docs "take_bit l" l bw_new] assms show ?thesis
    by (intro that [of "fold (\<lambda>v. bw_push (take_bit l v) l) docs bw_new"])
      (simp_all only: ef_low_bytes_def Let_def low_mask [OF assms], simp_all)
qed

lemma ef_low_bits:
  assumes "0 < l" "l \<le> 31"
  shows "\<exists>pad. byte_bits (ef_low_bytes l docs) = concat (map (\<lambda>v. value_bits l (take_bit l v)) docs) @ pad"
  using bw_finish_bits by (metis ef_low_writer [OF assms])

definition ef_scan :: "ef_reader \<Rightarrow> nat list \<Rightarrow> bool" where
  "ef_scan r docs = (ef_ok docs \<and> ef_data r = ef_buffer docs \<and> ef_words_start r = 13
     \<and> ef_word_count r = ef_word_total docs \<and> ef_lows_start r = 13 + ef_word_total docs * 8
     \<and> ef_count r = length docs \<and> ef_l r = ef_lw docs
     \<and> ef_scan_done r \<le> length docs
     \<and> ef_scan_bit r = (if ef_scan_done r = 0 then 0 else upos docs (ef_scan_done r - 1) + 1))"

lemma ef_lw_le: "ef_lw docs \<le> 31"
  by (simp add: ef_lw_def ef_low_width_le)

lemma read_low_at:
  assumes "ef_scan r docs" "i < length docs"
  shows "read_low r i = Some (take_bit (ef_lw docs) (docs ! i))"
proof (cases "ef_lw docs = 0")
  case True
  with assms show ?thesis by (simp add: read_low_def ef_scan_def)
next
  case False
  let ?l = "ef_lw docs" and ?f = "\<lambda>v. value_bits (ef_lw docs) (take_bit (ef_lw docs) v)"
  obtain pad where pad: "byte_bits (ef_low_bytes ?l docs) = concat (map ?f docs) @ pad"
    using ef_low_bits [of ?l docs] False ef_lw_le by auto
  have sl: "slice_from (ef_data r) (ef_lows_start r) = Some (ef_low_bytes ?l docs)"
    using assms(1) ef_words(2) [of docs] by (simp add: ef_scan_def ef_buffer_def slice_from_def length_words)
  have split: "concat (map ?f docs) = concat (map ?f (take i docs)) @ ?f (docs ! i) @ concat (map ?f (drop (Suc i) docs))"
    by (rule concat_split [OF assms(2)])
  have len: "length (concat (map ?f (take i docs))) = i * ?l"
    using length_concat_const [of "take i docs" ?f ?l] assms(2) by simp
  have tk: "take ?l (drop (i * ?l) (byte_bits (ef_low_bytes ?l docs))) = ?f (docs ! i)"
    unfolding pad split using len by simp
  have "i * ?l + ?l \<le> length (byte_bits (ef_low_bytes ?l docs))"
    unfolding pad split using len by simp
  then have "br_read ?l (seek_bits (i * ?l) (br_new (ef_low_bytes ?l docs)))
      = Some (take_bit ?l (docs ! i), (seek_bits (i * ?l) (br_new (ef_low_bytes ?l docs)))\<lparr>br_pos := i * ?l + ?l\<rparr>)"
    using tk br_read_value [of ?l "seek_bits (i * ?l) (br_new (ef_low_bytes ?l docs))" "take_bit ?l (docs ! i)"] ef_lw_le [of docs]
    by (simp add: seek_bits_def br_new_def)
  then show ?thesis using False assms(1) sl by (simp add: read_low_def ef_scan_def)
qed

lemma high_low_join:
  fixes v :: nat
  assumes "v < 2 ^ 32"
  shows "take_bit 32 (push_bit l (drop_bit l v)) OR take_bit l v = v"
proof -
  have "push_bit l (drop_bit l v) \<le> v" by (simp add: push_bit_eq_mult drop_bit_eq_div)
  then have t: "take_bit 32 (push_bit l (drop_bit l v)) = push_bit l (drop_bit l v)"
    using assms by (simp add: take_bit_nat_eq_self_iff)
  show ?thesis unfolding t
    by (rule bit_eqI) (auto simp: bit_or_iff bit_push_bit_iff bit_drop_bit_eq bit_take_bit_iff)
qed

lemma scan_one_next:
  assumes "ef_scan r docs" "ef_scan_done r < length docs"
  shows "scan_one r = Some (ef_high docs (ef_scan_done r), r\<lparr>ef_scan_bit := upos docs (ef_scan_done r) + 1\<rparr>)"
proof -
  let ?s = "ef_scan_done r"
  have ok: "ef_ok docs" using assms(1) by (simp add: ef_scan_def)
  have sb: "ef_scan_bit r = (if ?s = 0 then 0 else upos docs (?s - 1) + 1)" using assms(1) by (simp add: ef_scan_def)
  have le: "ef_scan_bit r \<le> upos docs ?s" using sb upos_less [OF ok, of "?s - 1" ?s] assms(2) by (cases "?s = 0") auto
  have none: "\<not> vec_bit (ef_words docs) c" if "ef_scan_bit r \<le> c" "c < upos docs ?s" for c
  proof
    assume "vec_bit (ef_words docs) c"
    then obtain k where k: "k < length docs" "c = upos docs k" using ef_words(3) [OF ok] by blast
    have "k < ?s" using that(2) k upos_less [OF ok, of ?s k] assms(2) by (cases k ?s rule: linorder_cases) auto
    then have "upos docs k \<le> upos docs (?s - 1)"
      using upos_less [OF ok, of k "?s - 1"] assms(2) by (cases "k = ?s - 1") (auto simp: less_imp_le)
    with that(1) k(2) sb \<open>k < ?s\<close> show False by simp
  qed
  have "ef_scan_loop r (ef_scan_bit r div 64) (ef_scan_bit r mod 64) = Some (upos docs ?s)"
    using assms le none ef_words(3) [OF ok, of "upos docs ?s"]
    by (intro ef_scan_loop_next [of r docs]) (auto simp: ef_scan_def)
  moreover have "(upos docs ?s mod 2 ^ 32 + 2 ^ 32 - ?s) mod 2 ^ 32 = ef_high docs ?s"
  proof -
    define M :: nat where "M = 2 ^ 32"
    have s: "?s < M" using assms ok by (simp add: ef_ok_def M_def)
    have "docs ! ?s < M" using assms(2) ok by (simp add: ef_ok_def M_def)
    then have h: "ef_high docs ?s < M" by (simp add: ef_high_def drop_bit_eq_div) (meson div_le_dividend le_less_trans)
    have "(upos docs ?s mod M + M - ?s) mod M = (upos docs ?s mod M + (M - ?s)) mod M" using s by simp
    also have "\<dots> = (upos docs ?s + (M - ?s)) mod M" by (rule mod_add_left_eq)
    also have "upos docs ?s + (M - ?s) = ef_high docs ?s + M" using s by (simp add: upos_def)
    finally show ?thesis using h by (simp add: M_def)
  qed
  ultimately show ?thesis by (simp add: scan_one_def)
qed

lemma scan_step:
  assumes "ef_scan r docs" "ef_scan_done r < length docs"
  shows "ef_scan (r\<lparr>ef_scan_bit := upos docs (ef_scan_done r) + 1, ef_scan_done := ef_scan_done r + 1\<rparr>) docs"
  using assms by (simp add: ef_scan_def Suc_leI)

section \<open>Lemmas: the reader\<close>

definition ef_repr :: "ef_reader \<Rightarrow> postings \<Rightarrow> nat \<Rightarrow> bool" where
  "ef_repr r ps p = (ef_scan r (map fst ps) \<and> (\<forall>x\<in>set ps. snd x = 1) \<and> ef_pos r = p
     \<and> p \<le> ef_scan_done r \<and> ef_highs r = map (ef_high (map fst ps)) [p..<ef_scan_done r])"

lemma ef_repr_len: "ef_repr r ps p \<Longrightarrow> ef_scan_done r \<le> length ps \<and> ef_count r = length ps \<and> p \<le> length ps"
  by (auto simp: ef_repr_def ef_scan_def)

lemma ef_value_at:
  assumes "ef_repr r ps p" "p < ef_scan_done r"
  shows "ef_value r = Some (fst (ps ! p))"
proof -
  have p: "p < length ps" using assms ef_repr_len [OF assms(1)] by simp
  have s: "ef_scan r (map fst ps)" "ef_pos r = p" "ef_l r = ef_lw (map fst ps)"
    using assms(1) by (auto simp: ef_repr_def ef_scan_def)
  have "map fst ps ! p < 2 ^ 32" using s(1) p by (auto simp: ef_scan_def ef_ok_def)
  from high_low_join [OF this, of "ef_lw (map fst ps)"] show ?thesis
    using assms read_low_at [OF s(1), of p] p
    by (simp add: ef_value_def ef_repr_def index_def s(2,3) ef_high_def)
qed

lemma ef_drop_head_repr:
  assumes "ef_repr r ps p" "p < ef_scan_done r"
  shows "ef_repr (ef_drop_head r) ps (Suc p)"
  using assms by (simp add: ef_repr_def ef_drop_head_def ef_scan_def tl_upt map_tl [symmetric])

lemma ef_push_repr:
  assumes "ef_repr r ps p" "ef_scan_done r < length ps"
  shows "ef_repr (r\<lparr>ef_scan_bit := upos (map fst ps) (ef_scan_done r) + 1, ef_scan_done := ef_scan_done r + 1,
    ef_highs := ef_highs r @ [ef_high (map fst ps) (ef_scan_done r)]\<rparr>) ps p"
  using assms scan_step [of r "map fst ps"] by (simp add: ef_repr_def ef_scan_def)

lemma ef_peek_law:
  assumes r: "ef_repr r ps p"
  shows "\<exists>r'. ef_peek r = Some (peeked ps p, r') \<and> ef_repr r' ps p \<and> (p < length ps \<longrightarrow> p < ef_scan_done r')"
proof (cases "p < length ps")
  case True
  note L = ef_repr_len [OF r]
  have pos: "ef_pos r = p" "p \<le> ef_scan_done r" using r by (simp_all add: ef_repr_def)
  show ?thesis
  proof (cases "p < ef_scan_done r")
    case lt: True
    then have "buffer_through r p = Some r" by (subst buffer_through.simps) simp
    with True lt L pos ef_value_at [OF r lt] r show ?thesis by (auto simp: ef_peek_def peeked_def)
  next
    case False
    then have s: "ef_scan_done r = p" using pos by simp
    let ?r = "r\<lparr>ef_scan_bit := upos (map fst ps) (ef_scan_done r) + 1, ef_scan_done := ef_scan_done r + 1,
      ef_highs := ef_highs r @ [ef_high (map fst ps) (ef_scan_done r)]\<rparr>"
    have r': "ef_repr ?r ps p" by (rule ef_push_repr [OF r]) (use s True in simp)
    have "scan_one r = Some (ef_high (map fst ps) p, r\<lparr>ef_scan_bit := upos (map fst ps) p + 1\<rparr>)"
      using scan_one_next [of r "map fst ps"] r True s by (auto simp: ef_repr_def)
    then have "buffer_through r p = buffer_through ?r p"
      using s L True by (subst buffer_through.simps) (simp add: not_le scan_push_def)
    also have "\<dots> = Some ?r" by (subst buffer_through.simps) (simp add: s)
    finally show ?thesis
      using True L pos ef_value_at [OF r'] r' s by (auto simp: ef_peek_def peeked_def)
  qed
next
  case False
  with r ef_repr_len [OF r] show ?thesis by (auto simp: ef_peek_def peeked_def ef_repr_def)
qed

lemma ef_next_law:
  assumes r: "ef_repr r ps p"
  shows "\<exists>r'. ef_next r = Some (peeked ps p, r') \<and> ef_repr r' ps (min (Suc p) (length ps))"
proof -
  obtain r' where r': "ef_peek r = Some (peeked ps p, r')" "ef_repr r' ps p" "p < length ps \<longrightarrow> p < ef_scan_done r'"
    using ef_peek_law [OF r] by blast
  show ?thesis
  proof (cases "p < length ps")
    case True
    with r' ef_drop_head_repr [OF r'(2)] show ?thesis by (auto simp: ef_next_def peeked_def)
  next
    case False
    with ef_repr_len [OF r] have "p = length ps" by simp
    with r' show ?thesis by (auto simp: ef_next_def peeked_def)
  qed
qed

lemma ef_scan_push:
  assumes "ef_repr r ps p" "ef_scan_done r < length ps"
  shows "scan_one r = Some (ef_high (map fst ps) (ef_scan_done r), r\<lparr>ef_scan_bit := upos (map fst ps) (ef_scan_done r) + 1\<rparr>)"
    "\<exists>r'. scan_push r = Some r' \<and> ef_repr r' ps p \<and> ef_scan_done r' = Suc (ef_scan_done r)"
proof -
  show s: "scan_one r = Some (ef_high (map fst ps) (ef_scan_done r), r\<lparr>ef_scan_bit := upos (map fst ps) (ef_scan_done r) + 1\<rparr>)"
    using scan_one_next [of r "map fst ps"] assms by (auto simp: ef_repr_def)
  show "\<exists>r'. scan_push r = Some r' \<and> ef_repr r' ps p \<and> ef_scan_done r' = Suc (ef_scan_done r)"
    using ef_push_repr [OF assms] by (simp add: scan_push_def s)
qed

text \<open>The first loop stops at the first posting whose high part reaches the threshold.\<close>

lemma ef_discard_law:
  "ef_repr r ps p \<Longrightarrow> \<exists>left r' q. ef_discard r h = Some (left, r') \<and> ef_repr r' ps q \<and> p \<le> q
     \<and> (\<forall>i. p \<le> i \<and> i < q \<longrightarrow> ef_high (map fst ps) i < h)
     \<and> (if left then q < length ps else q = length ps)"
proof (induction "length ps - p" arbitrary: r p rule: less_induct)
  case less
  note r = less.prems and L = ef_repr_len [OF less.prems]
  have F: "ef_pos r = p" "p \<le> ef_scan_done r" "ef_highs r = map (ef_high (map fst ps)) [p..<ef_scan_done r]"
    using r by (simp_all add: ef_repr_def)
  have step: ?case if p: "p < length ps" and hi: "ef_high (map fst ps) p < h"
    and d: "ef_discard r h = ef_discard s h" and s: "ef_repr s ps (Suc p)" for s
  proof -
    have "length ps - Suc p < length ps - p" using p by simp
    from less.hyps [OF this s] obtain left r' q where q: "ef_discard s h = Some (left, r')" "ef_repr r' ps q" "Suc p \<le> q"
      "\<forall>i. Suc p \<le> i \<and> i < q \<longrightarrow> ef_high (map fst ps) i < h" "if left then q < length ps else q = length ps"
      by blast
    have "\<forall>i. p \<le> i \<and> i < q \<longrightarrow> ef_high (map fst ps) i < h"
      using hi q(4) by (metis Suc_leI le_neq_implies_less)
    then show ?thesis
      using q d by (intro exI [of _ left] exI [of _ r'] exI [of _ q]) simp
  qed
  show ?case
  proof (cases "p < ef_scan_done r")
    case True
    then have g: "get (ef_highs r) 0 = Some (ef_high (map fst ps) p)" by (simp add: F(3) index_def)
    show ?thesis
    proof (cases "ef_high (map fst ps) p < h")
      case hi: True
      have "ef_discard r h = ef_discard (ef_drop_head r) h"
        using True g hi F(1) by (subst ef_discard.simps) simp
      with step [OF _ hi _ ef_drop_head_repr [OF r True]] True L show ?thesis by simp
    next
      case False
      have "ef_discard r h = Some (True, r)"
        using True g False F(1) by (subst ef_discard.simps) simp
      then show ?thesis
        using r True L by (intro exI [of _ True] exI [of _ r] exI [of _ p]) simp
    qed
  next
    case False
    then have sd: "ef_scan_done r = p" using F(2) by simp
    show ?thesis
    proof (cases "p < length ps")
      case True
      have so: "scan_one r = Some (ef_high (map fst ps) p, r\<lparr>ef_scan_bit := upos (map fst ps) p + 1\<rparr>)"
        using ef_scan_push(1) [OF r] True sd by simp
      let ?r2 = "r\<lparr>ef_scan_bit := upos (map fst ps) p + 1, ef_scan_done := ef_scan_done r + 1\<rparr>"
      have sc: "ef_scan ?r2 (map fst ps)" using scan_step [of r "map fst ps"] r True sd by (simp add: ef_repr_def)
      show ?thesis
      proof (cases "ef_high (map fst ps) p < h")
        case hi: True
        have "ef_repr (?r2\<lparr>ef_pos := Suc p\<rparr>) ps (Suc p)"
          using sc r sd F(3) by (simp add: ef_repr_def ef_scan_def)
        moreover have "ef_discard r h = ef_discard (?r2\<lparr>ef_pos := Suc p\<rparr>) h"
          using so sd True hi F(1) L by (subst ef_discard.simps) (simp add: Let_def)
        ultimately show ?thesis using step [OF True hi] by blast
      next
        case False
        have "ef_repr (?r2\<lparr>ef_highs := ef_highs r @ [ef_high (map fst ps) p]\<rparr>) ps p"
          using sc r sd F(3) by (simp add: ef_repr_def ef_scan_def)
        moreover have "ef_discard r h = Some (True, ?r2\<lparr>ef_highs := ef_highs r @ [ef_high (map fst ps) p]\<rparr>)"
          using so sd True False F(1) L by (subst ef_discard.simps) (simp add: Let_def)
        ultimately show ?thesis
          using True by (intro exI [of _ True] exI [of _ "?r2\<lparr>ef_highs := ef_highs r @ [ef_high (map fst ps) p]\<rparr>"] exI [of _ p]) simp
      qed
    next
      case False
      then have "p = length ps" using L by simp
      moreover from this have "ef_discard r h = Some (False, r\<lparr>ef_pos := ef_count r\<rparr>)"
        using sd F(1) L by (subst ef_discard.simps) simp
      moreover have "ef_repr (r\<lparr>ef_pos := ef_count r\<rparr>) ps p"
        using r L \<open>p = length ps\<close> by (simp add: ef_repr_def ef_scan_def)
      ultimately show ?thesis
        by (intro exI [of _ False] exI [of _ "r\<lparr>ef_pos := ef_count r\<rparr>"] exI [of _ p]) simp
    qed
  qed
qed

lemma ef_candidates_law:
  "ef_repr r ps p \<Longrightarrow> \<exists>r'. ef_candidates r t = Some (peeked ps (adv ps p t), r') \<and> ef_repr r' ps (adv ps p t)"
proof (induction "length ps - p" arbitrary: r p rule: less_induct)
  case less
  note r = less.prems and L = ef_repr_len [OF less.prems]
  have F: "ef_pos r = p" "p \<le> ef_scan_done r" using r by (simp_all add: ef_repr_def)
  show ?case
  proof (cases "p < length ps")
    case False
    then have "p = length ps" "ef_scan_done r = p" using L F by simp_all
    with F(1) L r show ?thesis
      by (subst ef_candidates.simps) (simp add: adv_end peeked_def ef_repr_def ef_scan_def)
  next
    case True
    obtain s where s: "(if ef_pos r = ef_scan_done r then scan_push r else Some r) = Some s" "ef_repr s ps p" "p < ef_scan_done s"
    proof (cases "ef_scan_done r = p")
      case eq: True
      with ef_scan_push(2) [OF r] True F(1) that show ?thesis by auto
    next
      case False
      with r F that show ?thesis by simp
    qed
    have g: "\<not> (ef_pos r = ef_scan_done r \<and> ef_count r \<le> ef_scan_done r)" using True F(1) L by auto
    have v: "ef_value s = Some (fst (ps ! p))" by (rule ef_value_at [OF s(2,3)])
    show ?thesis
    proof (cases "t \<le> fst (ps ! p)")
      case le: True
      have "ef_candidates r t = Some (Some (fst (ps ! p)), s)"
        unfolding ef_candidates.simps [of r t] if_not_P [OF g] s(1) using v le by simp
      with s(2) True le show ?thesis by (simp add: adv_stop peeked_def)
    next
      case False
      have "ef_candidates r t = ef_candidates (ef_drop_head s) t"
        unfolding ef_candidates.simps [of r t] if_not_P [OF g] s(1) using v False by simp
      moreover have "\<exists>r'. ef_candidates (ef_drop_head s) t = Some (peeked ps (adv ps (Suc p) t), r') \<and> ef_repr r' ps (adv ps (Suc p) t)"
        using True by (intro less.hyps ef_drop_head_repr [OF s(2,3)]) simp
      ultimately show ?thesis using True False by (simp add: adv_step)
    qed
  qed
qed

lemma ef_advance_law:
  assumes r: "ef_repr r ps p"
  shows "\<exists>r'. ef_advance r t = Some (peeked ps (adv ps p t), r') \<and> ef_repr r' ps (adv ps p t)"
proof -
  obtain r' where r': "ef_peek r = Some (peeked ps p, r')" "ef_repr r' ps p" using ef_peek_law [OF r] by blast
  have f: "ef_pos r' = p" "ef_l r' = ef_lw (map fst ps)" "ef_count r' = length ps"
    using r'(2) by (auto simp: ef_repr_def ef_scan_def)
  show ?thesis
  proof (cases "p < length ps \<and> fst (ps ! p) < t")
    case False
    then have "adv ps p t = p" by (cases "p < length ps") (auto simp: adv_stop adv_end)
    with False r' f ef_repr_len [OF r] show ?thesis by (auto simp: ef_advance_def peeked_def)
  next
    case True
    let ?h = "drop_bit (ef_lw (map fst ps)) t"
    obtain left r'' q where q: "ef_discard r' ?h = Some (left, r'')" "ef_repr r'' ps q" "p \<le> q"
      "\<forall>i. p \<le> i \<and> i < q \<longrightarrow> ef_high (map fst ps) i < ?h" "if left then q < length ps else q = length ps"
      using ef_discard_law [OF r'(2)] by blast
    have ql: "q \<le> length ps" using q(5) by (auto split: if_splits)
    have "fst (ps ! i) < t" if i: "p \<le> i" "i < q" for i
    proof -
      have "drop_bit (ef_lw (map fst ps)) (fst (ps ! i)) < ?h" using q(4) i ql by (simp add: ef_high_def)
      then show ?thesis by (metis div_le_mono drop_bit_eq_div not_le)
    qed
    then have a: "adv ps p t = adv ps q t" using q(3) ql by (intro adv_skip)
    show ?thesis
    proof (cases left)
      case left: True
      have "ef_advance r t = ef_candidates r'' t"
        using True r'(1) f q(1) left by (simp add: ef_advance_def peeked_def)
      with ef_candidates_law [OF q(2), of t] a show ?thesis by simp
    next
      case False
      with q(5) have "q = length ps" by simp
      then have "adv ps p t = length ps" using a by (simp add: adv_end)
      moreover have "ef_advance r t = Some (None, r'')"
        using True r'(1) f q(1) False by (simp add: ef_advance_def peeked_def)
      ultimately show ?thesis using q(2) \<open>q = length ps\<close> by (simp add: peeked_def)
    qed
  qed
qed

interpretation efc: docid_reader ef_ops ef_repr
proof
  fix r ps p assume r: "ef_repr r ps p"
  show "sorted_wrt (<) (map fst ps)" "p \<le> length ps" "\<And>x. x \<in> set ps \<Longrightarrow> fst x < 2 ^ 32 \<and> snd x = 1" "length ps < 2 ^ 32"
    "rd_len ef_ops r = length ps" "rd_pos ef_ops r = p"
    using r by (auto simp: ef_repr_def ef_scan_def ef_ok_def ef_ops_def)
  show "\<exists>r'. rd_peek ef_ops r = Some (peeked ps p, r') \<and> ef_repr r' ps p"
    using ef_peek_law [OF r] by (auto simp: ef_ops_def)
  show "\<exists>r'. rd_next ef_ops r = Some (peeked ps p, r') \<and> ef_repr r' ps (min (Suc p) (length ps))"
    using ef_next_law [OF r] by (simp add: ef_ops_def)
  show "\<exists>r'. rd_advance ef_ops r t = Some (peeked ps (adv ps p t), r') \<and> ef_repr r' ps (adv ps p t)" for t
    using ef_advance_law [OF r] by (simp add: ef_ops_def)
qed (simp_all add: ef_ops_def)

text \<open>Opening the buffer.\<close>

lemma ef_new_law:
  assumes "ef_ok docs"
  shows "\<exists>r. ef_new (ef_buffer docs) = Some r \<and> ef_repr r (map (\<lambda>d. (d, 1)) docs) 0"
proof -
  let ?d = "ef_buffer docs"
  have n: "length docs < 2 ^ 32" "docs \<noteq> []" "docs ! (length docs - 1) < 2 ^ 32" using assms by (auto simp: ef_ok_def)
  have "ef_high docs (length docs - 1) < 2 ^ 32"
    using n(3) by (simp add: ef_high_def drop_bit_eq_div) (meson div_le_dividend le_less_trans)
  then have "ef_high docs (length docs - 1) + length docs < (2 ^ 32 - 1) * 64" using n(1) by simp
  then have "(ef_high docs (length docs - 1) + length docs) div 64 < 2 ^ 32 - 1" by (rule less_mult_imp_div_less)
  then have wt: "ef_word_total docs < 2 ^ 32" by (simp add: ef_word_total_def)
  have len: "length ?d = 13 + ef_word_total docs * 8 + length (ef_low_bytes (ef_lw docs) docs)"
    by (simp add: ef_buffer_def length_words ef_words(2) [OF assms])
  have f0: "read_u32 ?d 0 = Some (length docs)"
    unfolding read_u32_eq ef_buffer_def ef_header_def using read_u32_append [of "[]" 0 "length docs"] n(1) by simp
  have f4: "get ?d 4 = Some (word_of_nat (ef_lw docs))"
    unfolding ef_buffer_def ef_header_def using index_append [of "to_le 4 (length docs)" 4] by simp
  have f5: "read_u32 ?d 5 = Some (docs ! (length docs - 1))"
    unfolding read_u32_eq ef_buffer_def ef_header_def
    using read_u32_append [of "to_le 4 (length docs) @ [word_of_nat (ef_lw docs)]" 5 "docs ! (length docs - 1)"] n(3) by simp
  have f9: "read_u32 ?d 9 = Some (ef_word_total docs)"
    unfolding read_u32_eq ef_buffer_def ef_header_def
    using read_u32_append [of "to_le 4 (length docs) @ [word_of_nat (ef_lw docs)] @ to_le 4 (docs ! (length docs - 1))" 9 "ef_word_total docs"] wt
    by simp
  have l: "unat (word_of_nat (ef_lw docs) :: u8) = ef_lw docs" using ef_lw_le [of docs] by (simp add: unat_byte)
  have "ef_new ?d = Some \<lparr>ef_data = ?d, ef_words_start = 13, ef_word_count = ef_word_total docs,
           ef_lows_start = 13 + ef_word_total docs * 8, ef_count = length docs, ef_l = ef_lw docs, ef_pos = 0,
           ef_highs = [], ef_scan_done = 0, ef_scan_bit = 0\<rparr>"
    using len l ef_lw_le [of docs] n(2) by (simp add: ef_new_def f0 f4 f5 f9)
  with assms show ?thesis by (simp add: ef_repr_def ef_scan_def o_def)
qed

end
