(* ===== verification/Partitioned_EF.thy ===== *)
theory Partitioned_EF
  imports Elias_Fano
begin

text \<open>
  The partitioned Elias-Fano codec (\<open>crates/ic-stable-text-postings/src/enc/partitioned_ef.rs\<close>):
  partitions of 64 docids, each an Elias-Fano blob, behind an Elias-Fano list of the partitions'
  last docids. A panic is \<open>None\<close>.
\<close>

section \<open>Encoder\<close>

definition PEF_PARTITION_SIZE :: nat where "PEF_PARTITION_SIZE = 64"

fun pef_parts_loop :: "nat list list \<Rightarrow> nat list \<Rightarrow> bytes \<Rightarrow> (nat list \<times> bytes) option" where
  "pef_parts_loop [] offsets partitions = Some (offsets, partitions)"
| "pef_parts_loop (part # parts) offsets partitions = do {
     blob \<leftarrow> encode_elias_fano part;
     pef_parts_loop parts (offsets @ [length partitions mod 2 ^ 32]) (partitions @ blob) }"

definition pef_bounds :: "nat list \<Rightarrow> nat list" where
  "pef_bounds docs = map (\<lambda>part. part ! (length part - 1)) (chunks PEF_PARTITION_SIZE docs)"

definition encode_partitioned_ef :: "nat list \<Rightarrow> bytes option" where
  "encode_partitioned_ef docs = do {
     guard (assert_strictly_increasing docs);
     meta \<leftarrow> encode_elias_fano (pef_bounds docs);
     (offsets, partitions) \<leftarrow> pef_parts_loop (chunks PEF_PARTITION_SIZE docs) [] [];
     Some (to_le 4 (length docs) @ to_le 4 PEF_PARTITION_SIZE @ to_le 4 (length meta) @ meta
       @ concat (map (to_le 4) (offsets @ [length partitions mod 2 ^ 32])) @ partitions) }"

section \<open>Reader\<close>

record pef_reader =
  pf_data :: bytes
  pf_parts_start :: nat
  pf_part_offsets :: "nat list"
  pf_count :: nat
  pf_part_size :: nat
  pf_meta :: ef_reader
  pf_pos :: nat
  pf_active :: "(nat \<times> ef_reader) option"

definition pef_new :: "bytes \<Rightarrow> pef_reader option" where
  "pef_new data = do {
     guard (12 \<le> length data);
     count \<leftarrow> read_u32 data 0;
     part_size \<leftarrow> read_u32 data 4;
     meta_len \<leftarrow> read_u32 data 8;
     guard (\<not> (part_size \<noteq> PEF_PARTITION_SIZE \<or> count = 0 \<or> length data < 12 + meta_len));
     blob \<leftarrow> subslice data 12 (12 + meta_len);
     meta \<leftarrow> ef_new blob;
     guard (ef_count meta = div_ceil count part_size);
     let offs_start = 12 + meta_len;
     let parts_start = offs_start + (ef_count meta + 1) * 4;
     guard (parts_start \<le> length data);
     part_offsets \<leftarrow> those (map (\<lambda>b. read_u32 data (offs_start + b * 4)) [0..<ef_count meta + 1]);
     Some \<lparr>pf_data = data, pf_parts_start = parts_start, pf_part_offsets = part_offsets, pf_count = count,
           pf_part_size = part_size, pf_meta = meta, pf_pos = 0, pf_active = None\<rparr> }"

definition partition_reader :: "pef_reader \<Rightarrow> nat \<Rightarrow> ef_reader option" where
  "partition_reader r b = do {
     o1 \<leftarrow> get (pf_part_offsets r) b;
     o2 \<leftarrow> get (pf_part_offsets r) (b + 1);
     sl \<leftarrow> subslice (pf_data r) (pf_parts_start r + o1) (pf_parts_start r + o2);
     ef_new sl }"

fun skip_next :: "nat \<Rightarrow> ef_reader \<Rightarrow> ef_reader option" where
  "skip_next 0 r = Some r"
| "skip_next (Suc n) r = do { (_, r') \<leftarrow> ef_next r; skip_next n r' }"

definition active_for :: "pef_reader \<Rightarrow> nat \<Rightarrow> ef_reader option" where
  "active_for r part = do {
     reader \<leftarrow> partition_reader r part;
     skip_next (pf_pos r mod pf_part_size r) reader }"

definition pef_peek :: "pef_reader \<Rightarrow> (nat option \<times> pef_reader) option" where
  "pef_peek r = (if pf_count r \<le> pf_pos r then Some (None, r) else do {
     let part = pf_pos r div pf_part_size r;
     reader \<leftarrow> (case pf_active r of
         Some (p, reader) \<Rightarrow> (if p = part then Some reader else active_for r part)
       | None \<Rightarrow> active_for r part);
     (v, reader') \<leftarrow> ef_peek reader;
     Some (v, r\<lparr>pf_active := Some (part, reader')\<rparr>) })"

definition pef_next :: "pef_reader \<Rightarrow> (nat option \<times> pef_reader) option" where
  "pef_next r = do {
     (v, r') \<leftarrow> pef_peek r;
     case v of
       None \<Rightarrow> Some (None, r')
     | Some d \<Rightarrow> do {
         (part, reader) \<leftarrow> pf_active r';
         (_, reader') \<leftarrow> ef_next reader;
         Some (Some d, r'\<lparr>pf_active := Some (part, reader'), pf_pos := pf_pos r' + 1\<rparr>) } }"

text \<open>The loop over the bounds: whether a partition that reaches the target is left.\<close>

partial_function (option) pef_meta_loop :: "ef_reader \<Rightarrow> nat \<Rightarrow> (bool \<times> ef_reader) option" where
  "pef_meta_loop meta target = do {
     (bound, meta') \<leftarrow> ef_peek meta;
     case bound of
       None \<Rightarrow> Some (False, meta')
     | Some b \<Rightarrow> (if target \<le> b then Some (True, meta')
         else do { (_, meta'') \<leftarrow> ef_next meta'; pef_meta_loop meta'' target }) }"

definition pef_advance :: "pef_reader \<Rightarrow> nat \<Rightarrow> (nat option \<times> pef_reader) option" where
  "pef_advance r target = do {
     (current, r1) \<leftarrow> pef_peek r;
     if (case current of Some v \<Rightarrow> target \<le> v | None \<Rightarrow> False) then Some (current, r1)
     else if pf_count r1 \<le> pf_pos r1 then Some (None, r1)
     else do {
       (left, meta) \<leftarrow> pef_meta_loop (pf_meta r1) target;
       let r2 = r1\<lparr>pf_meta := meta\<rparr>;
       if \<not> left then Some (None, r2\<lparr>pf_pos := pf_count r2\<rparr>)
       else do {
         let part = max (ef_pos meta) (pf_pos r2 div pf_part_size r2);
         reader \<leftarrow> partition_reader r2 part;
         (v, reader') \<leftarrow> ef_advance reader target;
         case v of
           None \<Rightarrow> Some (None, r2\<lparr>pf_pos := pf_count r2\<rparr>)
         | Some value \<Rightarrow> Some (Some value,
             r2\<lparr>pf_pos := part * pf_part_size r2 + ef_pos reader', pf_active := Some (part, reader')\<rparr>) } } }"

definition pef_ops :: "pef_reader reader_ops" where
  "pef_ops = \<lparr>rd_len = pf_count, rd_pos = pf_pos, rd_peek = pef_peek, rd_next = pef_next,
     rd_advance = pef_advance, rd_tf = default_tf pef_peek,
     rd_next_step = default_next_step pef_next (default_tf pef_peek)\<rparr>"

section \<open>Lemmas: partitions\<close>

definition pef_parts :: "nat list \<Rightarrow> nat list list" where
  "pef_parts docs = chunks PEF_PARTITION_SIZE docs"

lemma length_pef_parts: "length (pef_parts docs) = div_ceil (length docs) 64"
  by (simp add: pef_parts_def length_chunks PEF_PARTITION_SIZE_def)

lemma pef_part_start: "b < length (pef_parts docs) \<longleftrightarrow> b * 64 < length docs"
  using div_ceil_less_mult [of 64 b "length docs"] by (simp add: length_pef_parts)

lemma pef_parts_nth: "b < length (pef_parts docs) \<Longrightarrow> pef_parts docs ! b = take 64 (drop (b * 64) docs)"
  by (simp add: pef_parts_def chunks_nth PEF_PARTITION_SIZE_def)

lemma pef_part_facts:
  assumes "b < length (pef_parts docs)"
  shows "length (pef_parts docs ! b) = min 64 (length docs - b * 64)"
    "i < length (pef_parts docs ! b) \<Longrightarrow> pef_parts docs ! b ! i = docs ! (b * 64 + i)"
    "ef_ok docs \<Longrightarrow> ef_ok (pef_parts docs ! b)"
proof -
  have b: "b * 64 < length docs" using assms pef_part_start by blast
  show "length (pef_parts docs ! b) = min 64 (length docs - b * 64)" using assms b by (simp add: pef_parts_nth)
  show "i < length (pef_parts docs ! b) \<Longrightarrow> pef_parts docs ! b ! i = docs ! (b * 64 + i)"
    using assms b by (simp add: pef_parts_nth)
  show "ef_ok docs \<Longrightarrow> ef_ok (pef_parts docs ! b)"
    using assms b
    by (auto simp: pef_parts_nth ef_ok_def sorted_wrt_take sorted_wrt_drop dest: in_set_takeD in_set_dropD)
qed

lemma pef_bounds_alt: "pef_bounds docs = map (\<lambda>part. part ! (length part - 1)) (pef_parts docs)"
  by (simp add: pef_bounds_def pef_parts_def)

lemma length_pef_bounds [simp]: "length (pef_bounds docs) = length (pef_parts docs)"
  by (simp add: pef_bounds_alt)

lemma pef_bounds_nth:
  assumes "b < length (pef_parts docs)"
  shows "pef_bounds docs ! b = docs ! (min (b * 64 + 64) (length docs) - 1)"
proof -
  have b: "b * 64 < length docs" using assms pef_part_start by blast
  have l: "length (pef_parts docs ! b) = min 64 (length docs - b * 64)" by (rule pef_part_facts(1) [OF assms])
  have "0 < length (pef_parts docs ! b)" unfolding l using b by simp
  then have "length (pef_parts docs ! b) - 1 < length (pef_parts docs ! b)" by simp
  from pef_part_facts(2) [OF assms this] have "pef_bounds docs ! b = docs ! (b * 64 + (length (pef_parts docs ! b) - 1))"
    using assms by (simp add: pef_bounds_alt)
  moreover have "b * 64 + (length (pef_parts docs ! b) - 1) = min (b * 64 + 64) (length docs) - 1"
    unfolding l using b by linarith
  ultimately show ?thesis by simp
qed

lemma pef_bounds_ok:
  assumes "ef_ok docs"
  shows "ef_ok (pef_bounds docs)"
proof -
  have s: "sorted_wrt (<) docs" and u: "\<forall>d\<in>set docs. d < 2 ^ 32" and ne: "docs \<noteq> []" and n: "length docs < 2 ^ 32"
    using assms by (auto simp: ef_ok_def)
  have idx: "min (b * 64 + 64) (length docs) - 1 < length docs" for b using ne by (cases docs) auto
  have "pef_bounds docs ! a < pef_bounds docs ! b" if ab: "a < b" "b < length (pef_parts docs)" for a b
  proof -
    have "b * 64 < length docs" using ab(2) pef_part_start by blast
    moreover have "a * 64 + 64 \<le> b * 64" using ab(1) by simp
    ultimately have "min (a * 64 + 64) (length docs) - 1 < min (b * 64 + 64) (length docs) - 1" by linarith
    from sorted_wrt_nth_less [OF s this idx] ab show ?thesis by (simp add: pef_bounds_nth)
  qed
  moreover have "pef_bounds docs ! b < 2 ^ 32" if "b < length (pef_parts docs)" for b
    using u idx [of b] that by (simp add: pef_bounds_nth)
  moreover have "0 < length (pef_parts docs)" using ne pef_part_start [of 0 docs] by simp
  moreover have "length (pef_parts docs) \<le> length docs"
    using div_ceil_less_mult [of 64 "length docs" "length docs"] by (simp add: length_pef_parts not_less)
  ultimately show ?thesis
    using n by (auto simp: ef_ok_def sorted_wrt_iff_nth_less in_set_conv_nth simp flip: length_greater_0_conv)
qed

section \<open>Lemmas: the buffer\<close>

definition pef_offset :: "nat list \<Rightarrow> nat \<Rightarrow> nat" where
  "pef_offset docs b = length (concat (map ef_buffer (take b (pef_parts docs))))"

definition pef_buffer :: "nat list \<Rightarrow> bytes" where
  "pef_buffer docs = (to_le 4 (length docs) @ to_le 4 PEF_PARTITION_SIZE @ to_le 4 (length (ef_buffer (pef_bounds docs)))
       @ ef_buffer (pef_bounds docs))
     @ concat (map (\<lambda>b. to_le 4 (pef_offset docs b mod 2 ^ 32)) [0..<length (pef_parts docs) + 1])
     @ concat (map ef_buffer (pef_parts docs))"

definition pef_ok :: "nat list \<Rightarrow> bool" where
  "pef_ok docs = (ef_ok docs \<and> length (pef_buffer docs) < 2 ^ 32)"

lemma ef_ok_encode: "ef_ok docs \<Longrightarrow> encode_elias_fano docs = Some (ef_buffer docs)"
proof (rule encode_ef_buffer)
  assume ok: "ef_ok docs"
  show "assert_strictly_increasing docs"
    using ok by (auto simp: ef_ok_def assert_strictly_increasing_def sorted_wrt_iff_nth_less)
qed

lemma pef_parts_loop_eq:
  "\<forall>c\<in>set cs. ef_ok c \<Longrightarrow> pef_parts_loop cs os p =
     Some (os @ map (\<lambda>i. (length p + length (concat (map ef_buffer (take i cs)))) mod 2 ^ 32) [0..<length cs],
           p @ concat (map ef_buffer cs))"
proof (induction cs arbitrary: os p)
  case (Cons c cs)
  have "map (\<lambda>i. (length p + length (concat (map ef_buffer (take i (c # cs))))) mod 2 ^ 32) [0..<length (c # cs)]
    = length p mod 2 ^ 32 # map (\<lambda>i. (length (p @ ef_buffer c) + length (concat (map ef_buffer (take i cs)))) mod 2 ^ 32)
        [0..<length cs]"
    by (simp del: upt_Suc add: upt_conv_Cons map_Suc_upt [symmetric] o_def add.assoc)
  then show ?case using Cons by (simp del: upt_Suc add: ef_ok_encode)
qed simp

lemma encode_pef_buffer:
  assumes "ef_ok docs"
  shows "encode_partitioned_ef docs = Some (pef_buffer docs)"
proof -
  have parts: "\<forall>c\<in>set (pef_parts docs). ef_ok c"
    using pef_part_facts(3) [OF _ assms] by (auto simp: in_set_conv_nth)
  have inc: "assert_strictly_increasing docs"
    using assms by (auto simp: ef_ok_def assert_strictly_increasing_def sorted_wrt_iff_nth_less)
  show ?thesis
    using pef_parts_loop_eq [OF parts, of "[]" "[]"] inc ef_ok_encode [OF pef_bounds_ok [OF assms]]
    by (simp add: encode_partitioned_ef_def pef_buffer_def pef_parts_def [symmetric] pef_offset_def o_def)
qed

definition pef_parts_at :: "nat list \<Rightarrow> nat" where
  "pef_parts_at docs = 12 + length (ef_buffer (pef_bounds docs)) + (length (pef_parts docs) + 1) * 4"

lemma pef_part_slice:
  assumes "b < length (pef_parts docs)"
  shows "subslice (pef_buffer docs) (pef_parts_at docs + pef_offset docs b) (pef_parts_at docs + pef_offset docs (Suc b))
    = Some (ef_buffer (pef_parts docs ! b))"
proof -
  let ?cs = "pef_parts docs"
  let ?pre = "(to_le 4 (length docs) @ to_le 4 PEF_PARTITION_SIZE @ to_le 4 (length (ef_buffer (pef_bounds docs)))
       @ ef_buffer (pef_bounds docs)) @ concat (map (\<lambda>b. to_le 4 (pef_offset docs b mod 2 ^ 32)) [0..<length ?cs + 1])"
  have len: "length ?pre = pef_parts_at docs"
    by (simp add: length_for_tables(2) pef_parts_at_def del: upt_Suc)
  have buf: "pef_buffer docs = (?pre @ concat (map ef_buffer (take b ?cs))) @ ef_buffer (?cs ! b)
      @ concat (map ef_buffer (drop (Suc b) ?cs))"
    using concat_split [OF assms, of ef_buffer] by (simp add: pef_buffer_def)
  have suc: "pef_offset docs (Suc b) = pef_offset docs b + length (ef_buffer (?cs ! b))"
    using assms by (simp add: pef_offset_def take_Suc_conv_app_nth)
  have lenA: "length (?pre @ concat (map ef_buffer (take b ?cs))) = pef_parts_at docs + pef_offset docs b"
    unfolding length_append [of ?pre] len pef_offset_def [of docs b] ..
  show ?thesis unfolding buf suc
    by (rule subslice_append [OF lenA refl]) (simp only: add.assoc)
qed

lemma pef_offset_less:
  assumes "pef_ok docs" "b \<le> length (pef_parts docs)"
  shows "pef_offset docs b < 2 ^ 32"
proof -
  have "concat (map ef_buffer (pef_parts docs))
      = concat (map ef_buffer (take b (pef_parts docs))) @ concat (map ef_buffer (drop b (pef_parts docs)))"
    by (metis append_take_drop_id concat_append map_append)
  then have "pef_offset docs b \<le> length (pef_buffer docs)" by (simp add: pef_offset_def pef_buffer_def)
  with assms(1) show ?thesis by (simp add: pef_ok_def)
qed

section \<open>Lemmas: the reader\<close>

abbreviation ones :: "nat list \<Rightarrow> postings" where
  "ones ds \<equiv> map (\<lambda>d. (d, 1)) ds"

definition pef_static :: "pef_reader \<Rightarrow> nat list \<Rightarrow> bool" where
  "pef_static r docs = (pef_ok docs \<and> pf_data r = pef_buffer docs \<and> pf_parts_start r = pef_parts_at docs
     \<and> pf_part_offsets r = map (pef_offset docs) [0..<length (pef_parts docs) + 1]
     \<and> pf_count r = length docs \<and> pf_part_size r = 64)"

text \<open>
  The bounds cursor never passes the partition of the position, and the cached partition reader,
  when it is for that partition, stands at the position.
\<close>

definition pef_repr :: "pef_reader \<Rightarrow> postings \<Rightarrow> nat \<Rightarrow> bool" where
  "pef_repr r ps p = (pef_static r (map fst ps) \<and> (\<forall>x\<in>set ps. snd x = 1) \<and> pf_pos r = p \<and> p \<le> length ps
     \<and> (\<exists>m. ef_repr (pf_meta r) (ones (pef_bounds (map fst ps))) m \<and> (p < length ps \<longrightarrow> m \<le> p div 64))
     \<and> (\<forall>part reader. pf_active r = Some (part, reader) \<longrightarrow> p < length ps \<longrightarrow> part = p div 64 \<longrightarrow>
          ef_repr reader (ones (pef_parts (map fst ps) ! part)) (p mod 64)))"

lemma partition_reader_law:
  assumes "pef_static r docs" "b < length (pef_parts docs)"
  shows "\<exists>e. partition_reader r b = Some e \<and> ef_repr e (ones (pef_parts docs ! b)) 0"
proof -
  have o: "get (pf_part_offsets r) b = Some (pef_offset docs b)" "get (pf_part_offsets r) (b + 1) = Some (pef_offset docs (Suc b))"
    using assms by (simp_all add: pef_static_def index_def nth_append del: upt_Suc)
  have sl: "subslice (pf_data r) (pf_parts_start r + pef_offset docs b) (pf_parts_start r + pef_offset docs (Suc b))
      = Some (ef_buffer (pef_parts docs ! b))"
    using pef_part_slice [OF assms(2)] assms(1) by (simp add: pef_static_def)
  have "ef_ok (pef_parts docs ! b)" using assms by (intro pef_part_facts(3)) (auto simp: pef_static_def pef_ok_def)
  from ef_new_law [OF this] show ?thesis by (simp only: partition_reader_def o sl bind.simps)
qed

lemma skip_next_law:
  "ef_repr e ps q \<Longrightarrow> q + n \<le> length ps \<Longrightarrow> \<exists>e'. skip_next n e = Some e' \<and> ef_repr e' ps (q + n)"
proof (induction n arbitrary: e q)
  case (Suc n)
  obtain e1 where e1: "ef_next e = Some (peeked ps q, e1)" "ef_repr e1 ps (min (Suc q) (length ps))"
    using ef_next_law [OF Suc.prems(1)] by blast
  have "min (Suc q) (length ps) = Suc q" using Suc.prems(2) by simp
  with Suc.IH [of e1 "Suc q"] e1 Suc.prems(2) show ?case by simp
qed simp

lemma pef_pos_part:
  assumes "p < length docs"
  shows "p div 64 < length (pef_parts docs)" "p mod 64 < length (pef_parts docs ! (p div 64))"
    "pef_parts docs ! (p div 64) ! (p mod 64) = docs ! p"
proof -
  have e: "p div 64 * 64 + p mod 64 = p" by simp
  then have "p div 64 * 64 < length docs" using assms by linarith
  then show b: "p div 64 < length (pef_parts docs)" using pef_part_start by blast
  show i: "p mod 64 < length (pef_parts docs ! (p div 64))"
    unfolding pef_part_facts(1) [OF b] using assms by (simp add: less_diff_conv)
  show "pef_parts docs ! (p div 64) ! (p mod 64) = docs ! p" using pef_part_facts(2) [OF b i] by (simp add: e)
qed

lemma pef_peek_law:
  assumes r: "pef_repr r ps p"
  shows "\<exists>r'. pef_peek r = Some (peeked ps p, r') \<and> pef_repr r' ps p
    \<and> (p < length ps \<longrightarrow> (\<exists>e. pf_active r' = Some (p div 64, e) \<and> ef_repr e (ones (pef_parts (map fst ps) ! (p div 64))) (p mod 64)))"
proof (cases "p < length ps")
  case True
  let ?docs = "map fst ps" let ?part = "pef_parts ?docs ! (p div 64)"
  have pl: "p < length ?docs" using True by simp
  note P = pef_pos_part [OF pl]
  have st: "pef_static r ?docs" "pf_pos r = p" "pf_part_size r = 64" "pf_count r = length ps"
    using r by (auto simp: pef_repr_def pef_static_def)
  obtain e0 where "partition_reader r (p div 64) = Some e0" "ef_repr e0 (ones ?part) 0"
    using partition_reader_law [OF st(1) P(1)] by blast
  then obtain e1 where fresh: "active_for r (p div 64) = Some e1" "ef_repr e1 (ones ?part) (p mod 64)"
    using skip_next_law [of e0 "ones ?part" 0 "p mod 64"] P(2) st by (auto simp: active_for_def)
  obtain e where e: "(case pf_active r of Some (q, reader) \<Rightarrow> (if q = p div 64 then Some reader else active_for r (p div 64))
       | None \<Rightarrow> active_for r (p div 64)) = Some e" "ef_repr e (ones ?part) (p mod 64)"
  proof (cases "\<exists>reader. pf_active r = Some (p div 64, reader)")
    case act: True
    then obtain reader where "pf_active r = Some (p div 64, reader)" by blast
    moreover from this have "ef_repr reader (ones ?part) (p mod 64)" using r True by (simp add: pef_repr_def)
    ultimately show ?thesis by (intro that [of reader]) simp_all
  next
    case False
    with fresh show ?thesis by (intro that [of e1]) (auto split: option.splits)
  qed
  obtain e' where e': "ef_peek e = Some (peeked (ones ?part) (p mod 64), e')" "ef_repr e' (ones ?part) (p mod 64)"
    using ef_peek_law [OF e(2)] by blast
  have v: "peeked (ones ?part) (p mod 64) = peeked ps p" using P(2,3) True by (simp add: peeked_def)
  have "pef_peek r = Some (peeked ps p, r\<lparr>pf_active := Some (p div 64, e')\<rparr>)"
    using True by (simp add: pef_peek_def st(2-4) e(1) e'(1) v [simplified] not_le Let_def)
  moreover have "pef_repr (r\<lparr>pf_active := Some (p div 64, e')\<rparr>) ps p"
    using r e'(2) by (auto simp: pef_repr_def pef_static_def)
  ultimately show ?thesis using e'(2) by auto
next
  case False
  with r show ?thesis by (auto simp: pef_peek_def peeked_def pef_repr_def pef_static_def)
qed

lemma div_mod_Suc_same: "Suc p div k = p div k \<Longrightarrow> 0 < k \<Longrightarrow> Suc p mod k = Suc (p mod k)"
  by (metis div_mult_mod_eq add_Suc_right add_left_cancel)

lemma pef_next_law:
  assumes r: "pef_repr r ps p"
  shows "\<exists>r'. pef_next r = Some (peeked ps p, r') \<and> pef_repr r' ps (min (Suc p) (length ps))"
proof -
  let ?docs = "map fst ps"
  obtain r1 where r1: "pef_peek r = Some (peeked ps p, r1)" "pef_repr r1 ps p"
    and act: "p < length ps \<longrightarrow> (\<exists>e. pf_active r1 = Some (p div 64, e) \<and> ef_repr e (ones (pef_parts ?docs ! (p div 64))) (p mod 64))"
    using pef_peek_law [OF r] by blast
  show ?thesis
  proof (cases "p < length ps")
    case True
    let ?part = "pef_parts ?docs ! (p div 64)"
    obtain e where e: "pf_active r1 = Some (p div 64, e)" "ef_repr e (ones ?part) (p mod 64)" using act True by blast
    obtain e' where e': "ef_next e = Some (peeked (ones ?part) (p mod 64), e')"
      "ef_repr e' (ones ?part) (min (Suc (p mod 64)) (length (ones ?part)))"
      using ef_next_law [OF e(2)] by blast
    have "p mod 64 < length (ones ?part)" using pef_pos_part(2) [of p ?docs] True by simp
    then have e'': "ef_repr e' (ones ?part) (Suc (p mod 64))" using e'(2) by (simp add: min_def Suc_leI)
    let ?r = "r1\<lparr>pf_active := Some (p div 64, e'), pf_pos := pf_pos r1 + 1\<rparr>"
    have "ef_repr e' (ones (pef_parts ?docs ! (p div 64))) (Suc p mod 64)" if "Suc p div 64 = p div 64"
      using e'' div_mod_Suc_same [OF that] by simp
    moreover have "p div 64 \<le> Suc p div 64" by (rule div_le_mono) simp
    ultimately have "pef_repr ?r ps (Suc p)"
      using r1(2) True by (fastforce simp: pef_repr_def pef_static_def)
    with r1(1) e(1) e'(1) True show ?thesis by (auto simp: pef_next_def peeked_def)
  next
    case False
    with r1(2) have "p = length ps" by (simp add: pef_repr_def)
    with r1 show ?thesis by (auto simp: pef_next_def peeked_def)
  qed
qed

lemma pef_meta_loop_law:
  "ef_repr e ps m \<Longrightarrow> \<exists>e'. pef_meta_loop e t = Some (adv ps m t < length ps, e') \<and> ef_repr e' ps (adv ps m t)"
proof (induction "length ps - m" arbitrary: e m rule: less_induct)
  case less
  obtain e1 where e1: "ef_peek e = Some (peeked ps m, e1)" "ef_repr e1 ps m" using ef_peek_law [OF less.prems] by blast
  have ml: "m \<le> length ps" using ef_repr_len [OF less.prems] by simp
  show ?case
  proof (cases "m < length ps \<and> fst (ps ! m) < t")
    case True
    obtain e2 where e2: "ef_next e1 = Some (peeked ps m, e2)" "ef_repr e2 ps (min (Suc m) (length ps))"
      using ef_next_law [OF e1(2)] by blast
    have "min (Suc m) (length ps) = Suc m" using True by simp
    with less.hyps [of "Suc m" e2] e2(2) True diff_less_mono2 [of m "Suc m" "length ps"]
    have "\<exists>e'. pef_meta_loop e2 t = Some (adv ps (Suc m) t < length ps, e') \<and> ef_repr e' ps (adv ps (Suc m) t)" by simp
    moreover have "pef_meta_loop e t = pef_meta_loop e2 t"
      using True e1(1) e2(1) by (subst pef_meta_loop.simps) (simp add: peeked_def)
    ultimately show ?thesis using True by (simp add: adv_step)
  next
    case False
    then have a: "adv ps m t = m" by (cases "m < length ps") (auto simp: adv_stop adv_end)
    show ?thesis
      using False e1 ml by (subst pef_meta_loop.simps) (auto simp: a peeked_def)
  qed
qed

lemma pef_advance_found:
  fixes ps :: postings and t :: nat
  defines "docs \<equiv> map fst ps"
  assumes ok: "ef_ok docs" and p: "p < length ps" "fst (ps ! p) < t" and m: "m \<le> p div 64"
    and q: "q = adv (ones (pef_bounds docs)) m t" "q < length (pef_parts docs)"
  shows "p div 64 \<le> q" "adv (ones (pef_parts docs ! q)) 0 t < length (pef_parts docs ! q)"
    "adv ps p t = q * 64 + adv (ones (pef_parts docs ! q)) 0 t"
proof -
  have s: "sorted_wrt (<) docs" using ok by (simp add: ef_ok_def)
  let ?bs = "ones (pef_bounds docs)" and ?part = "pef_parts docs ! q"
  have less_idx: "docs ! i < docs ! j" if "i < j" "j < length docs" for i j
    using sorted_wrt_nth_less [OF s that] .
  have behind: "pef_bounds docs ! b < t" if "b < p div 64" for b
  proof -
    have bp: "b * 64 + 64 \<le> p" using that by (metis Suc_leI add.commute div_times_less_eq_dividend le_trans mult_Suc mult_le_mono1)
    then have "pef_bounds docs ! b = docs ! (b * 64 + 63)"
      using p(1) pef_bounds_nth [of b docs] pef_part_start [of b docs] by (simp add: docs_def min_def add.commute)
    also have "\<dots> < docs ! p" using bp p(1) by (intro less_idx) (simp_all add: docs_def)
    finally show ?thesis using p by (simp add: docs_def)
  qed
  have bq: "t \<le> pef_bounds docs ! q"
  proof -
    have "m + length (takeWhile (\<lambda>x. fst x < t) (drop m ?bs)) = q" using q(1) by (simp add: adv_def)
    then have "\<not> fst (drop m ?bs ! (q - m)) < t"
      using nth_length_takeWhile [of "\<lambda>x. fst x < t" "drop m ?bs"] q(2) by auto
    then show ?thesis using q(2) q(1) adv_ge [of m ?bs t] by simp
  qed
  show pq: "p div 64 \<le> q" using behind [of q] bq by (meson not_le)
  have qs: "q * 64 < length docs" using q(2) pef_part_start by blast
  let ?a = "adv (ones ?part) 0 t"
  have partlen: "length ?part = min 64 (length docs - q * 64)" by (rule pef_part_facts(1) [OF q(2)])
  have a_le: "?a \<le> length ?part" using adv_le [of 0 "ones ?part" t] by simp
  have below: "?part ! i < t" if "i < ?a" for i
  proof -
    have "i < length (takeWhile (\<lambda>x. fst x < t) (ones ?part))" using that by (simp add: adv_def)
    then have "fst (ones ?part ! i) < t" by (metis nth_mem set_takeWhileD takeWhile_nth)
    then show ?thesis using that a_le by simp
  qed
  show a_lt: "?a < length ?part"
  proof (rule ccontr)
    assume "\<not> ?a < length ?part"
    moreover have "0 < length ?part" unfolding partlen using qs by simp
    ultimately have "length ?part - 1 < ?a" by linarith
    then have "?part ! (length ?part - 1) < t" by (rule below)
    then show False using bq q(2) by (simp add: pef_bounds_alt)
  qed
  have reach: "t \<le> ?part ! ?a"
    using nth_length_takeWhile [of "\<lambda>x. fst x < t" "ones ?part"] a_lt by (simp add: adv_def)
  have psn: "fst (ps ! (q * 64 + i)) = ?part ! i" "q * 64 + i < length ps" if "i < length ?part" for i
    using pef_part_facts(2) [OF q(2) that] that partlen by (auto simp: docs_def)
  have "adv ps p t = adv ps (q * 64 + ?a) t"
  proof (rule adv_skip)
    show "p \<le> q * 64 + ?a"
    proof (rule ccontr)
      assume n: "\<not> p \<le> q * 64 + ?a"
      then have "docs ! (q * 64 + ?a) < docs ! p" using p(1) by (intro less_idx) (simp_all add: docs_def)
      then show False using psn(1) [OF a_lt] psn(2) [OF a_lt] reach p by (simp add: docs_def)
    qed
    show "q * 64 + ?a \<le> length ps" using psn(2) [OF a_lt] by simp
    fix i assume i: "p \<le> i" "i < q * 64 + ?a"
    show "fst (ps ! i) < t"
    proof (cases "i < q * 64")
      case True
      have "i \<le> q * 64 + ?a" by (rule less_imp_le [OF i(2)])
      define b where "b = i div 64"
      have b: "b < q" "b * 64 \<le> i" "i < b * 64 + 64"
        using True by (auto simp: b_def less_mult_imp_div_less)
      have bound: "pef_bounds docs ! b < t"
      proof (cases "b < m")
        case True
        then show ?thesis using m behind by simp
      next
        case False
        then have "b - m < length (takeWhile (\<lambda>x. fst x < t) (drop m ?bs))" using b(1) q(1) by (simp add: adv_def)
        then have "fst (drop m ?bs ! (b - m)) < t" by (metis nth_mem set_takeWhileD takeWhile_nth)
        then show ?thesis using False b(1) q(2) by simp
      qed
      have "b * 64 + 64 \<le> q * 64" using b(1) by simp
      then have "pef_bounds docs ! b = docs ! (b * 64 + 63)"
        using pef_bounds_nth [of b docs] b(1) q(2) qs by (simp add: min_def add.commute)
      moreover have "docs ! i \<le> docs ! (b * 64 + 63)"
        using less_idx [of i "b * 64 + 63"] b(3) \<open>b * 64 + 64 \<le> q * 64\<close> qs by (cases "i = b * 64 + 63") auto
      moreover have "fst (ps ! i) = docs ! i" using i psn(2) [OF a_lt] by (simp add: docs_def)
      ultimately show ?thesis using bound by simp
    next
      case False
      then have "i - q * 64 < ?a" using i(2) by simp
      with below [OF this] psn(1) [of "i - q * 64"] a_lt False show ?thesis by simp
    qed
  qed
  also have "\<dots> = q * 64 + ?a" using psn [OF a_lt] reach by (intro adv_stop) simp_all
  finally show "adv ps p t = q * 64 + ?a" .
qed

lemma pef_advance_law:
  assumes r: "pef_repr r ps p"
  shows "\<exists>r'. pef_advance r t = Some (peeked ps (adv ps p t), r') \<and> pef_repr r' ps (adv ps p t)"
proof -
  let ?docs = "map fst ps" and ?bs = "ones (pef_bounds (map fst ps))"
  obtain r1 where r1: "pef_peek r = Some (peeked ps p, r1)" "pef_repr r1 ps p" using pef_peek_law [OF r] by blast
  have f: "pf_pos r1 = p" "pf_count r1 = length ps" "pf_part_size r1 = 64" "pef_static r1 ?docs" "p \<le> length ps"
    using r1(2) by (auto simp: pef_repr_def pef_static_def)
  show ?thesis
  proof (cases "p < length ps \<and> fst (ps ! p) < t")
    case False
    then have "adv ps p t = p" by (cases "p < length ps") (auto simp: adv_stop adv_end)
    with False r1 f show ?thesis by (auto simp: pef_advance_def peeked_def)
  next
    case True
    obtain m where m: "ef_repr (pf_meta r1) ?bs m" "m \<le> p div 64" using r1(2) True by (auto simp: pef_repr_def)
    define q where "q = adv ?bs m t"
    obtain meta where meta: "pef_meta_loop (pf_meta r1) t = Some (q < length ?bs, meta)" "ef_repr meta ?bs q"
      using pef_meta_loop_law [OF m(1)] unfolding q_def by blast
    have start: "pef_advance r t = (if q < length ?bs then do {
         reader \<leftarrow> partition_reader (r1\<lparr>pf_meta := meta\<rparr>) (max q (p div 64));
         (v, reader') \<leftarrow> ef_advance reader t;
         case v of None \<Rightarrow> Some (None, (r1\<lparr>pf_meta := meta\<rparr>)\<lparr>pf_pos := length ps\<rparr>)
         | Some value \<Rightarrow> Some (Some value, (r1\<lparr>pf_meta := meta\<rparr>)
             \<lparr>pf_pos := max q (p div 64) * 64 + ef_pos reader', pf_active := Some (max q (p div 64), reader')\<rparr>) }
       else Some (None, (r1\<lparr>pf_meta := meta\<rparr>)\<lparr>pf_pos := length ps\<rparr>))"
      using True r1(1) f meta by (simp add: pef_advance_def peeked_def ef_repr_def Let_def cong: option.case_cong)
    have ok: "ef_ok ?docs" using f(4) by (simp add: pef_static_def pef_ok_def)
    show ?thesis
    proof (cases "q < length (pef_parts ?docs)")
      case lt: True
      note A = pef_advance_found [OF ok _ _ m(2) q_def lt] 
      let ?part = "pef_parts ?docs ! q"
      let ?a = "adv (ones ?part) 0 t"
      have pq: "p div 64 \<le> q" and al: "?a < length ?part" and ap: "adv ps p t = q * 64 + ?a"
        using A True by simp_all
      have mx: "max q (p div 64) = q" using pq by simp
      have "pef_static (r1\<lparr>pf_meta := meta\<rparr>) ?docs" using f(4) by (simp add: pef_static_def)
      then obtain e where e: "partition_reader (r1\<lparr>pf_meta := meta\<rparr>) q = Some e" "ef_repr e (ones ?part) 0"
        using partition_reader_law [OF _ lt] by blast
      obtain e' where e': "ef_advance e t = Some (peeked (ones ?part) ?a, e')" "ef_repr e' (ones ?part) ?a"
        using ef_advance_law [OF e(2)] by blast
      have pe: "ef_pos e' = ?a" using e'(2) by (simp add: ef_repr_def)
      have al64: "?a < 64" using al pef_part_facts(1) [OF lt] by simp
      have idx: "q * 64 + ?a < length ps" "?part ! ?a = fst (ps ! (q * 64 + ?a))"
        using pef_part_facts(1,2) [OF lt] al by (auto simp: less_diff_conv)
      have pk: "peeked (ones ?part) ?a = Some (fst (ps ! (q * 64 + ?a)))" using al idx by (simp add: peeked_def)
      have "pef_advance r t = Some (Some (fst (ps ! (q * 64 + ?a))), (r1\<lparr>pf_meta := meta\<rparr>)
          \<lparr>pf_pos := q * 64 + ?a, pf_active := Some (q, e')\<rparr>)"
        unfolding start mx e(1) bind.simps e'(1) pk using lt by (simp add: pe)
      moreover have "pef_repr ((r1\<lparr>pf_meta := meta\<rparr>)\<lparr>pf_pos := q * 64 + ?a, pf_active := Some (q, e')\<rparr>) ps (q * 64 + ?a)"
      proof -
        have "(q * 64 + ?a) div 64 = q" "(q * 64 + ?a) mod 64 = ?a" using al64 by simp_all
        then show ?thesis
          using r1(2) meta(2) e'(2) idx(1) unfolding pef_repr_def pef_static_def by (intro conjI exI [of _ q]) simp_all
      qed
      ultimately show ?thesis using ap idx by (simp add: peeked_def)
    next
      case False
      have "fst (ps ! i) < t" if i: "p \<le> i" "i < length ps" for i
      proof -
        let ?l = "length (pef_parts ?docs) - 1"
        have L: "0 < length (pef_parts ?docs)" using pef_pos_part(1) [of p ?docs] True by (simp del: length_greater_0_conv)
        have ml: "m \<le> ?l" using m(2) pef_pos_part(1) [of p ?docs] True by simp
        have "?l - m < length (takeWhile (\<lambda>x. fst x < t) (drop m ?bs))"
          using False L ml q_def [unfolded adv_def] by linarith
        then have "fst (drop m ?bs ! (?l - m)) < t" by (metis nth_mem set_takeWhileD takeWhile_nth)
        then have "pef_bounds ?docs ! ?l < t" using L ml by simp
        moreover have "pef_bounds ?docs ! ?l = ?docs ! (length ps - 1)"
        proof -
          have "length ps \<le> ?l * 64 + 64" using pef_part_start [of "Suc ?l" ?docs] L by simp
          then show ?thesis using pef_bounds_nth [of ?l ?docs] L by (simp add: min_def)
        qed
        moreover have "?docs ! i \<le> ?docs ! (length ps - 1)"
          using sorted_wrt_nth_less [of "(<)" ?docs i "length ps - 1"] ok i
          by (cases "i = length ps - 1") (auto simp: ef_ok_def less_imp_le)
        ultimately show ?thesis using i by simp
      qed
      then have "adv ps p t = adv ps (length ps) t" using f(5) by (intro adv_skip) auto
      then have a: "adv ps p t = length ps" by (simp add: adv_end)
      have "pef_advance r t = Some (None, (r1\<lparr>pf_meta := meta\<rparr>)\<lparr>pf_pos := length ps\<rparr>)"
        unfolding start using False by simp
      moreover have "pef_repr ((r1\<lparr>pf_meta := meta\<rparr>)\<lparr>pf_pos := length ps\<rparr>) ps (length ps)"
        using r1(2) meta(2) unfolding pef_repr_def pef_static_def by (intro conjI exI [of _ q]) simp_all
      ultimately show ?thesis by (simp add: a peeked_def)
    qed
  qed
qed

interpretation pefc: docid_reader pef_ops pef_repr
proof
  fix r ps p assume r: "pef_repr r ps p"
  show "sorted_wrt (<) (map fst ps)" "p \<le> length ps" "\<And>x. x \<in> set ps \<Longrightarrow> fst x < 2 ^ 32 \<and> snd x = 1" "length ps < 2 ^ 32"
    "rd_len pef_ops r = length ps" "rd_pos pef_ops r = p"
    using r by (auto simp: pef_repr_def pef_static_def pef_ok_def ef_ok_def pef_ops_def)
  show "\<exists>r'. rd_peek pef_ops r = Some (peeked ps p, r') \<and> pef_repr r' ps p"
    using pef_peek_law [OF r] by (auto simp: pef_ops_def)
  show "\<exists>r'. rd_next pef_ops r = Some (peeked ps p, r') \<and> pef_repr r' ps (min (Suc p) (length ps))"
    using pef_next_law [OF r] by (simp add: pef_ops_def)
  show "\<exists>r'. rd_advance pef_ops r t = Some (peeked ps (adv ps p t), r') \<and> pef_repr r' ps (adv ps p t)" for t
    using pef_advance_law [OF r] by (simp add: pef_ops_def)
qed (simp_all add: pef_ops_def)

lemma pef_new_law:
  assumes "pef_ok docs"
  shows "\<exists>r. pef_new (pef_buffer docs) = Some r \<and> pef_repr r (ones docs) 0"
proof -
  let ?d = "pef_buffer docs" and ?m = "ef_buffer (pef_bounds docs)" and ?B = "length (pef_parts docs)"
  have ok: "ef_ok docs" and small: "length ?d < 2 ^ 32" using assms by (auto simp: pef_ok_def)
  have n: "length docs < 2 ^ 32" "docs \<noteq> []" using ok by (auto simp: ef_ok_def)
  have len: "length ?d = pef_parts_at docs + length (concat (map ef_buffer (pef_parts docs)))"
    by (simp add: pef_buffer_def length_for_tables(2) pef_parts_at_def del: upt_Suc)
  have ml: "length ?m < 2 ^ 32" using small len by (simp add: pef_parts_at_def)
  let ?rest = "concat (map (\<lambda>b. to_le 4 (pef_offset docs b mod 2 ^ 32)) [0..<?B + 1]) @ concat (map ef_buffer (pef_parts docs))"
  have f0: "read_u32 ?d 0 = Some (length docs)"
    unfolding read_u32_eq pef_buffer_def using read_u32_append [of "[]" 0 "length docs"] n(1) by simp
  have f4: "read_u32 ?d 4 = Some 64"
    unfolding read_u32_eq pef_buffer_def PEF_PARTITION_SIZE_def using read_u32_append [of "to_le 4 (length docs)" 4 64] by simp
  have f8: "read_u32 ?d 8 = Some (length ?m)"
    unfolding read_u32_eq pef_buffer_def
    using read_u32_append [of "to_le 4 (length docs) @ to_le 4 PEF_PARTITION_SIZE" 8 "length ?m"] ml by simp
  have blob: "subslice ?d 12 (12 + length ?m) = Some ?m"
    using subslice_append [of "to_le 4 (length docs) @ to_le 4 PEF_PARTITION_SIZE @ to_le 4 (length ?m)" 12 ?m "length ?m" _ ?rest]
    by (simp add: pef_buffer_def)
  obtain meta where meta: "ef_new ?m = Some meta" "ef_repr meta (ones (pef_bounds docs)) 0"
    using ef_new_law [OF pef_bounds_ok [OF ok]] by blast
  have cnt: "ef_count meta = ?B" using ef_repr_len [OF meta(2)] by simp
  have offs: "those (map (\<lambda>b. read_u32 ?d (12 + length ?m + b * 4)) [0..<?B + 1]) = Some (map (pef_offset docs) [0..<?B + 1])"
  proof (rule those_map_Some)
    fix b assume "b \<in> set [0..<?B + 1]"
    then have b: "b < length [0..<?B + 1]" "b \<le> ?B" by auto
    let ?pre = "to_le 4 (length docs) @ to_le 4 PEF_PARTITION_SIZE @ to_le 4 (length ?m) @ ?m"
    have "length ?pre = 12 + length ?m" by simp
    then show "read_u32 ?d (12 + length ?m + b * 4) = Some (pef_offset docs b)"
      using read_u32_field [OF b(1), of "\<lambda>b. to_le 4 (pef_offset docs b mod 2 ^ 32)" 4 0 ?pre] b(2)
        pef_offset_less [OF assms b(2)] read_u32_append [of "[]" 0 "pef_offset docs b" "[]"]
      by (simp add: read_u32_eq pef_buffer_def nth_append del: upt_Suc)
  qed
  have "pef_new ?d = Some \<lparr>pf_data = ?d, pf_parts_start = pef_parts_at docs, pf_part_offsets = map (pef_offset docs) [0..<?B + 1],
      pf_count = length docs, pf_part_size = 64, pf_meta = meta, pf_pos = 0, pf_active = None\<rparr>"
    using len n(2) unfolding pef_new_def f0 f4 f8 bind.simps Let_def blob meta(1) cnt offs
    by (simp add: PEF_PARTITION_SIZE_def pef_parts_at_def length_pef_parts)
  with assms meta(2) show ?thesis by (auto simp: pef_repr_def pef_static_def o_def)
qed

end
