(* ===== verification/Any_Reader.thy ===== *)
theory Any_Reader
  imports Delta_Varint Frame_Codec Elias_Fano Partitioned_EF
begin

text \<open>
  The dispatching reader \<open>AnyPostingReader\<close> of \<open>crates/ic-stable-text-postings/src/enc/mod.rs\<close>, and
  the properties that span the posting codecs: every codec shows a client exactly what the
  unencoded reader shows.
\<close>

section \<open>Dispatch\<close>

datatype any_reader =
    AnyPlain plain_reader
  | AnyVarint delta_reader
  | AnyFor for_reader
  | AnyEf ef_reader
  | AnyPef pef_reader

fun any_len :: "any_reader \<Rightarrow> nat" where
  "any_len (AnyPlain r) = rd_len plain_ops r"
| "any_len (AnyVarint r) = rd_len varint_ops r"
| "any_len (AnyFor r) = rd_len for_ops r"
| "any_len (AnyEf r) = rd_len ef_ops r"
| "any_len (AnyPef r) = rd_len pef_ops r"

fun any_pos :: "any_reader \<Rightarrow> nat" where
  "any_pos (AnyPlain r) = rd_pos plain_ops r"
| "any_pos (AnyVarint r) = rd_pos varint_ops r"
| "any_pos (AnyFor r) = rd_pos for_ops r"
| "any_pos (AnyEf r) = rd_pos ef_ops r"
| "any_pos (AnyPef r) = rd_pos pef_ops r"

fun any_peek :: "any_reader \<Rightarrow> (nat option \<times> any_reader) option" where
  "any_peek (AnyPlain r) = map_option (map_prod id AnyPlain) (rd_peek plain_ops r)"
| "any_peek (AnyVarint r) = map_option (map_prod id AnyVarint) (rd_peek varint_ops r)"
| "any_peek (AnyFor r) = map_option (map_prod id AnyFor) (rd_peek for_ops r)"
| "any_peek (AnyEf r) = map_option (map_prod id AnyEf) (rd_peek ef_ops r)"
| "any_peek (AnyPef r) = map_option (map_prod id AnyPef) (rd_peek pef_ops r)"

fun any_next :: "any_reader \<Rightarrow> (nat option \<times> any_reader) option" where
  "any_next (AnyPlain r) = map_option (map_prod id AnyPlain) (rd_next plain_ops r)"
| "any_next (AnyVarint r) = map_option (map_prod id AnyVarint) (rd_next varint_ops r)"
| "any_next (AnyFor r) = map_option (map_prod id AnyFor) (rd_next for_ops r)"
| "any_next (AnyEf r) = map_option (map_prod id AnyEf) (rd_next ef_ops r)"
| "any_next (AnyPef r) = map_option (map_prod id AnyPef) (rd_next pef_ops r)"

fun any_advance :: "any_reader \<Rightarrow> nat \<Rightarrow> (nat option \<times> any_reader) option" where
  "any_advance (AnyPlain r) t = map_option (map_prod id AnyPlain) (rd_advance plain_ops r t)"
| "any_advance (AnyVarint r) t = map_option (map_prod id AnyVarint) (rd_advance varint_ops r t)"
| "any_advance (AnyFor r) t = map_option (map_prod id AnyFor) (rd_advance for_ops r t)"
| "any_advance (AnyEf r) t = map_option (map_prod id AnyEf) (rd_advance ef_ops r t)"
| "any_advance (AnyPef r) t = map_option (map_prod id AnyPef) (rd_advance pef_ops r t)"

fun any_tf :: "any_reader \<Rightarrow> (nat option \<times> any_reader) option" where
  "any_tf (AnyPlain r) = map_option (map_prod id AnyPlain) (rd_tf plain_ops r)"
| "any_tf (AnyVarint r) = map_option (map_prod id AnyVarint) (rd_tf varint_ops r)"
| "any_tf (AnyFor r) = map_option (map_prod id AnyFor) (rd_tf for_ops r)"
| "any_tf (AnyEf r) = map_option (map_prod id AnyEf) (rd_tf ef_ops r)"
| "any_tf (AnyPef r) = map_option (map_prod id AnyPef) (rd_tf pef_ops r)"

fun any_next_step :: "any_reader \<Rightarrow> ((nat \<times> nat) option \<times> any_reader) option" where
  "any_next_step (AnyPlain r) = map_option (map_prod id AnyPlain) (rd_next_step plain_ops r)"
| "any_next_step (AnyVarint r) = map_option (map_prod id AnyVarint) (rd_next_step varint_ops r)"
| "any_next_step (AnyFor r) = map_option (map_prod id AnyFor) (rd_next_step for_ops r)"
| "any_next_step (AnyEf r) = map_option (map_prod id AnyEf) (rd_next_step ef_ops r)"
| "any_next_step (AnyPef r) = map_option (map_prod id AnyPef) (rd_next_step pef_ops r)"

definition any_ops :: "any_reader reader_ops" where
  "any_ops = \<lparr>rd_len = any_len, rd_pos = any_pos, rd_peek = any_peek, rd_next = any_next,
     rd_advance = any_advance, rd_tf = any_tf, rd_next_step = any_next_step\<rparr>"

fun any_repr :: "any_reader \<Rightarrow> postings \<Rightarrow> nat \<Rightarrow> bool" where
  "any_repr (AnyPlain r) ps p = plain_repr r ps p"
| "any_repr (AnyVarint r) ps p = varint_repr r ps p"
| "any_repr (AnyFor r) ps p = for_repr r ps p"
| "any_repr (AnyEf r) ps p = ef_repr r ps p"
| "any_repr (AnyPef r) ps p = pef_repr r ps p"

lemma any_laws:
  assumes "any_repr r ps p"
  shows "sorted_wrt (<) (map fst ps) \<and> p \<le> length ps \<and> (\<forall>x\<in>set ps. fst x < 2 ^ 32) \<and> length ps < 2 ^ 32
    \<and> any_len r = length ps \<and> any_pos r = p
    \<and> (\<exists>r'. any_peek r = Some (peeked ps p, r') \<and> any_repr r' ps p)
    \<and> (\<exists>r'. any_next r = Some (peeked ps p, r') \<and> any_repr r' ps (min (Suc p) (length ps)))
    \<and> (\<forall>t. \<exists>r'. any_advance r t = Some (peeked ps (adv ps p t), r') \<and> any_repr r' ps (adv ps p t))
    \<and> (\<exists>r'. any_tf r = Some (if p < length ps then Some (snd (ps ! p)) else None, r') \<and> any_repr r' ps p)
    \<and> (\<exists>r'. any_next_step r = Some (if p < length ps then Some (ps ! p) else None, r')
          \<and> any_repr r' ps (min (Suc p) (length ps)))"
proof (cases r)
  case (AnyPlain x)
  with assms plain.rd.wrapped_laws [of x ps p AnyPlain] show ?thesis
    unfolding plain.rd.reader_laws_def AnyPlain any_repr.simps any_len.simps any_pos.simps any_peek.simps
      any_next.simps any_advance.simps any_tf.simps any_next_step.simps by (metis any_repr.simps(1))
next
  case (AnyVarint x)
  with assms varint.wrapped_laws [of x ps p AnyVarint] show ?thesis
    unfolding varint.reader_laws_def AnyVarint any_repr.simps any_len.simps any_pos.simps any_peek.simps
      any_next.simps any_advance.simps any_tf.simps any_next_step.simps by (metis any_repr.simps(2))
next
  case (AnyFor x)
  with assms forc.rd.wrapped_laws [of x ps p AnyFor] show ?thesis
    unfolding forc.rd.reader_laws_def AnyFor any_repr.simps any_len.simps any_pos.simps any_peek.simps
      any_next.simps any_advance.simps any_tf.simps any_next_step.simps by (metis any_repr.simps(3))
next
  case (AnyEf x)
  with assms efc.rd.wrapped_laws [of x ps p AnyEf] show ?thesis
    unfolding efc.rd.reader_laws_def AnyEf any_repr.simps any_len.simps any_pos.simps any_peek.simps
      any_next.simps any_advance.simps any_tf.simps any_next_step.simps by (metis any_repr.simps(4))
next
  case (AnyPef x)
  with assms pefc.rd.wrapped_laws [of x ps p AnyPef] show ?thesis
    unfolding pefc.rd.reader_laws_def AnyPef any_repr.simps any_len.simps any_pos.simps any_peek.simps
      any_next.simps any_advance.simps any_tf.simps any_next_step.simps by (metis any_repr.simps(5))
qed

interpretation any: posting_reader any_ops any_repr
  by unfold_locales (use any_laws in \<open>simp_all add: any_ops_def\<close>)

section \<open>The codecs agree\<close>

text \<open>The readers an index opens over one list, in every encoding.\<close>

definition open_all :: "nat list \<Rightarrow> any_reader list option" where
  "open_all docs = do {
     v \<leftarrow> encode_varint docs; f \<leftarrow> encode_frame_of_reference docs;
     e \<leftarrow> encode_elias_fano docs; pe \<leftarrow> encode_partitioned_ef docs;
     rv \<leftarrow> varint_new v; rf \<leftarrow> for_new f; re \<leftarrow> ef_new e; rp \<leftarrow> pef_new pe;
     Some [AnyPlain (plain_new docs), AnyVarint rv, AnyFor rf, AnyEf re, AnyPef rp] }"

definition postings_fit :: "nat list \<Rightarrow> bool" where
  "postings_fit docs = (assert_strictly_increasing docs \<and> (\<forall>d\<in>set docs. d < 2 ^ 32) \<and> length docs < 2 ^ 32
     \<and> list_all (\<lambda>buf. case buf of Some b \<Rightarrow> length b < 2 ^ 32 | None \<Rightarrow> False)
          [encode_varint docs, encode_frame_of_reference docs, encode_partitioned_ef docs])"

lemma open_all_repr:
  assumes "postings_fit docs"
  shows "\<exists>rs. open_all docs = Some rs \<and> length rs = 5 \<and> (\<forall>r\<in>set rs. any_repr r (ones docs) 0)"
proof -
  have docs: "docs \<noteq> []" "sorted_wrt (<) docs" "\<forall>d\<in>set docs. d < 2 ^ 32" "length docs < 2 ^ 32"
    "assert_strictly_increasing docs"
    using assms sorted_iff_assert [of docs] by (auto simp: postings_fit_def)
  have ok: "ef_ok docs" using docs by (simp add: ef_ok_def)
  note V = varint_encode_new [OF docs(1-4)]
  have f: "encode_frame_of_reference docs = Some (for_buffer docs)" by (rule encode_for_buffer [OF docs(5)])
  have e: "encode_elias_fano docs = Some (ef_buffer docs)" by (rule ef_ok_encode [OF ok])
  have pe: "encode_partitioned_ef docs = Some (pef_buffer docs)" by (rule encode_pef_buffer [OF ok])
  have sizes: "length (delta_buffer (\<lambda>_. []) False (ones docs)) < 2 ^ 32" "length (for_buffer docs) < 2 ^ 32"
    "length (pef_buffer docs) < 2 ^ 32"
    using assms V(1) f pe by (simp_all add: postings_fit_def)
  obtain rv where rv: "varint_new (delta_buffer (\<lambda>_. []) False (ones docs)) = Some rv" "varint_repr rv (ones docs) 0"
    using V(2) [OF sizes(1)] by blast
  have "for_ok docs" using docs sizes(2) by (simp add: for_ok_def)
  then obtain rf where rf: "for_new (for_buffer docs) = Some rf" "for_repr rf (ones docs) 0"
    using for_new_law by blast
  obtain re where re: "ef_new (ef_buffer docs) = Some re" "ef_repr re (ones docs) 0" using ef_new_law [OF ok] by blast
  have "pef_ok docs" using ok sizes(3) by (simp add: pef_ok_def)
  then obtain rp where rp: "pef_new (pef_buffer docs) = Some rp" "pef_repr rp (ones docs) 0" using pef_new_law by blast
  have "plain_repr (plain_new docs) (ones docs) 0" using docs by (simp add: plain_repr_def plain_new_def)
  then show ?thesis
    unfolding open_all_def V(1) f e pe bind.simps rv(1) rf(1) re(1) rp(1)
    using rv(2) rf(2) re(2) rp(2) by simp
qed

section \<open>Buffer sizes\<close>

lemma length_concat_le:
  "(\<And>x. x \<in> set xs \<Longrightarrow> length (f x) \<le> a + b * g x) \<Longrightarrow> length (concat (map f xs)) \<le> a * length xs + b * sum_list (map g xs)"
  by (induction xs) (auto simp: algebra_simps intro: add_mono order.trans)

lemma sum_chunks: "0 < k \<Longrightarrow> sum_list (map length (chunks k xs)) = length xs"
  by (induction k xs rule: chunks.induct) (subst chunks.simps, auto)

lemma div_ceil_le: "1 < k \<Longrightarrow> div_ceil n k \<le> n"
  using div_ceil_less_mult [of k n n] by (simp add: not_less)

lemma bits_len: "w \<le> 32 \<Longrightarrow> div_ceil (n * w) 8 \<le> 4 * n"
proof -
  assume "w \<le> 32"
  then have "n * w \<le> 4 * n * 8" using mult_le_mono2 [of w 32 n] by simp
  then show ?thesis using div_ceil_less_mult [of 8 "4 * n" "n * w"] by (meson not_le zero_less_numeral)
qed

lemma varint_size:
  assumes "\<forall>d\<in>set docs. d < 2 ^ 32"
  shows "length (delta_buffer (\<lambda>_. []) False (ones docs)) \<le> 8 + 21 * length docs"
proof -
  have "length (posting_code (\<lambda>_. []) (ones docs) i) \<le> 5" if "i < length docs" for i
  proof -
    have "delta_at (ones docs) i \<le> docs ! i" using that by (auto simp: delta_at_def)
    moreover have "docs ! i < 2 ^ 32" using assms that by simp
    ultimately show ?thesis by (simp add: posting_code_def write_u32_length)
  qed
  then have "length (stream (\<lambda>_. []) (ones docs) (length docs)) \<le> 5 * length docs"
    unfolding stream_def using length_concat_le [of "[0..<length docs]" "posting_code (\<lambda>_. []) (ones docs)" 5 0] by simp
  moreover have "div_ceil (div_ceil (length docs) 128) 32 \<le> length docs" "div_ceil (length docs) 128 \<le> length docs"
    using div_ceil_le [of 128 "length docs"] div_ceil_le [of 32 "div_ceil (length docs) 128"] by simp_all
  ultimately show ?thesis
    by (simp add: delta_buffer_def length_levels length_blocks_of entry_width_def PLAIN_ENTRY_BYTES_def SKIP_LEVEL1_STRIDE_def)
qed

lemma freq_size:
  assumes "\<forall>d\<in>set docs. d < 2 ^ 32" "length tfs = length docs"
  shows "length (delta_buffer freq_tail True (zip docs tfs)) \<le> 8 + 30 * length docs"
proof -
  have "length (posting_code freq_tail (zip docs tfs) i) \<le> 6" if "i < length docs" for i
  proof -
    have "delta_at (zip docs tfs) i \<le> docs ! i" using that assms(2) by (auto simp: delta_at_def)
    moreover have "docs ! i < 2 ^ 32" using assms(1) that by simp
    ultimately have "length (write_u32 (delta_at (zip docs tfs) i)) \<le> 5" by (intro write_u32_length) simp
    then show ?thesis by (simp add: posting_code_def freq_tail_def)
  qed
  then have "length (stream freq_tail (zip docs tfs) (length docs)) \<le> 6 * length docs"
    unfolding stream_def using length_concat_le [of "[0..<length docs]" "posting_code freq_tail (zip docs tfs)" 6 0] by simp
  moreover have "div_ceil (div_ceil (length docs) 128) 32 \<le> length docs" "div_ceil (length docs) 128 \<le> length docs"
    using div_ceil_le [of 128 "length docs"] div_ceil_le [of 32 "div_ceil (length docs) 128"] by simp_all
  ultimately show ?thesis
    using assms(2)
    by (simp add: delta_buffer_def length_levels length_blocks_of entry_width_def FREQ_ENTRY_BYTES_def SKIP_LEVEL1_STRIDE_def)
qed

lemma for_size:
  assumes "sorted_wrt (<) docs" "\<forall>d\<in>set docs. d < 2 ^ 32"
  shows "length (for_buffer docs) \<le> 12 + 13 * length docs"
proof -
  have "length (block_payload c) \<le> 4 * length c" if cs: "c \<in> set (for_blocks docs)" for c
  proof -
    obtain b where b: "b < length (for_blocks docs)" "c = for_blocks docs ! b" using cs by (auto simp: in_set_conv_nth)
    note F = for_block_facts(1,2) [OF b(1) assms, folded b(2)]
    have w: "block_bits c \<le> 32" and f: "\<forall>v\<in>set c. v - c ! 0 < 2 ^ block_bits c" using block_bits_bound [OF F] by auto
    have n: "bw_ok bw_new" "bw_bits bw_new = []" by (simp_all add: bw_ok_def bw_new_def bw_bits_def value_bits_def)
    note P = fold_push_bits [OF f w n(1)]
    have "length (concat (map (\<lambda>v. value_bits (block_bits c) (v - c ! 0)) c)) = length c * block_bits c"
      by (rule length_concat_const) simp
    then show ?thesis
      using length_bw_finish [OF P(2)] P(1) n(2) bits_len [OF w, of "length c"] by (simp add: block_payload_def)
  qed
  then have "length (concat (map block_payload (for_blocks docs))) \<le> 4 * length docs"
    using length_concat_le [of "for_blocks docs" block_payload 0 4 length]
    by (simp add: for_blocks_def sum_chunks FOR_BLOCK_SIZE_def)
  moreover have "length (for_blocks docs) \<le> length docs" by (simp add: length_for_blocks div_ceil_le)
  ultimately show ?thesis by (simp add: for_buffer_def length_for_tables del: upt_Suc)
qed

lemma ef_high_bound:
  assumes "ef_ok docs"
  shows "ef_high docs (length docs - 1) < 2 * length docs"
proof -
  let ?n = "length docs" and ?m = "docs ! (length docs - 1)"
  have n: "0 < ?n" "?n mod 2 ^ 32 = ?n" "?m < 2 ^ 32" using assms by (auto simp: ef_ok_def)
  show ?thesis
  proof (cases "?m div ?n = 0")
    case True
    then have "?m < ?n" using n(1) by (simp add: div_eq_0_iff)
    moreover have "ef_high docs (?n - 1) \<le> ?m" by (simp add: ef_high_def drop_bit_eq_div)
    ultimately show ?thesis by linarith
  next
    case False
    let ?q = "?m div ?n"
    have "?q \<le> ?m" by simp
    then have q: "?q < 2 ^ 32" using n(3) by linarith
    note L = leading_zeros_bound [OF q]
    have lz: "leading_zeros ?q \<noteq> 32" using L(1) False by auto
    have l: "ef_lw docs = 31 - leading_zeros ?q"
      using False n by (simp add: ef_lw_def ef_low_width_def ilog2_def Let_def min_def)
    have "32 - leading_zeros ?q = Suc (ef_lw docs)" using L(2) lz l by linarith
    with L(1) have "?q < 2 * 2 ^ ef_lw docs" by simp
    then have "?m < 2 * 2 ^ ef_lw docs * ?n" using n(1) by (simp only: div_less_iff_less_mult)
    then have "?m < (2 * ?n) * 2 ^ ef_lw docs" by (simp only: ac_simps)
    then show ?thesis by (simp add: ef_high_def drop_bit_eq_div less_mult_imp_div_less)
  qed
qed

lemma ef_size:
  assumes "ef_ok docs"
  shows "length (ef_buffer docs) \<le> 22 + 12 * length docs"
proof -
  have "ef_high docs (length docs - 1) + length docs \<le> 64 * length docs" using ef_high_bound [OF assms] by linarith
  then have "(ef_high docs (length docs - 1) + length docs) div 64 \<le> length docs"
    using div_le_mono [of _ "64 * length docs" 64] by simp
  then have wt: "ef_word_total docs \<le> length docs + 1" by (simp add: ef_word_total_def)
  have low: "length (ef_low_bytes (ef_lw docs) docs) \<le> 4 * length docs"
  proof (cases "ef_lw docs = 0")
    case True
    then show ?thesis by (simp add: ef_low_bytes_def bw_finish_def bw_new_def)
  next
    case False
    then obtain w where w: "ef_low_bytes (ef_lw docs) docs = bw_finish w" "bw_ok w"
      "bw_bits w = concat (map (\<lambda>v. value_bits (ef_lw docs) (take_bit (ef_lw docs) v)) docs)"
      using ef_low_writer [of "ef_lw docs" docs] ef_lw_le [of docs] by blast
    have "length (bw_bits w) = length docs * ef_lw docs"
      unfolding w(3) by (rule length_concat_const) simp
    then show ?thesis
      using length_bw_finish [OF w(2)] bits_len [of "ef_lw docs" "length docs"] ef_lw_le [of docs] w(1) by simp
  qed
  show ?thesis using wt low by (simp add: ef_buffer_def length_words ef_words(2) [OF assms])
qed

lemma pef_size:
  assumes "ef_ok docs"
  shows "length (pef_buffer docs) \<le> 38 + 50 * length docs"
proof -
  have "length (ef_buffer c) \<le> 22 + 12 * length c" if "c \<in> set (pef_parts docs)" for c
    using that pef_part_facts(3) [OF _ assms] by (intro ef_size) (auto simp: in_set_conv_nth)
  then have "length (concat (map ef_buffer (pef_parts docs))) \<le> 22 * length (pef_parts docs) + 12 * length docs"
    using length_concat_le [of "pef_parts docs" ef_buffer 22 12 length]
    by (simp add: pef_parts_def sum_chunks PEF_PARTITION_SIZE_def)
  moreover have "length (pef_parts docs) \<le> length docs" by (simp add: length_pef_parts div_ceil_le)
  moreover have "length (ef_buffer (pef_bounds docs)) \<le> 22 + 12 * length (pef_parts docs)"
    using ef_size [OF pef_bounds_ok [OF assms]] by simp
  ultimately show ?thesis by (simp add: pef_buffer_def length_for_tables(2) del: upt_Suc)
qed

text \<open>Up to \<open>2 ^ 26\<close> postings every buffer stays below the 4 GiB that its 32-bit offsets address.\<close>

lemma postings_fit_small:
  assumes "assert_strictly_increasing docs" "\<forall>d\<in>set docs. d < 2 ^ 32" "length docs \<le> 2 ^ 26"
  shows "postings_fit docs"
proof -
  have docs: "docs \<noteq> []" "sorted_wrt (<) docs" "length docs < 2 ^ 32" using assms sorted_iff_assert [of docs] by auto
  have ok: "ef_ok docs" using docs assms(2) by (simp add: ef_ok_def)
  show ?thesis
    using varint_size [OF assms(2)] for_size [OF docs(2) assms(2)] pef_size [OF ok] assms docs(3)
      varint_encode_new(1) [OF docs(1,2) assms(2) docs(3)] encode_for_buffer [OF assms(1)] encode_pef_buffer [OF ok]
    by (simp add: postings_fit_def)
qed

section \<open>Properties\<close>

text \<open>
  C6. Every codec of the crate is an observationally exact copy of the unencoded list: for a list the
  encoders accept whose buffers stay below 4 GiB, opening the varint, frame-of-reference, Elias-Fano
  and partitioned Elias-Fano buffers succeeds, and every sequence of \<open>peek\<close>, \<open>next\<close>, \<open>advance\<close>, \<open>tf\<close>
  and \<open>next_step\<close> calls returns, without a panic, the same results from all five readers, namely
  those of the calls on the plain list.
\<close>

theorem codecs_observationally_equal:
  assumes "postings_fit docs"
  shows "\<exists>rs. open_all docs = Some rs \<and> length rs = 5
    \<and> (\<forall>r\<in>set rs. run_calls any_ops r calls = Some (spec_calls (map (\<lambda>d. (d, 1)) docs) 0 calls))"
proof -
  obtain rs where rs: "open_all docs = Some rs" "length rs = 5" "\<forall>r\<in>set rs. any_repr r (ones docs) 0"
    using open_all_repr [OF assms] by blast
  have "run_calls any_ops r calls = Some (spec_calls (ones docs) 0 calls)" if "r \<in> set rs" for r
    using any.run_calls_spec rs(3) that by blast
  with rs(1,2) show ?thesis by simp
qed

text \<open>C6 applied to a three-element list and a call sequence that skips and exhausts it.\<close>

theorem codecs_observationally_equal_witness:
  "\<exists>rs. open_all [3, 7, 1000] = Some rs \<and> length rs = 5
    \<and> (\<forall>r\<in>set rs. run_calls any_ops r [CallAdvance 8, CallNextStep, CallPeek]
         = Some (spec_calls (map (\<lambda>d. (d, 1)) [3, 7, 1000]) 0 [CallAdvance 8, CallNextStep, CallPeek]))"
proof -
  have "postings_fit [3, 7, 1000]"
    by (rule postings_fit_small) (auto simp: assert_strictly_increasing_def less_Suc_eq numeral_3_eq_3)
  from codecs_observationally_equal [OF this] show ?thesis .
qed

text \<open>
  C7. The frequency codec keeps every posting with its frequency capped at 255: for up to \<open>2 ^ 26\<close>
  strictly increasing docids and as many frequencies, encoding and opening succeed and every
  sequence of reader calls, jumps through the skip trailer included, answers as the list of pairs.
\<close>

theorem freq_varint_exact:
  assumes "assert_strictly_increasing docs" "\<forall>d\<in>set docs. d < 2 ^ 32" "length docs \<le> 2 ^ 26" "length tfs = length docs"
  shows "\<exists>buf r. encode_freq_varint docs tfs = Some buf \<and> freq_new buf = Some r
    \<and> run_calls freq_ops r calls = Some (spec_calls (zip docs (map (\<lambda>t. min t 255) tfs)) 0 calls)"
proof -
  have docs: "docs \<noteq> []" "sorted_wrt (<) docs" "length docs < 2 ^ 32" using assms sorted_iff_assert [of docs] by auto
  note E = freq_encode_new [OF docs(1,2) assms(2) docs(3) assms(4)]
  have "length (delta_buffer freq_tail True (zip docs tfs)) < 2 ^ 32"
    using freq_size [OF assms(2,4)] assms(3) by simp
  then obtain r where r: "freq_new (delta_buffer freq_tail True (zip docs tfs)) = Some r"
    "freq_repr r (capped (zip docs tfs)) 0"
    using E(2) by blast
  have "capped (zip docs tfs) = zip docs (map (\<lambda>t. min t 255) tfs)"
    by (simp add: capped_def zip_map2 case_prod_unfold)
  with freq.run_calls_spec [OF r(2)] E(1) r(1) show ?thesis by auto
qed

text \<open>C7 applied to two postings, one of them with a frequency above the cap.\<close>

theorem freq_varint_exact_witness:
  "\<exists>buf r. encode_freq_varint [3, 7] [2, 300] = Some buf \<and> freq_new buf = Some r
    \<and> run_calls freq_ops r [CallAdvance 5, CallTf] = Some [Docid (Some 7), Docid (Some 255)]"
proof -
  have "assert_strictly_increasing [3, 7]" by (simp add: assert_strictly_increasing_def)
  then have "\<exists>buf r. encode_freq_varint [3, 7] [2, 300] = Some buf \<and> freq_new buf = Some r
    \<and> run_calls freq_ops r [CallAdvance 5, CallTf]
       = Some (spec_calls (zip [3, 7] (map (\<lambda>t. min t 255) [2, 300])) 0 [CallAdvance 5, CallTf])"
    by (rule freq_varint_exact) simp_all
  then show ?thesis by (simp add: adv_def peeked_def)
qed

end
