(* ===== verification/Merge.thy ===== *)
theory Merge
  imports Any_Reader
begin

text \<open>
  The resumable k-way merge (\<open>crates/ic-stable-text-postings/src/merge.rs\<close>): the cursor and its byte
  form, and \<open>MergeState\<close> over any reader. The lemmas are proved once in the reader contract; the
  property at the end is about runs in any mix of the crate's encodings.
\<close>

section \<open>MergeCursor\<close>

record merge_cursor =
  mc_positions :: "nat list"
  mc_last_emitted :: "nat option"

definition cursor_to_bytes :: "merge_cursor \<Rightarrow> bytes" where
  "cursor_to_bytes c = to_le 4 (length (mc_positions c)) @ concat (map (to_le 4) (mc_positions c))
     @ (case mc_last_emitted c of None \<Rightarrow> [0] | Some d \<Rightarrow> 1 # to_le 4 d)"

definition cursor_from_bytes :: "bytes \<Rightarrow> merge_cursor option" where
  "cursor_from_bytes b = do {
     guard (4 \<le> length b);
     header \<leftarrow> subslice b 0 4;
     let k = from_le header;
     let tag_pos = 4 + k * 4;
     total_len \<leftarrow> (case get b tag_pos of
         Some tag \<Rightarrow> (if tag = 0 then Some (tag_pos + 1) else if tag = 1 then Some (tag_pos + 5) else None)
       | None \<Rightarrow> None);
     guard (length b = total_len);
     positions \<leftarrow> those (map (\<lambda>i. map_option from_le (subslice b (4 + i * 4) (4 + i * 4 + 4))) [0..<k]);
     tag \<leftarrow> get b tag_pos;
     last \<leftarrow> (if tag = 0 then Some None
       else map_option (\<lambda>s. Some (from_le s)) (subslice b (tag_pos + 1) (tag_pos + 5)));
     Some \<lparr>mc_positions = positions, mc_last_emitted = last\<rparr> }"

section \<open>MergeState\<close>

record 'r merge_state =
  ms_runs :: "'r list"
  ms_last_emitted :: "nat option"

definition merge_new :: "'r list \<Rightarrow> 'r merge_state" where
  "merge_new runs = \<lparr>ms_runs = runs, ms_last_emitted = None\<rparr>"

fun replay :: "'r reader_ops \<Rightarrow> nat \<Rightarrow> 'r \<Rightarrow> 'r option" where
  "replay R 0 r = Some r"
| "replay R (Suc n) r = do { (v, r') \<leftarrow> rd_next R r; guard (v \<noteq> None); replay R n r' }"

definition restore :: "'r reader_ops \<Rightarrow> 'r list \<Rightarrow> merge_cursor \<Rightarrow> 'r merge_state option" where
  "restore R runs c = do {
     guard (length runs = length (mc_positions c));
     runs' \<leftarrow> those (map (\<lambda>(run, consumed). replay R consumed run) (zip runs (mc_positions c)));
     Some \<lparr>ms_runs = runs', ms_last_emitted = mc_last_emitted c\<rparr> }"

fun min_acc :: "nat option \<Rightarrow> nat option \<Rightarrow> nat option" where
  "min_acc acc None = acc"
| "min_acc None (Some v) = Some v"
| "min_acc (Some m) (Some v) = Some (min m v)"

fun peek_min :: "'r reader_ops \<Rightarrow> 'r list \<Rightarrow> nat option \<Rightarrow> (nat option \<times> 'r list) option" where
  "peek_min R [] acc = Some (acc, [])"
| "peek_min R (r # rs) acc = do {
     (v, r') \<leftarrow> rd_peek R r;
     (m, rs') \<leftarrow> peek_min R rs (min_acc acc v);
     Some (m, r' # rs') }"

fun pop_min :: "'r reader_ops \<Rightarrow> nat \<Rightarrow> 'r list \<Rightarrow> 'r list option" where
  "pop_min R m [] = Some []"
| "pop_min R m (r # rs) = do {
     (v, r') \<leftarrow> rd_peek R r;
     r'' \<leftarrow> (if v = Some m then map_option snd (rd_next R r') else Some r');
     rs' \<leftarrow> pop_min R m rs;
     Some (r'' # rs') }"

partial_function (option) merge_loop ::
  "'r reader_ops \<Rightarrow> nat \<Rightarrow> nat \<Rightarrow> nat list \<Rightarrow> 'r merge_state \<Rightarrow> (nat \<times> nat list \<times> 'r merge_state) option" where
  "merge_loop R out_budget emitted out st =
     (if emitted < out_budget then do {
        (m, runs) \<leftarrow> peek_min R (ms_runs st) None;
        case m of
          None \<Rightarrow> Some (emitted, out, st\<lparr>ms_runs := runs\<rparr>)
        | Some v \<Rightarrow> do {
            runs' \<leftarrow> pop_min R v runs;
            let fresh = (ms_last_emitted st \<noteq> Some v);
            merge_loop R out_budget (if fresh then emitted + 1 else emitted) (if fresh then out @ [v] else out)
              \<lparr>ms_runs = runs', ms_last_emitted = Some v\<rparr> } }
      else Some (emitted, out, st))"

definition merge_step ::
  "'r reader_ops \<Rightarrow> 'r merge_state \<Rightarrow> nat \<Rightarrow> nat list \<Rightarrow> (nat \<times> nat list \<times> 'r merge_state) option" where
  "merge_step R st out_budget out = merge_loop R out_budget 0 out st"

fun all_done :: "'r reader_ops \<Rightarrow> 'r list \<Rightarrow> (bool \<times> 'r list) option" where
  "all_done R [] = Some (True, [])"
| "all_done R (r # rs) = do {
     (v, r') \<leftarrow> rd_peek R r;
     if v = None then do { (b, rs') \<leftarrow> all_done R rs; Some (b, r' # rs') } else Some (False, r' # rs) }"

definition is_done :: "'r reader_ops \<Rightarrow> 'r merge_state \<Rightarrow> (bool \<times> 'r merge_state) option" where
  "is_done R st = do { (b, runs) \<leftarrow> all_done R (ms_runs st); Some (b, st\<lparr>ms_runs := runs\<rparr>) }"

definition merge_cursor_of :: "'r reader_ops \<Rightarrow> 'r merge_state \<Rightarrow> merge_cursor" where
  "merge_cursor_of R st = \<lparr>mc_positions = map (rd_pos R) (ms_runs st), mc_last_emitted = ms_last_emitted st\<rparr>"

text \<open>
  A merge that is suspended after every step: each round restores from rewound runs and the saved
  bytes, merges up to its budget and saves the cursor.
\<close>

fun merge_sliced :: "'r reader_ops \<Rightarrow> 'r list \<Rightarrow> nat list \<Rightarrow> bytes \<Rightarrow> nat list \<Rightarrow> nat list option" where
  "merge_sliced R runs [] saved out = Some out"
| "merge_sliced R runs (budget # budgets) saved out = do {
     c \<leftarrow> cursor_from_bytes saved;
     st \<leftarrow> restore R runs c;
     (_, out', st') \<leftarrow> merge_step R st budget out;
     merge_sliced R runs budgets (cursor_to_bytes (merge_cursor_of R st')) out' }"

section \<open>Lemmas: the cursor\<close>

lemma cursor_roundtrip:
  assumes "length (mc_positions c) < 2 ^ 32" "\<forall>p\<in>set (mc_positions c). p < 2 ^ 32"
    "\<forall>d. mc_last_emitted c = Some d \<longrightarrow> d < 2 ^ 32"
  shows "cursor_from_bytes (cursor_to_bytes c) = Some c"
proof -
  let ?ps = "mc_positions c" and ?b = "cursor_to_bytes c"
  define tail :: bytes where "tail = (case mc_last_emitted c of None \<Rightarrow> [0] | Some d \<Rightarrow> 1 # to_le 4 d)"
  have b: "?b = to_le 4 (length ?ps) @ concat (map (to_le 4) ?ps) @ tail" by (simp add: cursor_to_bytes_def tail_def)
  have mid: "length (concat (map (to_le 4) ?ps)) = length ?ps * 4" by (rule length_concat_const) simp
  have hdr: "subslice ?b 0 4 = Some (to_le 4 (length ?ps))" by (simp add: b subslice_def)
  have k: "from_le (to_le 4 (length ?ps) :: bytes) = length ?ps" using assms(1) by (simp add: from_le_to_le_id)
  have pos: "those (map (\<lambda>i. map_option from_le (subslice ?b (4 + i * 4) (4 + i * 4 + 4))) [0..<length ?ps]) = Some ?ps"
  proof -
    have "map_option from_le (subslice ?b (4 + i * 4) (4 + i * 4 + 4)) = Some (?ps ! i)" if "i < length ?ps" for i
    proof -
      have "subslice ?b (4 + i * 4 + 0) (4 + i * 4 + 4) = subslice (to_le 4 (?ps ! i)) 0 4"
        unfolding b using subslice_field [OF that, of "to_le 4" 4 4 "to_le 4 (length ?ps)" tail 0] by simp
      then show ?thesis using assms(2) that by (simp add: subslice_def from_le_to_le_id)
    qed
    then have "those (map (\<lambda>i. map_option from_le (subslice ?b (4 + i * 4) (4 + i * 4 + 4))) [0..<length ?ps])
        = Some (map (\<lambda>i. ?ps ! i) [0..<length ?ps])" by (intro those_map_Some) simp
    then show ?thesis by (simp add: map_nth)
  qed
  have tag: "get ?b (4 + length ?ps * 4) = get tail 0" using mid by (auto simp: b index_def nth_append)
  have len: "length ?b = 4 + length ?ps * 4 + length tail" by (simp add: b mid)
  have rest: "subslice ?b (4 + length ?ps * 4 + 1) (4 + length ?ps * 4 + 5) = subslice tail 1 5" if "5 \<le> length tail"
  proof -
    have "length (to_le 4 (length ?ps) @ concat (map (to_le 4) ?ps)) = 4 + length ?ps * 4" using mid by simp
    from subslice_inner [OF this that, of "[]" 1] show ?thesis by (simp add: b)
  qed
  show ?thesis
  proof (cases "mc_last_emitted c")
    case None
    then have "get ?b (4 + length ?ps * 4) = Some 0" "length ?b = 4 + length ?ps * 4 + 1"
      using tag len by (simp_all add: tail_def index_def)
    with None show ?thesis
      unfolding cursor_from_bytes_def hdr bind.simps k Let_def pos by simp
  next
    case (Some d)
    have "subslice (1 # to_le 4 d :: bytes) 1 5 = Some (to_le 4 d)" by (simp add: subslice_def)
    with Some rest have r: "subslice ?b (4 + length ?ps * 4 + 1) (4 + length ?ps * 4 + 5) = Some (to_le 4 d)"
      by (simp add: tail_def)
    have "get ?b (4 + length ?ps * 4) = Some 1" "length ?b = 4 + length ?ps * 4 + 5"
      using Some tag len by (simp_all add: tail_def index_def)
    with Some r assms(3) show ?thesis
      unfolding cursor_from_bytes_def hdr bind.simps k Let_def pos by (simp add: from_le_to_le_id)
  qed
qed

section \<open>Lemmas: one round\<close>

text \<open>The unread docids of the runs, each run given by its postings and position.\<close>

definition unread :: "(postings \<times> nat) list \<Rightarrow> nat set" where
  "unread qs = (\<Union>(ps, p)\<in>set qs. fst ` set (drop p ps))"

definition opt_min :: "nat set \<Rightarrow> nat option" where
  "opt_min A = (if A = {} then None else Some (Min A))"

lemma unread_simps [simp]: "unread [] = {}" "unread ((ps, p) # qs) = fst ` set (drop p ps) \<union> unread qs"
  by (auto simp: unread_def)

lemma finite_unread [simp]: "finite (unread qs)"
  by (auto simp: unread_def)

lemma peeked_min:
  assumes "sorted_wrt (<) (map fst ps)"
  shows "peeked ps p = opt_min (fst ` set (drop p ps))"
proof (cases "p < length ps")
  case True
  have d: "drop p ps = ps ! p # drop (Suc p) ps" using True by (simp add: Cons_nth_drop_Suc)
  have "sorted_wrt (<) (map fst (drop p ps))" using assms by (simp add: drop_map [symmetric] sorted_wrt_drop)
  then have "\<forall>y\<in>fst ` set (drop (Suc p) ps). fst (ps ! p) < y" by (simp add: d)
  then have "Min (fst ` set (drop p ps)) = fst (ps ! p)" by (intro Min_eqI) (auto simp: d less_imp_le)
  then show ?thesis using True by (simp add: peeked_def opt_min_def d)
next
  case False
  then show ?thesis by (simp add: peeked_def opt_min_def)
qed

lemma opt_min_Un:
  assumes "finite A" "finite B"
  shows "min_acc (opt_min A) (opt_min B) = opt_min (A \<union> B)"
  using assms by (auto simp: opt_min_def Min_Un)

text \<open>The position after the minimum is popped.\<close>

definition popped :: "nat \<Rightarrow> postings \<times> nat \<Rightarrow> postings \<times> nat" where
  "popped m q = (fst q, if peeked (fst q) (snd q) = Some m then Suc (snd q) else snd q)"

lemma popped_pair [simp]: "popped m (ps, p) = (ps, if peeked ps p = Some m then Suc p else p)"
  by (simp add: popped_def)

context posting_reader
begin

definition runs_repr :: "'r list \<Rightarrow> (postings \<times> nat) list \<Rightarrow> bool" where
  "runs_repr rs qs = list_all2 (\<lambda>r q. repr r (fst q) (snd q)) rs qs"

lemma runs_repr_simps [simp]:
  "runs_repr [] qs \<longleftrightarrow> qs = []"
  "runs_repr (r # rs) qs \<longleftrightarrow> (\<exists>q qs'. qs = q # qs' \<and> repr r (fst q) (snd q) \<and> runs_repr rs qs')"
  by (auto simp: runs_repr_def list_all2_Cons1)

lemma peek_min_law:
  "runs_repr rs qs \<Longrightarrow> finite A \<Longrightarrow> \<exists>rs'. peek_min R rs (opt_min A) = Some (opt_min (A \<union> unread qs), rs') \<and> runs_repr rs' qs"
proof (induction rs arbitrary: qs A)
  case (Cons r rs)
  then obtain q qs' where q: "qs = q # qs'" "repr r (fst q) (snd q)" "runs_repr rs qs'" by auto
  obtain ps p where qp: "q = (ps, p)" by (cases q)
  obtain r' where r': "rd_peek R r = Some (peeked ps p, r')" "repr r' ps p" using peek_law [of r ps p] q(2) by (auto simp: qp)
  have "peeked ps p = opt_min (fst ` set (drop p ps))" using repr_sorted [OF r'(2)] by (rule peeked_min)
  with Cons.IH [OF q(3), of "A \<union> fst ` set (drop p ps)"] Cons.prems(2) r' q
  show ?case by (auto simp: qp opt_min_Un Un_assoc)
qed simp

lemma pop_min_law:
  "runs_repr rs qs \<Longrightarrow> \<exists>rs'. pop_min R m rs = Some rs' \<and> runs_repr rs' (map (popped m) qs)"
proof (induction rs arbitrary: qs)
  case (Cons r rs)
  then obtain q qs' where q: "qs = q # qs'" "repr r (fst q) (snd q)" "runs_repr rs qs'" by auto
  obtain ps p where qp: "q = (ps, p)" by (cases q)
  obtain r' where r': "rd_peek R r = Some (peeked ps p, r')" "repr r' ps p" using peek_law [of r ps p] q(2) by (auto simp: qp)
  obtain r'' where r'': "rd_next R r' = Some (peeked ps p, r'')" "repr r'' ps (min (Suc p) (length ps))"
    using next_law [OF r'(2)] by blast
  obtain rs' where rs': "pop_min R m rs = Some rs'" "runs_repr rs' (map (popped m) qs')" using Cons.IH [OF q(3)] by blast
  have "repr r'' ps (Suc p)" if "peeked ps p = Some m"
    using r''(2) that by (auto simp: peeked_def min_def split: if_splits)
  with r' r''(1) rs' q show ?case by (auto simp: qp)
qed simp

lemma unread_popped:
  assumes "runs_repr rs qs" "\<forall>d\<in>unread qs. m \<le> d"
  shows "unread (map (popped m) qs) = unread qs - {m}"
  using assms
proof (induction rs arbitrary: qs)
  case (Cons r rs)
  then obtain q qs' where q: "qs = q # qs'" "repr r (fst q) (snd q)" "runs_repr rs qs'" by auto
  obtain ps p where qp: "q = (ps, p)" by (cases q)
  have s: "sorted_wrt (<) (map fst ps)" using repr_sorted q(2) by (simp add: qp)
  have ge: "\<forall>d\<in>fst ` set (drop p ps). m \<le> d" "\<forall>d\<in>unread qs'. m \<le> d" using Cons.prems(2) q by (auto simp: qp)
  have "fst ` set (drop (snd (popped m (ps, p))) ps) = fst ` set (drop p ps) - {m}"
  proof (cases "p < length ps")
    case True
    have d: "drop p ps = ps ! p # drop (Suc p) ps" using True by (simp add: Cons_nth_drop_Suc)
    have "sorted_wrt (<) (map fst (drop p ps))" using s by (simp add: drop_map [symmetric] sorted_wrt_drop)
    then have gt: "\<forall>y\<in>fst ` set (drop (Suc p) ps). fst (ps ! p) < y" by (simp add: d)
    have le: "m \<le> fst (ps ! p)" using ge(1) by (simp add: d)
    have X: "m \<notin> fst ` set (drop (Suc p) ps)" using gt le by (meson leD)
    show ?thesis
    proof (cases "fst (ps ! p) = m")
      case eq: True
      then have "snd (popped m (ps, p)) = Suc p" using True by (simp add: peeked_def)
      then show ?thesis using eq X by (simp only: d set_simps image_insert) blast
    next
      case False
      then have "snd (popped m (ps, p)) = p" using True by (simp add: peeked_def)
      then show ?thesis using False X by (simp only: d set_simps image_insert) blast
    qed
  next
    case False
    then show ?thesis by (simp add: popped_def peeked_def)
  qed
  moreover have "unread (map (popped m) qs) = fst ` set (drop (snd (popped m (ps, p))) ps) \<union> unread (map (popped m) qs')"
    by (simp add: q(1) qp)
  moreover have "unread qs = fst ` set (drop p ps) \<union> unread qs'" by (simp add: q(1) qp)
  ultimately show ?case using Cons.IH [OF q(3) ge(2)] by (simp only: Un_Diff)
qed simp

lemma merge_loop_law:
  assumes "runs_repr (ms_runs st) qs" "\<forall>l. ms_last_emitted st = Some l \<longrightarrow> (\<forall>d\<in>unread qs. l < d)"
  shows "\<exists>e' st' qs'. merge_loop R B e out st = Some (e', out @ take (B - e) (sorted_list_of_set (unread qs)), st')
    \<and> runs_repr (ms_runs st') qs' \<and> map fst qs' = map fst qs
    \<and> unread qs' = set (drop (B - e) (sorted_list_of_set (unread qs)))
    \<and> (\<forall>l. ms_last_emitted st' = Some l \<longrightarrow> (\<forall>d\<in>unread qs'. l < d) \<and> (ms_last_emitted st = Some l \<or> l \<in> unread qs))
    \<and> e' = e + min (B - e) (card (unread qs))"
  using assms
proof (induction "card (unread qs)" arbitrary: st qs e out rule: less_induct)
  case less
  show ?case
  proof (cases "e < B")
    case False
    then show ?thesis using less.prems by (subst merge_loop.simps) auto
  next
    case eB: True
    obtain rs where rs: "peek_min R (ms_runs st) None = Some (opt_min (unread qs), rs)" "runs_repr rs qs"
      using peek_min_law [OF less.prems(1), of "{}"] by (auto simp: opt_min_def)
    show ?thesis
    proof (cases "unread qs = {}")
      case True
      have "merge_loop R B e out st = Some (e, out, st\<lparr>ms_runs := rs\<rparr>)"
        using eB rs True by (subst merge_loop.simps) (simp add: opt_min_def)
      then show ?thesis using rs(2) True less.prems(2)
        by (intro exI [of _ e] exI [of _ "st\<lparr>ms_runs := rs\<rparr>"] exI [of _ qs]) simp
    next
      case False
      let ?U = "unread qs" let ?v = "Min ?U"
      have v: "?v \<in> ?U" "\<forall>d\<in>?U. ?v \<le> d" using False by simp_all
      obtain rs' where rs': "pop_min R ?v rs = Some rs'" "runs_repr rs' (map (popped ?v) qs)"
        using pop_min_law [OF rs(2)] by blast
      let ?qs = "map (popped ?v) qs" and ?st = "\<lparr>ms_runs = rs', ms_last_emitted = Some ?v\<rparr>"
      have U': "unread ?qs = ?U - {?v}" by (rule unread_popped [OF rs(2) v(2)])
      have fresh: "ms_last_emitted st \<noteq> Some ?v" using less.prems(2) v(1) by blast
      have step: "merge_loop R B e out st = merge_loop R B (e + 1) (out @ [?v]) ?st"
        using eB rs(1) rs'(1) False fresh by (subst merge_loop.simps) (simp add: opt_min_def Let_def)
      have lt: "card (unread ?qs) < card ?U" unfolding U' using v(1) by (intro card_Diff1_less) simp_all
      have inv: "\<forall>l. ms_last_emitted ?st = Some l \<longrightarrow> (\<forall>d\<in>unread ?qs. l < d)"
        using v(2) by (auto simp: U' order.not_eq_order_implies_strict)
      from less.hyps [OF lt _ inv, of "e + 1" "out @ [?v]"] rs'(2)
      obtain e' st' qs' where IH: "merge_loop R B (e + 1) (out @ [?v]) ?st
          = Some (e', (out @ [?v]) @ take (B - (e + 1)) (sorted_list_of_set (unread ?qs)), st')"
        "runs_repr (ms_runs st') qs'" "map fst qs' = map fst ?qs"
        "unread qs' = set (drop (B - (e + 1)) (sorted_list_of_set (unread ?qs)))"
        "\<forall>l. ms_last_emitted st' = Some l \<longrightarrow> (\<forall>d\<in>unread qs'. l < d) \<and> (ms_last_emitted ?st = Some l \<or> l \<in> unread ?qs)"
        "e' = e + 1 + min (B - (e + 1)) (card (unread ?qs))"
        by auto
      have sl: "sorted_list_of_set ?U = ?v # sorted_list_of_set (?U - {?v})"
        using False by (simp add: sorted_list_of_set_nonempty)
      have Be: "B - e = Suc (B - (e + 1))" using eB by simp
      have c: "card ?U = Suc (card (?U - {?v}))" using v(1) by (intro card_Suc_Diff1 [symmetric]) simp_all
      have "map fst ?qs = map fst qs" by (simp add: popped_def)
      moreover have "out @ take (B - e) (sorted_list_of_set ?U) = (out @ [?v]) @ take (B - (e + 1)) (sorted_list_of_set (unread ?qs))"
        "drop (B - e) (sorted_list_of_set ?U) = drop (B - (e + 1)) (sorted_list_of_set (unread ?qs))"
        unfolding U' sl Be by simp_all
      moreover have "e' = e + min (B - e) (card ?U)" unfolding IH(6) U' c Be by simp
      moreover have "\<forall>l. ms_last_emitted st' = Some l \<longrightarrow> (\<forall>d\<in>unread qs'. l < d) \<and> (ms_last_emitted st = Some l \<or> l \<in> ?U)"
        using IH(5) v(1) U' by auto
      ultimately show ?thesis using IH(1-4) step
        by (intro exI [of _ e'] exI [of _ st'] exI [of _ qs'] conjI) (simp_all only:)
    qed
  qed
qed

section \<open>Lemmas: suspension\<close>

lemma replay_law: "repr r ps p \<Longrightarrow> p + n \<le> length ps \<Longrightarrow> \<exists>r'. replay R n r = Some r' \<and> repr r' ps (p + n)"
proof (induction n arbitrary: r p)
  case (Suc n)
  obtain r1 where r1: "rd_next R r = Some (peeked ps p, r1)" "repr r1 ps (min (Suc p) (length ps))"
    using next_law [OF Suc.prems(1)] by blast
  have m: "min (Suc p) (length ps) = Suc p" "\<exists>d. peeked ps p = Some d" using Suc.prems(2) by (simp_all add: peeked_def)
  with Suc.IH [of r1 "Suc p"] r1 Suc.prems(2) show ?case by (auto simp: m)
qed simp

lemma restore_law:
  assumes "list_all2 (\<lambda>r q. repr r (fst q) 0) fresh qs" "\<forall>q\<in>set qs. snd q \<le> length (fst q)"
  shows "\<exists>rs. restore R fresh \<lparr>mc_positions = map snd qs, mc_last_emitted = l\<rparr> = Some \<lparr>ms_runs = rs, ms_last_emitted = l\<rparr>
    \<and> runs_repr rs qs"
proof -
  have "\<exists>rs. those (map (\<lambda>(run, consumed). replay R consumed run) (zip fresh (map snd qs))) = Some rs \<and> runs_repr rs qs"
    using assms
  proof (induction fresh qs rule: list_all2_induct)
    case (Cons r fresh q qs)
    then obtain r' where "replay R (snd q) r = Some r'" "repr r' (fst q) (snd q)"
      using replay_law [of r "fst q" 0 "snd q"] by auto
    with Cons show ?case by auto
  qed simp
  with list_all2_lengthD [OF assms(1)] show ?thesis by (auto simp: restore_def)
qed

lemma runs_positions: "runs_repr rs qs \<Longrightarrow> map (rd_pos R) rs = map snd qs \<and> (\<forall>q\<in>set qs. snd q \<le> length (fst q) \<and> snd q < 2 ^ 32)"
proof (induction rs arbitrary: qs)
  case (Cons r rs)
  then obtain q qs' where q: "qs = q # qs'" "repr r (fst q) (snd q)" "runs_repr rs qs'" by auto
  have "snd q \<le> length (fst q)" "length (fst q) < 2 ^ 32" "rd_pos R r = snd q"
    using repr_le [OF q(2)] repr_small [OF q(2)] pos_law [OF q(2)] by simp_all
  with Cons.IH [OF q(3)] q(1) show ?case by auto
qed simp

lemma unread_u32: "list_all2 (\<lambda>r q. repr r (fst q) 0) fresh qs \<Longrightarrow> d \<in> unread qs \<Longrightarrow> d < 2 ^ 32"
proof (induction fresh qs rule: list_all2_induct)
  case (Cons r fresh q qs)
  show ?case
  proof (cases "d \<in> unread qs")
    case False
    then obtain x where "x \<in> set (fst q)" "d = fst x"
      using Cons.prems by (cases q) (auto dest: in_set_dropD)
    with repr_docid [OF Cons.hyps(1)] show ?thesis by simp
  qed (rule Cons.IH)
qed simp

lemma merge_sliced_law:
  assumes "list_all2 (\<lambda>r q. repr r (fst q) 0) fresh qs" "length fresh < 2 ^ 32"
    and "\<forall>q\<in>set qs. snd q \<le> length (fst q)"
    and "\<forall>d. l = Some d \<longrightarrow> d < 2 ^ 32 \<and> (\<forall>x\<in>unread qs. d < x)"
  shows "merge_sliced R fresh bs (cursor_to_bytes \<lparr>mc_positions = map snd qs, mc_last_emitted = l\<rparr>) out
    = Some (out @ take (sum_list bs) (sorted_list_of_set (unread qs)))"
  using assms
proof (induction bs arbitrary: qs l out)
  case (Cons b bs)
  let ?c = "\<lparr>mc_positions = map snd qs, mc_last_emitted = l\<rparr>"
  obtain rs where rs: "restore R fresh ?c = Some \<lparr>ms_runs = rs, ms_last_emitted = l\<rparr>" "runs_repr rs qs"
    using restore_law [OF Cons.prems(1,3)] by blast
  have c: "cursor_from_bytes (cursor_to_bytes ?c) = Some ?c"
    using Cons.prems list_all2_lengthD [OF Cons.prems(1)] runs_positions [OF rs(2)] by (intro cursor_roundtrip) auto
  obtain e' st' qs' where st: "merge_step R \<lparr>ms_runs = rs, ms_last_emitted = l\<rparr> b out
      = Some (e', out @ take b (sorted_list_of_set (unread qs)), st')"
    "runs_repr (ms_runs st') qs'" "map fst qs' = map fst qs"
    "unread qs' = set (drop b (sorted_list_of_set (unread qs)))"
    "\<forall>d. ms_last_emitted st' = Some d \<longrightarrow> (\<forall>x\<in>unread qs'. d < x) \<and> (l = Some d \<or> d \<in> unread qs)"
    using merge_loop_law [of "\<lparr>ms_runs = rs, ms_last_emitted = l\<rparr>" qs b 0 out] rs(2) Cons.prems(4)
    by (auto simp: merge_step_def)
  note P = runs_positions [OF st(2)]
  have cur: "merge_cursor_of R st' = \<lparr>mc_positions = map snd qs', mc_last_emitted = ms_last_emitted st'\<rparr>"
    using P by (simp add: merge_cursor_of_def)
  have fresh': "list_all2 (\<lambda>r q. repr r (fst q) 0) fresh qs'"
  proof -
    have "list_all2 (\<lambda>r ps. repr r ps 0) fresh (map fst qs)" using Cons.prems(1) by (simp add: list_all2_map2)
    then show ?thesis by (simp add: st(3) [symmetric] list_all2_map2)
  qed
  have last': "\<forall>d. ms_last_emitted st' = Some d \<longrightarrow> d < 2 ^ 32 \<and> (\<forall>x\<in>unread qs'. d < x)"
    using st(5) Cons.prems(4) unread_u32 [OF Cons.prems(1)] by blast
  have IH: "merge_sliced R fresh bs (cursor_to_bytes \<lparr>mc_positions = map snd qs', mc_last_emitted = ms_last_emitted st'\<rparr>) out'
      = Some (out' @ take (sum_list bs) (sorted_list_of_set (unread qs')))" for out'
    using P by (intro Cons.IH [OF fresh' Cons.prems(2) _ last']) blast
  have "sorted_list_of_set (unread qs') = drop b (sorted_list_of_set (unread qs))"
    unfolding st(4) by (rule sorted_list_of_set.idem_if_sorted_distinct) (simp_all add: sorted_wrt_drop)
  then show ?case using c rs(1) st(1) IH by (simp add: cur take_add)
qed simp

lemma all_done_law: "runs_repr rs qs \<Longrightarrow> \<exists>rs'. all_done R rs = Some (unread qs = {}, rs') \<and> runs_repr rs' qs"
proof (induction rs arbitrary: qs)
  case (Cons r rs)
  then obtain ps p qs' where q: "qs = (ps, p) # qs'" "repr r ps p" "runs_repr rs qs'" by (auto simp: list_all2_Cons1)
  obtain r' where r': "rd_peek R r = Some (peeked ps p, r')" "repr r' ps p" using peek_law [OF q(2)] by blast
  obtain rs' where rs': "all_done R rs = Some (unread qs' = {}, rs')" "runs_repr rs' qs'" using Cons.IH [OF q(3)] by blast
  show ?case using r' rs' q by (auto simp: peeked_def)
qed simp

lemma is_done_law:
  "runs_repr (ms_runs st) qs \<Longrightarrow> \<exists>st'. is_done R st = Some (unread qs = {}, st') \<and> runs_repr (ms_runs st') qs"
  using all_done_law [of "ms_runs st" qs] by (auto simp: is_done_def)

end

section \<open>Properties\<close>

text \<open>A run in one of the five encodings of \<open>open_all\<close>.\<close>

definition open_runs :: "(nat list \<times> nat) list \<Rightarrow> any_reader list option" where
  "open_runs specs = those (map (\<lambda>(docs, codec). do { rs \<leftarrow> open_all docs; get rs codec }) specs)"

lemma open_runs_repr:
  "\<forall>(docs, codec)\<in>set specs. postings_fit docs \<and> codec < 5 \<Longrightarrow>
   \<exists>rs. open_runs specs = Some rs \<and> list_all2 (\<lambda>r q. any_repr r (fst q) 0) rs (map (\<lambda>(docs, codec). (ones docs, 0::nat)) specs)"
proof (induction specs)
  case (Cons x specs)
  obtain docs codec where x: "x = (docs, codec)" "postings_fit docs" "codec < 5" using Cons.prems by (cases x) auto
  obtain rs where "open_all docs = Some rs" "length rs = 5" "\<forall>r\<in>set rs. any_repr r (ones docs) 0"
    using open_all_repr [OF x(2)] by blast
  then have "(do { rs \<leftarrow> open_all docs; get rs codec }) = Some (rs ! codec)" "any_repr (rs ! codec) (ones docs) 0"
    using x(3) by (simp_all add: index_def)
  with Cons x(1) show ?case by (auto simp: open_runs_def)
qed (simp add: open_runs_def)

lemma unread_rewound: "unread (map (\<lambda>(docs, codec). (ones docs, 0::nat)) specs) = (\<Union>(docs, codec)\<in>set specs. set docs)"
  by (induction specs) (auto simp: image_image)

lemma sample_fits: "postings_fit [3, 7]" "postings_fit [1, 7, 9]"
  by (rule postings_fit_small; auto simp: assert_strictly_increasing_def less_Suc_eq numeral_3_eq_3)+

text \<open>
  C5. A merge may be suspended anywhere: for runs in any mix of the five encodings and any sequence of
  budgets, restoring the state from rewound runs and the saved cursor bytes before every step never
  fails, and the steps together emit exactly the first docids, as many as the budgets add up to, of
  the sorted union of the runs, each docid once.
\<close>

theorem merge_resumes_exactly:
  assumes "\<forall>(docs, codec)\<in>set specs. postings_fit docs \<and> codec < 5" "length specs < 2 ^ 32"
  shows "\<exists>runs. open_runs specs = Some runs
    \<and> merge_sliced any_ops runs budgets (cursor_to_bytes (merge_cursor_of any_ops (merge_new runs))) []
      = Some (take (sum_list budgets) (sorted_list_of_set (\<Union>(docs, codec)\<in>set specs. set docs)))"
proof -
  let ?qs = "map (\<lambda>(docs, codec). (ones docs, 0::nat)) specs"
  obtain runs where runs: "open_runs specs = Some runs" "list_all2 (\<lambda>r q. any_repr r (fst q) 0) runs ?qs"
    using open_runs_repr [OF assms(1)] by blast
  have "map (rd_pos any_ops) runs = map snd ?qs"
    using runs(2) by (induction specs arbitrary: runs) (auto simp: list_all2_Cons2 any.pos_law)
  then have c: "merge_cursor_of any_ops (merge_new runs) = \<lparr>mc_positions = map snd ?qs, mc_last_emitted = None\<rparr>"
    by (simp add: merge_cursor_of_def merge_new_def)
  have "length runs < 2 ^ 32" using assms(2) list_all2_lengthD [OF runs(2)] by simp
  moreover have "\<forall>q\<in>set ?qs. snd q \<le> length (fst q)" by (simp add: case_prod_unfold)
  ultimately have
    "merge_sliced any_ops runs budgets (cursor_to_bytes (merge_cursor_of any_ops (merge_new runs))) []
      = Some (take (sum_list budgets) (sorted_list_of_set (unread ?qs)))"
    unfolding c using any.merge_sliced_law [OF runs(2), of None budgets "[]"] by simp
  with runs(1) show ?thesis unfolding unread_rewound by blast
qed

text \<open>C5 applied to a varint run and an Elias-Fano run that share a docid, merged with budgets 1 and 2.\<close>

theorem merge_resumes_exactly_witness:
  "\<exists>runs. open_runs [([3, 7], 1), ([1, 7, 9], 3)] = Some runs
    \<and> merge_sliced any_ops runs [1, 2] (cursor_to_bytes (merge_cursor_of any_ops (merge_new runs))) [] = Some [1, 3, 7]"
proof -
  have "\<forall>(docs, codec)\<in>set [([3, 7], 1::nat), ([1, 7, 9], 3)]. postings_fit docs \<and> codec < 5"
    "length [([3, 7], 1::nat), ([1, 7, 9], 3)] < 2 ^ 32" by (simp_all add: sample_fits [simplified])
  from merge_resumes_exactly [OF this, of "[1, 2]"] show ?thesis by (simp add: insert_commute)
qed

text \<open>
  C19. One merge step reports what it did: from freshly opened runs it appends the \<open>out_budget\<close> smallest
  docids of the union (all of them when there are fewer), returns how many it appended, and \<open>is_done\<close>
  afterwards holds exactly when nothing of the union is left.
\<close>

theorem merge_step_reports:
  assumes "\<forall>(docs, codec)\<in>set specs. postings_fit docs \<and> codec < 5"
  shows "\<exists>runs st st'. open_runs specs = Some runs
    \<and> merge_step any_ops (merge_new runs) out_budget out
      = Some (min out_budget (card (\<Union>(docs, codec)\<in>set specs. set docs)),
              out @ take out_budget (sorted_list_of_set (\<Union>(docs, codec)\<in>set specs. set docs)), st)
    \<and> is_done any_ops st = Some (card (\<Union>(docs, codec)\<in>set specs. set docs) \<le> out_budget, st')"
proof -
  let ?qs = "map (\<lambda>(docs, codec). (ones docs, 0::nat)) specs" and ?U = "\<Union>(docs, codec)\<in>set specs. set docs"
  obtain runs where runs: "open_runs specs = Some runs" "list_all2 (\<lambda>r q. any_repr r (fst q) 0) runs ?qs"
    using open_runs_repr [OF assms] by blast
  have "list_all2 (\<lambda>r q. any_repr r (fst q) (snd q)) runs ?qs"
    using runs(2) by (simp add: list_all2_map2 case_prod_unfold)
  then have R: "any.runs_repr (ms_runs (merge_new runs)) ?qs" by (simp add: merge_new_def any.runs_repr_def)
  obtain e st qs' where st: "merge_step any_ops (merge_new runs) out_budget out
      = Some (min out_budget (card ?U), out @ take out_budget (sorted_list_of_set ?U), st)"
    "any.runs_repr (ms_runs st) qs'" "unread qs' = set (drop out_budget (sorted_list_of_set ?U))"
    using any.merge_loop_law [OF R, of out_budget 0 out] unread_rewound [of specs]
    by (auto simp: merge_step_def merge_new_def)
  have "unread qs' = {} \<longleftrightarrow> card ?U \<le> out_budget" using st(3) by simp
  with any.is_done_law [OF st(2)] st(1) runs(1) show ?thesis by auto
qed

text \<open>C19 applied to two overlapping runs and a budget larger than their union.\<close>

theorem merge_step_reports_witness:
  "\<exists>runs st st'. open_runs [([3, 7], 1), ([1, 7, 9], 3)] = Some runs
    \<and> merge_step any_ops (merge_new runs) 10 [] = Some (4, [1, 3, 7, 9], st) \<and> is_done any_ops st = Some (True, st')"
proof -
  have "\<forall>(docs, codec)\<in>set [([3, 7], 1::nat), ([1, 7, 9], 3)]. postings_fit docs \<and> codec < 5" by (simp add: sample_fits [simplified])
  from merge_step_reports [OF this, of 10 "[]"] show ?thesis by (simp add: insert_commute eval_nat_numeral)
qed

end
