(* ===== verification/TopK.thy ===== *)
theory TopK
  imports Merge "HOL-Library.Option_ord" "HOL-Library.Multiset"
begin

text \<open>
  The block-max table (\<open>crates/ic-stable-text-postings/src/blockmax.rs\<close>) and the disjunctive top-k
  executor (\<open>topk.rs\<close>): query lists, the hit order, the insertion pass over cached frontiers and the
  driver loop with its whole-total skip. The loop is a \<open>partial_function\<close>, so that it returns is part
  of what is proved; the specification is the exhaustive evaluation \<open>brute_force\<close>.
\<close>

section \<open>blockmax.rs\<close>

definition LOGICAL_BLOCK_SIZE :: nat where
  "LOGICAL_BLOCK_SIZE = 128"

definition logical_block_count :: "nat \<Rightarrow> nat" where
  "logical_block_count list_len = div_ceil list_len LOGICAL_BLOCK_SIZE"

record block_max_table =
  bm_list_len :: nat
  bm_values :: "nat list"

definition block_max_new :: "nat \<Rightarrow> nat list \<Rightarrow> block_max_table option" where
  "block_max_new list_len values = do {
     guard (length values = logical_block_count list_len);
     Some \<lparr>bm_list_len = list_len, bm_values = values\<rparr> }"

definition block_count :: "block_max_table \<Rightarrow> nat" where
  "block_count t = length (bm_values t)"

definition block_max :: "block_max_table \<Rightarrow> nat \<Rightarrow> nat option" where
  "block_max t block = get (bm_values t) block"

section \<open>QueryList\<close>

record 'r query_list =
  ql_reader :: 'r
  ql_weight :: nat
  ql_block_bounds :: "nat list"
  ql_tf_parts :: "nat list"

definition frontier :: "'r reader_ops \<Rightarrow> 'r query_list \<Rightarrow> (nat option \<times> 'r query_list) option" where
  "frontier R q = do { (v, r) \<leftarrow> rd_peek R (ql_reader q); Some (v, q\<lparr>ql_reader := r\<rparr>) }"

definition bound_at :: "'r query_list \<Rightarrow> nat \<Rightarrow> nat option" where
  "bound_at q docid = index (ql_block_bounds q) (docid div LOGICAL_BLOCK_SIZE)"

definition take_step :: "'r reader_ops \<Rightarrow> 'r query_list \<Rightarrow> ((nat \<times> nat option) \<times> 'r query_list) option" where
  "take_step R q = do {
     (s, r) \<leftarrow> rd_next_step R (ql_reader q);
     (_, tf) \<leftarrow> s;
     part \<leftarrow> index (ql_tf_parts q) (min tf 255);
     (v, r') \<leftarrow> rd_peek R r;
     Some (((ql_weight q + part) mod 2 ^ 32, v), q\<lparr>ql_reader := r'\<rparr>) }"

definition skip_to :: "'r reader_ops \<Rightarrow> 'r query_list \<Rightarrow> nat \<Rightarrow> 'r query_list option" where
  "skip_to R q target = do { (_, r) \<leftarrow> rd_advance R (ql_reader q) target; Some (q\<lparr>ql_reader := r\<rparr>) }"

section \<open>Hit\<close>

datatype hit = Hit (hit_score: nat) (hit_docid: nat)

text \<open>\<open>Hit::cmp\<close>: higher scores rank greater, and among equal scores lower docids do.\<close>

definition hit_le :: "hit \<Rightarrow> hit \<Rightarrow> bool" where
  "hit_le a b \<longleftrightarrow> hit_score a < hit_score b \<or> hit_score a = hit_score b \<and> hit_docid b \<le> hit_docid a"

instantiation hit :: linorder
begin

definition less_eq_hit :: "hit \<Rightarrow> hit \<Rightarrow> bool" where
  "less_eq_hit a b = hit_le a b"

definition less_hit :: "hit \<Rightarrow> hit \<Rightarrow> bool" where
  "less_hit a b = (hit_le a b \<and> \<not> hit_le b a)"

instance
  by standard (auto simp: less_eq_hit_def less_hit_def hit_le_def hit.expand)

end

section \<open>The driver\<close>

text \<open>The order and frontier vectors move together: one list of pairs of a list index and its cached frontier.\<close>

type_synonym order = "(nat \<times> nat option) list"

definition next_block_start :: "nat \<Rightarrow> nat" where
  "next_block_start docid = (docid div LOGICAL_BLOCK_SIZE + 1) * LOGICAL_BLOCK_SIZE mod 2 ^ 32"

fun sift :: "order \<Rightarrow> nat \<Rightarrow> order" where
  "sift ord 0 = ord"
| "sift ord (Suc p) = (if snd (ord ! Suc p) < snd (ord ! p)
     then sift (ord[p := ord ! Suc p, Suc p := ord ! p]) p else ord)"

definition sort_by_cached_frontier :: "order \<Rightarrow> order" where
  "sort_by_cached_frontier ord = fold (\<lambda>i ord. sift ord i) [1..<length ord] ord"

fun init_frontiers :: "'r reader_ops \<Rightarrow> 'r query_list list \<Rightarrow> (nat option list \<times> 'r query_list list) option" where
  "init_frontiers R [] = Some ([], [])"
| "init_frontiers R (q # qs) = do {
     (f, q') \<leftarrow> frontier R q;
     (fs, qs') \<leftarrow> init_frontiers R qs;
     Some (f # fs, q' # qs') }"

fun can_qualify :: "'r query_list list \<Rightarrow> nat \<Rightarrow> nat \<Rightarrow> order \<Rightarrow> bool option" where
  "can_qualify qls required total_bound [] = Some False"
| "can_qualify qls required total_bound ((idx, f) # ord) = do {
     fr \<leftarrow> f;
     q \<leftarrow> index qls idx;
     bound \<leftarrow> bound_at q fr;
     let total_bound = min (total_bound + bound) (2 ^ 32 - 1);
     if required \<le> total_bound then Some True else can_qualify qls required total_bound ord }"

fun skip_jump :: "order \<Rightarrow> nat option" where
  "skip_jump [] = None"
| "skip_jump [(_, f)] = map_option next_block_start f"
| "skip_jump ((_, f) # ord) = do { d \<leftarrow> f; j \<leftarrow> skip_jump ord; Some (min (next_block_start d) j) }"

fun skip_all :: "'r reader_ops \<Rightarrow> nat \<Rightarrow> 'r query_list list \<Rightarrow> order \<Rightarrow> ('r query_list list \<times> order) option" where
  "skip_all R jump qls [] = Some (qls, [])"
| "skip_all R jump qls ((idx, _) # ord) = do {
     q \<leftarrow> index qls idx;
     q' \<leftarrow> skip_to R q jump;
     (f, q'') \<leftarrow> frontier R q';
     (qls', ord') \<leftarrow> skip_all R jump (qls[idx := q'']) ord;
     Some (qls', (idx, f) # ord') }"

fun evaluate :: "'r reader_ops \<Rightarrow> nat \<Rightarrow> 'r query_list list \<Rightarrow> order \<Rightarrow> nat \<Rightarrow> ('r query_list list \<times> order \<times> nat) option" where
  "evaluate R candidate qls [] score = Some (qls, [], score)"
| "evaluate R candidate qls ((idx, f) # ord) score =
     (if f = Some candidate then do {
        q \<leftarrow> index qls idx;
        ((contribution, nxt), q') \<leftarrow> take_step R q;
        (qls', ord', score') \<leftarrow> evaluate R candidate (qls[idx := q']) ord ((score + contribution) mod 2 ^ 32);
        Some (qls', (idx, nxt) # ord', score') }
      else Some (qls, (idx, f) # ord, score))"

text \<open>The bounded heap, worst hit first.\<close>

definition heap_offer :: "nat \<Rightarrow> hit \<Rightarrow> hit list \<Rightarrow> hit list option" where
  "heap_offer k h heap = (if length heap < k then Some (insort h heap)
     else case heap of [] \<Rightarrow> None | worst # rest \<Rightarrow> Some (if worst < h then insort h rest else heap))"

definition compact :: "order \<Rightarrow> order" where
  "compact ord = (case ord of (_, None) # _ \<Rightarrow> drop (partition_point (\<lambda>(_, f). f = None) ord) ord | _ \<Rightarrow> ord)"

definition must_skip :: "nat \<Rightarrow> 'r query_list list \<Rightarrow> order \<Rightarrow> hit list \<Rightarrow> bool option" where
  "must_skip k qls ord heap = (if length heap = k then
       case heap of [] \<Rightarrow> None
       | worst # _ \<Rightarrow> map_option Not (can_qualify qls ((hit_score worst + 1) mod 2 ^ 32) 0 ord)
     else Some False)"

partial_function (option) topk_loop ::
  "'r reader_ops \<Rightarrow> nat \<Rightarrow> 'r query_list list \<Rightarrow> order \<Rightarrow> hit list \<Rightarrow> hit list option" where
  "topk_loop R k qls ord heap =
     (if compact ord = [] then Some heap
      else do {
        let ord = compact ord;
        skip \<leftarrow> must_skip k qls ord heap;
        if skip then do {
          jump \<leftarrow> skip_jump ord;
          (qls', ord') \<leftarrow> skip_all R jump qls ord;
          topk_loop R k qls' (sort_by_cached_frontier ord') heap }
        else do {
          candidate \<leftarrow> snd (hd ord);
          (qls', ord', score) \<leftarrow> evaluate R candidate qls ord 0;
          heap' \<leftarrow> heap_offer k (Hit score candidate) heap;
          topk_loop R k qls' (sort_by_cached_frontier ord') heap' } })"

definition topk_disjunctive :: "'r reader_ops \<Rightarrow> 'r query_list list \<Rightarrow> nat \<Rightarrow> hit list option" where
  "topk_disjunctive R qls k = do {
     (fs, qls') \<leftarrow> init_frontiers R qls;
     heap \<leftarrow> topk_loop R k qls' (sort_by_cached_frontier (zip [0..<length qls] fs)) [];
     Some (rev (sort heap)) }"

section \<open>Specification\<close>

text \<open>
  The same query lists with their postings in place of the readers: what a document scores, and the
  best \<open>k\<close> of all matching documents, score descending and docid ascending.
\<close>

definition term_contribution :: "postings query_list \<Rightarrow> nat \<Rightarrow> nat" where
  "term_contribution t d = (case map_of (ql_reader t) d of None \<Rightarrow> 0
     | Some tf \<Rightarrow> ql_weight t + ql_tf_parts t ! min tf 255)"

definition doc_hit :: "postings query_list list \<Rightarrow> nat \<Rightarrow> hit" where
  "doc_hit ts d = Hit (\<Sum>t\<leftarrow>ts. term_contribution t d) d"

definition matching :: "postings query_list list \<Rightarrow> nat set" where
  "matching ts = (\<Union>t\<in>set ts. fst ` set (ql_reader t))"

definition brute_force :: "postings query_list list \<Rightarrow> nat \<Rightarrow> hit list" where
  "brute_force ts k = take k (rev (sorted_list_of_set (doc_hit ts ` matching ts)))"

text \<open>
  What the caller promises of a list: 256 table entries, a bound for the block of every posting that its
  contribution does not exceed, and no docid in the last block of the docid space.
\<close>

definition bounds_ok :: "postings query_list \<Rightarrow> bool" where
  "bounds_ok t \<longleftrightarrow> length (ql_tf_parts t) = 256
     \<and> (\<forall>(d, tf)\<in>set (ql_reader t). d + 128 < 2 ^ 32 \<and> d div LOGICAL_BLOCK_SIZE < length (ql_block_bounds t)
          \<and> ql_weight t + ql_tf_parts t ! min tf 255 \<le> ql_block_bounds t ! (d div LOGICAL_BLOCK_SIZE))"

section \<open>Lemmas: the insertion pass\<close>

lemma sift_insert:
  "sorted (map snd ys) \<Longrightarrow> \<exists>ws. sift (ys @ x # zs) (length ys) = ws @ zs \<and> mset ws = mset (ys @ [x]) \<and> sorted (map snd ws)"
proof (induction ys arbitrary: zs rule: rev_induct)
  case Nil
  show ?case by (intro exI [of _ "[x]"]) simp
next
  case (snoc y ys)
  let ?l = "(ys @ [y]) @ x # zs"
  have n: "?l ! length ys = y" "?l ! Suc (length ys) = x" by (simp_all add: nth_append)
  have s: "sift ?l (length (ys @ [y]))
      = (if snd x < snd y then sift (?l[length ys := x, Suc (length ys) := y]) (length ys) else ?l)"
    using n by simp
  show ?case
  proof (cases "snd x < snd y")
    case True
    have "?l[length ys := x, Suc (length ys) := y] = ys @ x # y # zs" by (simp add: list_update_append)
    moreover have "sorted (map snd ys)" using snoc.prems by (simp add: sorted_append)
    from snoc.IH [OF this, of "y # zs"] obtain ws where ws: "sift (ys @ x # y # zs) (length ys) = ws @ y # zs"
      "mset ws = mset (ys @ [x])" "sorted (map snd ws)" by blast
    have "\<forall>w\<in>set ws. snd w \<le> snd y"
      using mset_eq_setD [OF ws(2)] snoc.prems True by (auto simp: sorted_append)
    ultimately show ?thesis using ws True s by (intro exI [of _ "ws @ [y]"]) (auto simp: sorted_append)
  next
    case False
    have "\<forall>w\<in>set ys. snd w \<le> snd x" using False snoc.prems by (auto simp: sorted_append)
    with False snoc.prems s show ?thesis by (intro exI [of _ "ys @ [y, x]"]) (auto simp: sorted_append)
  qed
qed

lemma sort_prefix:
  "n \<le> length ord \<Longrightarrow> \<exists>ws. fold (\<lambda>i ord. sift ord i) [1..<n] ord = ws @ drop n ord
     \<and> mset ws = mset (take n ord) \<and> sorted (map snd ws)"
proof (induction n)
  case (Suc n)
  show ?case
  proof (cases n)
    case 0
    with Suc.prems show ?thesis by (intro exI [of _ "take 1 ord"]) (cases ord, auto)
  next
    case (Suc m)
    from Suc.IH Suc.prems obtain ws where ws: "fold (\<lambda>i ord. sift ord i) [1..<n] ord = ws @ drop n ord"
      "mset ws = mset (take n ord)" "sorted (map snd ws)" by auto
    have len: "length ws = n" using mset_eq_length [OF ws(2)] Suc.prems by simp
    have d: "drop n ord = ord ! n # drop (Suc n) ord" using Suc.prems by (simp add: Cons_nth_drop_Suc)
    obtain vs where "sift (ws @ ord ! n # drop (Suc n) ord) n = vs @ drop (Suc n) ord"
      "mset vs = mset (ws @ [ord ! n])" "sorted (map snd vs)"
      using sift_insert [OF ws(3), of "ord ! n" "drop (Suc n) ord"] len by auto
    then show ?thesis using Suc Suc.prems ws d by (auto simp: take_Suc_conv_app_nth)
  qed
qed simp

lemma sort_cached:
  "mset (sort_by_cached_frontier ord) = mset ord" "sorted (map snd (sort_by_cached_frontier ord))"
  using sort_prefix [of "length ord" ord] by (auto simp: sort_by_cached_frontier_def)

section \<open>Lemmas: the bounded heap\<close>

definition best :: "nat \<Rightarrow> hit set \<Rightarrow> hit list" where
  "best k S = drop (card S - k) (sorted_list_of_set S)"

lemma insort_low: "sorted (A @ w # B) \<Longrightarrow> x < w \<Longrightarrow> insort x (A @ w # B) = insort x A @ w # (B :: 'a::linorder list)"
  by (induction A) auto

lemma insort_high: "sorted (A @ w # B) \<Longrightarrow> w < x \<Longrightarrow> insort x (A @ w # B) = A @ w # insort x (B :: 'a::linorder list)"
proof (induction A)
  case (Cons a A)
  then have "a \<le> w" by simp
  with Cons show ?case by auto
qed auto

lemma length_best: "finite S \<Longrightarrow> length (best k S) = min k (card S)"
  by (auto simp: best_def)

lemma set_best: "finite S \<Longrightarrow> set (best k S) \<subseteq> S"
  by (auto simp: best_def dest: in_set_dropD)

lemma best_insert:
  assumes "finite S" "x \<notin> S" "0 < k"
  shows best_offer: "heap_offer k x (best k S) = Some (best k (insert x S))"
    and best_below: "length (best k S) = k \<Longrightarrow> x < hd (best k S) \<Longrightarrow> best k (insert x S) = best k S"
proof -
  have ins: "sorted_list_of_set (insert x S) = insort x (sorted_list_of_set S)"
    using assms by (simp add: sorted_list_of_set.sorted_key_list_of_set_insert)
  have c: "card (insert x S) = Suc (card S)" using assms by simp
  have full: "best k (insert x S) = (if w < x then insort x B else w # B)" "x \<noteq> w"
    if B: "best k S = w # B" and k: "length (best k S) = k" for w B
  proof -
    define A where "A = take (card S - k) (sorted_list_of_set S)"
    have L: "sorted_list_of_set S = A @ w # B" unfolding A_def B [symmetric] best_def by simp
    have "k \<le> card S" using k assms(1) by (simp add: length_best)
    then have n: "Suc (card S) - k = Suc (length A)" by (simp add: A_def)
    have "sorted (sorted_list_of_set S)" by simp
    then have srt: "sorted (A @ w # B)" unfolding L .
    have "w \<in> S" using set_best [OF assms(1), of k] B by auto
    then show ne: "x \<noteq> w" using assms(2) by auto
    show "best k (insert x S) = (if w < x then insort x B else w # B)"
      unfolding best_def ins c n L using insort_low [OF srt, of x] insort_high [OF srt, of x] ne by (cases "w < x") auto
  qed
  show "best k (insert x S) = best k S" if "length (best k S) = k" "x < hd (best k S)"
    using that full(1) [OF _ that(1)] assms(3) by (cases "best k S") auto
  show "heap_offer k x (best k S) = Some (best k (insert x S))"
  proof (cases "card S < k")
    case True
    then show ?thesis using assms(1) by (simp add: heap_offer_def length_best best_def ins c)
  next
    case False
    then have k: "length (best k S) = k" using assms(1) by (simp add: length_best)
    then obtain w B where B: "best k S = w # B" using assms(3) by (cases "best k S") auto
    show ?thesis using full(1) [OF B k] B k by (simp add: heap_offer_def)
  qed
qed

lemma best_union:
  assumes "finite T" "finite S" "T \<inter> S = {}" "length (best k S) = k" "0 < k" "\<forall>x\<in>T. x < hd (best k S)"
  shows "best k (T \<union> S) = best k S"
  using assms
proof (induction T rule: finite_induct)
  case (insert x T)
  then have IH: "best k (T \<union> S) = best k S" by auto
  have "best k (insert x (T \<union> S)) = best k (T \<union> S)"
    using insert by (intro best_below) (auto simp: IH)
  then show ?case using IH by simp
qed simp

lemma brute_force_best: "rev (sort (best k S)) = take k (rev (sorted_list_of_set S))" if "finite S"
proof -
  have "sort (best k S) = best k S" unfolding best_def by (intro sorted_sort_id sorted_wrt_drop) simp
  then show ?thesis by (simp add: best_def take_rev)
qed

section \<open>Lemmas: positions at a watermark\<close>

text \<open>
  Between rounds every list stands at the first posting not below one common docid, the watermark.
\<close>

definition front :: "postings query_list list \<Rightarrow> (nat \<Rightarrow> nat) \<Rightarrow> nat \<Rightarrow> nat option" where
  "front ts pos i = peeked (ql_reader (ts ! i)) (pos i)"

definition at_mark :: "postings query_list list \<Rightarrow> nat \<Rightarrow> nat \<Rightarrow> nat" where
  "at_mark ts b i = adv (ql_reader (ts ! i)) 0 b"

lemma adv_from_mark:
  assumes "sorted_wrt (<) (map fst ps)" "b \<le> t"
  shows "adv ps (adv ps 0 b) t = adv ps 0 t"
proof (rule adv_skip [symmetric])
  show "adv ps 0 b \<le> length ps" by (simp add: adv_le)
  show "fst (ps ! i) < t" if "0 \<le> i" "i < adv ps 0 b" for i
  proof -
    have "i < length (takeWhile (\<lambda>x. fst x < b) ps)" using that(2) by (simp add: adv_def)
    then have "fst (takeWhile (\<lambda>x. fst x < b) ps ! i) < b" using nth_mem set_takeWhileD by fastforce
    then show ?thesis using \<open>i < length (takeWhile _ _)\<close> assms(2) by (simp add: takeWhile_nth)
  qed
qed simp

lemma front_mark:
  assumes "sorted_wrt (<) (map fst ps)"
  shows "peeked ps (adv ps 0 b) = opt_min {d \<in> fst ` set ps. b \<le> d}"
  using set_drop_adv [OF assms, of 0 b] peeked_min [OF assms, of "adv ps 0 b"] by simp

lemma adv_past:
  assumes s: "sorted_wrt (<) (map fst ps)" and "b \<le> c" "\<forall>d\<in>fst ` set ps. b \<le> d \<longrightarrow> c \<le> d"
  shows "adv ps 0 (Suc c) = (if peeked ps (adv ps 0 b) = Some c then Suc (adv ps 0 b) else adv ps 0 b)"
proof -
  let ?p = "adv ps 0 b"
  have e: "adv ps 0 (Suc c) = adv ps ?p (Suc c)" using assms by (intro adv_from_mark [symmetric]) simp_all
  have ge: "c \<le> fst (ps ! i)" if "?p \<le> i" "i < length ps" for i
  proof -
    have "drop ?p ps ! (i - ?p) \<in> set (drop ?p ps)" using that by (intro nth_mem) simp
    then have "fst (ps ! i) \<in> fst ` set (drop ?p ps)" using that by (intro imageI) simp
    then show ?thesis using set_drop_adv [OF s, of 0 b] assms(3) by auto
  qed
  show ?thesis
  proof (cases "?p < length ps")
    case True
    show ?thesis
    proof (cases "fst (ps ! ?p) = c")
      case eq: True
      then have "adv ps ?p (Suc c) = adv ps (Suc ?p) (Suc c)" using True by (intro adv_step) simp_all
      also have "\<dots> = Suc ?p"
      proof (cases "Suc ?p < length ps")
        case True
        then have "fst (ps ! ?p) < fst (ps ! Suc ?p)" using s by (simp add: sorted_wrt_iff_nth_less)
        with eq True show ?thesis by (intro adv_stop) simp_all
      qed (simp add: adv_end)
      finally show ?thesis using e eq True by (simp add: peeked_def)
    next
      case False
      then have "adv ps ?p (Suc c) = ?p" using True ge [of ?p] by (intro adv_stop) simp_all
      with e False True show ?thesis by (simp add: peeked_def)
    qed
  next
    case False
    with e show ?thesis by (simp add: peeked_def adv_end)
  qed
qed

section \<open>Lemmas: the order vector\<close>

definition ord_ok :: "postings query_list list \<Rightarrow> (nat \<Rightarrow> nat) \<Rightarrow> order \<Rightarrow> bool" where
  "ord_ok ts pos ord \<longleftrightarrow> sorted (map snd ord) \<and> distinct (map fst ord) \<and> fst ` set ord \<subseteq> {..<length ts}
     \<and> (\<forall>x\<in>set ord. snd x = front ts pos (fst x)) \<and> (\<forall>i<length ts. i \<notin> fst ` set ord \<longrightarrow> front ts pos i = None)"

lemma ord_ok_sort:
  assumes "distinct (map fst ord)" "fst ` set ord \<subseteq> {..<length ts}" "\<forall>i<length ts. i \<notin> fst ` set ord \<longrightarrow> front ts pos i = None"
  shows "ord_ok ts pos (sort_by_cached_frontier (map (\<lambda>x. (fst x, front ts pos (fst x))) ord))"
proof -
  let ?o = "map (\<lambda>x. (fst x, front ts pos (fst x))) ord"
  let ?s = "sort_by_cached_frontier ?o"
  have s: "set ?s = set ?o" using mset_eq_setD [OF sort_cached(1)] .
  have "mset (map fst ?s) = mset (map fst ?o)" by (simp only: mset_map sort_cached(1))
  then have "distinct (map fst ?s) = distinct (map fst ?o)" by (rule mset_eq_imp_distinct_iff)
  moreover have "map fst ?o = map fst ord" by simp
  ultimately have "distinct (map fst ?s)" using assms(1) by (simp only:)
  moreover have f: "fst ` set ?s = fst ` set ord" unfolding s by (simp add: image_image)
  moreover have "\<forall>x\<in>set ?s. snd x = front ts pos (fst x)" unfolding s by simp
  ultimately show ?thesis unfolding ord_ok_def f using assms(2,3) sort_cached(2) [of ?o] by blast
qed

lemma refronted:
  assumes "fst ` set ord \<subseteq> {..<length ts}" "\<And>i. i < length ts \<Longrightarrow> pos i = pos' i"
  shows "map (\<lambda>x. (fst x, front ts pos (fst x))) ord = map (\<lambda>x. (fst x, front ts pos' (fst x))) ord"
proof (rule map_cong [OF refl])
  fix x assume "x \<in> set ord"
  then have "pos (fst x) = pos' (fst x)" using assms by (intro assms(2)) auto
  then show "(fst x, front ts pos (fst x)) = (fst x, front ts pos' (fst x))" by (simp add: front_def)
qed

lemma compact_dropWhile: "compact ord = dropWhile (\<lambda>x. snd x = None) ord"
  by (auto simp: compact_def partition_point_def dropWhile_eq_drop case_prod_unfold split: list.splits option.splits)

lemma compact_ok:
  assumes "ord_ok ts pos ord"
  shows "ord_ok ts pos (compact ord)" "\<forall>x\<in>set (compact ord). snd x \<noteq> None"
proof -
  let ?a = "takeWhile (\<lambda>x. snd x = None) ord" let ?c = "compact ord"
  have o: "?a @ ?c = ord" by (simp add: compact_dropWhile)
  have a: "\<forall>x\<in>set ?a. snd x = None" by (auto dest: set_takeWhileD)
  have s: "sorted (map snd (?a @ ?c))" "distinct (map fst (?a @ ?c))" unfolding o using assms by (simp_all add: ord_ok_def)
  show "\<forall>x\<in>set ?c. snd x \<noteq> None"
  proof (cases ?c)
    case (Cons y ys)
    have "dropWhile (\<lambda>x. snd x = None) ord = y # ys" using Cons by (simp add: compact_dropWhile)
    then have y: "snd y \<noteq> None" by (simp add: dropWhile_eq_Cons_conv)
    have "sorted (map snd (y # ys))" using s(1) unfolding Cons map_append sorted_append by blast
    then have "\<forall>x\<in>set ys. snd y \<le> snd x" by simp
    moreover have "snd x \<noteq> None" if "snd y \<le> snd x" for x :: "nat \<times> nat option" using y that by (cases "snd x"; cases "snd y") simp_all
    ultimately show ?thesis unfolding Cons using y by simp
  qed simp
  have "set ord = set ?a \<union> set ?c" by (metis o set_append)
  then have st: "fst ` set ord = fst ` set ?a \<union> fst ` set ?c" "set ?c \<subseteq> set ord" by auto
  have "front ts pos i = None" if "i < length ts" "i \<notin> fst ` set ?c" for i
  proof (cases "i \<in> fst ` set ?a")
    case True
    then obtain x where x: "x \<in> set ?a" "i = fst x" by blast
    then have "x \<in> set ord" by (blast dest: set_takeWhileD)
    then have "front ts pos i = snd x" using assms x(2) by (simp add: ord_ok_def)
    with x(1) a show ?thesis by simp
  next
    case False
    with assms that st(1) show ?thesis by (simp add: ord_ok_def)
  qed
  moreover have "sorted (map snd ?c)" "distinct (map fst ?c)" using s unfolding map_append sorted_append distinct_append by blast+
  moreover have "fst ` set ?c \<subseteq> {..<length ts}" "\<forall>x\<in>set ?c. snd x = front ts pos (fst x)"
    using assms st unfolding ord_ok_def by blast+
  ultimately show "ord_ok ts pos ?c" by (simp add: ord_ok_def)
qed

lemma takeWhile_filter_min:
  "sorted (map snd xs) \<Longrightarrow> \<forall>x\<in>set xs. m \<le> snd x \<Longrightarrow> takeWhile (\<lambda>x. snd x = m) xs = filter (\<lambda>x. snd x = (m :: 'a :: linorder)) xs"
proof (induction xs)
  case (Cons x xs)
  show ?case
  proof (cases "snd x = m")
    case False
    then have "\<forall>y\<in>set xs. snd y \<noteq> m" using Cons.prems by (auto dest: order.antisym)
    then have "filter (\<lambda>x. snd x = m) xs = []" by (simp add: filter_empty_conv)
    with False show ?thesis by simp
  qed (use Cons in simp)
qed simp

lemma sum_terms:
  fixes g :: "nat \<Rightarrow> nat"
  assumes "distinct (map fst ord)" "fst ` set ord \<subseteq> {..<n}" "\<forall>i<n. i \<notin> fst ` set ord \<longrightarrow> g i = 0"
  shows "(\<Sum>x\<leftarrow>ord. g (fst x)) = (\<Sum>i<n. g i)"
proof -
  have "(\<Sum>x\<leftarrow>ord. g (fst x)) = (\<Sum>i\<leftarrow>map fst ord. g i)" by (simp add: o_def)
  also have "\<dots> = (\<Sum>i\<in>set (map fst ord). g i)" using assms(1) by (rule sum_list_distinct_conv_sum_set)
  also have "\<dots> = (\<Sum>i<n. g i)" using assms(2,3) by (intro sum.mono_neutral_left) auto
  finally show ?thesis .
qed

lemma sum_score: "(\<Sum>t\<leftarrow>ts. term_contribution t d) = (\<Sum>i<length ts. term_contribution (ts ! i) d)"
  by (simp add: sum_list_sum_nth atLeast0LessThan)

lemma next_block_start_small:
  assumes "d + 128 < 2 ^ 32"
  shows "next_block_start d = (d div 128 + 1) * 128"
proof -
  have "(d div 128 + 1) * 128 \<le> d + 128" using div_times_less_eq_dividend [of d 128] by simp
  then show ?thesis unfolding next_block_start_def LOGICAL_BLOCK_SIZE_def using assms by (intro mod_less) (rule le_less_trans)
qed

lemma skip_jump_law:
  "ord \<noteq> [] \<Longrightarrow> \<forall>x\<in>set ord. snd x \<noteq> None \<Longrightarrow> \<exists>j. skip_jump ord = Some j
     \<and> (\<exists>x\<in>set ord. j = next_block_start (the (snd x))) \<and> (\<forall>x\<in>set ord. j \<le> next_block_start (the (snd x)))"
proof (induction ord rule: skip_jump.induct)
  case (3 i f v va)
  then obtain d where f: "f = Some d" by auto
  from 3 obtain j where j: "skip_jump (v # va) = Some j" "\<exists>x\<in>set (v # va). j = next_block_start (the (snd x))"
    "\<forall>x\<in>set (v # va). j \<le> next_block_start (the (snd x))" by (auto simp: f)
  then obtain x where x: "x \<in> set (v # va)" "j = next_block_start (the (snd x))" by blast
  let ?m = "min (next_block_start d) j"
  have "?m = next_block_start d \<or> ?m = j" by (simp add: min_def)
  then have "\<exists>x\<in>set ((i, f) # v # va). ?m = next_block_start (the (snd x))" using x by (auto simp: f)
  moreover have "\<forall>x\<in>set ((i, f) # v # va). ?m \<le> next_block_start (the (snd x))"
    using j(3) by (simp add: f min.coboundedI2)
  moreover have "skip_jump ((i, f) # v # va) = Some ?m" using j(1) by (simp add: f)
  ultimately show ?case by blast
qed auto

section \<open>Lemmas: what a round sees\<close>

definition strictly_sorted :: "postings query_list list \<Rightarrow> bool" where
  "strictly_sorted ts \<longleftrightarrow> (\<forall>t\<in>set ts. sorted_wrt (<) (map fst (ql_reader t)))"

definition query_ok :: "postings query_list list \<Rightarrow> bool" where
  "query_ok ts \<longleftrightarrow> (\<forall>t\<in>set ts. bounds_ok t) \<and> (\<forall>d\<in>matching ts. hit_score (doc_hit ts d) < 2 ^ 32)"

lemma strictly_sortedD: "strictly_sorted ts \<Longrightarrow> i < length ts \<Longrightarrow> sorted_wrt (<) (map fst (ql_reader (ts ! i)))"
  by (simp add: strictly_sorted_def)

lemma finite_matching [simp]: "finite (matching ts)"
  by (auto simp: matching_def)

lemma matching_nth: "d \<in> matching ts \<longleftrightarrow> (\<exists>i<length ts. d \<in> fst ` set (ql_reader (ts ! i)))"
  unfolding matching_def UN_iff set_conv_nth [of ts] by blast

lemma mark_front:
  "strictly_sorted ts \<Longrightarrow> i < length ts \<Longrightarrow>
   front ts (at_mark ts b) i = opt_min {d \<in> fst ` set (ql_reader (ts ! i)). b \<le> d}"
  unfolding front_def at_mark_def by (rule front_mark) (rule strictly_sortedD)

lemma mark_front_le:
  assumes "strictly_sorted ts" "i < length ts" "d \<in> fst ` set (ql_reader (ts ! i))" "b \<le> d"
  obtains f where "front ts (at_mark ts b) i = Some f" "f \<le> d" "b \<le> f" "f \<in> fst ` set (ql_reader (ts ! i))"
proof -
  let ?S = "{d \<in> fst ` set (ql_reader (ts ! i)). b \<le> d}"
  have S: "finite ?S" "d \<in> ?S" using assms(3,4) by simp_all
  have ne: "?S \<noteq> {}" using S(2) by blast
  have m: "Min ?S \<in> ?S" "Min ?S \<le> d" by (rule Min_in [OF S(1) ne], rule Min_le [OF S])
  have "front ts (at_mark ts b) i = Some (Min ?S)" unfolding mark_front [OF assms(1,2)] opt_min_def using ne by (rule if_not_P)
  then show ?thesis using that m by blast
qed

lemma mark_front_Some:
  assumes "strictly_sorted ts" "i < length ts" "front ts (at_mark ts b) i = Some f"
  shows "f \<in> fst ` set (ql_reader (ts ! i))" "b \<le> f"
proof -
  let ?S = "{d \<in> fst ` set (ql_reader (ts ! i)). b \<le> d}"
  have "?S \<noteq> {}" "f = Min ?S" using assms mark_front [OF assms(1,2), of b] by (simp_all add: opt_min_def split: if_splits)
  moreover have "finite ?S" by simp
  ultimately have "f \<in> ?S" using Min_in by blast
  then show "f \<in> fst ` set (ql_reader (ts ! i))" "b \<le> f" by simp_all
qed

lemma least_candidate:
  assumes "ord_ok ts (at_mark ts b) ((i, Some c) # ord)" "strictly_sorted ts"
  shows "c \<in> matching ts" "b \<le> c" "\<forall>d\<in>matching ts. b \<le> d \<longrightarrow> c \<le> d"
proof -
  let ?ord = "(i, Some c) # ord" and ?m = "at_mark ts b"
  have o: "sorted (map snd ?ord)" "\<forall>x\<in>set ?ord. snd x = front ts ?m (fst x)" "fst ` set ?ord \<subseteq> {..<length ts}"
    "\<forall>j<length ts. j \<notin> fst ` set ?ord \<longrightarrow> front ts ?m j = None"
    using assms(1) unfolding ord_ok_def by blast+
  have i: "i < length ts" "front ts ?m i = Some c" using o(2,3) by simp_all
  show "c \<in> matching ts" "b \<le> c" using mark_front_Some [OF assms(2) i] i(1) by (auto simp: matching_nth)
  show "\<forall>d\<in>matching ts. b \<le> d \<longrightarrow> c \<le> d"
  proof (intro ballI impI)
    fix d assume "d \<in> matching ts" "b \<le> d"
    then obtain j where j: "j < length ts" "d \<in> fst ` set (ql_reader (ts ! j))" by (auto simp: matching_nth)
    obtain f where f: "front ts (at_mark ts b) j = Some f" "f \<le> d" using mark_front_le [OF assms(2) j \<open>b \<le> d\<close>] by blast
    then have "j \<in> fst ` set ?ord" using o(4) j(1) by (metis option.simps(3))
    then obtain x where x: "x \<in> set ?ord" "fst x = j" by blast
    have "snd x = front ts ?m (fst x)" using o(2) x(1) by blast
    then have "snd x = Some f" using x(2) f(1) by simp
    moreover have "Some c \<le> snd x" using x(1) o(1) by auto
    ultimately show "c \<le> d" using f(2) by simp
  qed
qed

lemma contribution_at:
  assumes "strictly_sorted ts" "i < length ts" "b \<le> c" "\<forall>d\<in>matching ts. b \<le> d \<longrightarrow> c \<le> d"
  shows "term_contribution (ts ! i) c = (if front ts (at_mark ts b) i = Some c
    then ql_weight (ts ! i) + ql_tf_parts (ts ! i) ! min (snd (ql_reader (ts ! i) ! at_mark ts b i)) 255 else 0)"
proof -
  let ?ps = "ql_reader (ts ! i)" and ?p = "at_mark ts b i"
  have d: "distinct (map fst ?ps)" using strictly_sortedD [OF assms(1,2)] by (simp add: strict_sorted_iff)
  show ?thesis
  proof (cases "front ts (at_mark ts b) i = Some c")
    case True
    then have "?p < length ?ps" "fst (?ps ! ?p) = c" by (auto simp: front_def peeked_def split: if_splits)
    then have "(c, snd (?ps ! ?p)) \<in> set ?ps" by (metis nth_mem prod.collapse)
    with d True show ?thesis by (simp add: term_contribution_def map_of_eq_Some_iff [THEN iffD2])
  next
    case False
    have "c \<notin> fst ` set ?ps"
    proof
      assume c: "c \<in> fst ` set ?ps"
      obtain f where f: "front ts (at_mark ts b) i = Some f" "f \<le> c" "b \<le> f" "f \<in> fst ` set ?ps"
        using mark_front_le [OF assms(1,2) c assms(3)] by blast
      have "f \<in> matching ts" using assms(2) f(4) matching_nth by blast
      then have "c \<le> f" using assms(4) f(3) by blast
      with f False show False by simp
    qed
    then have "map_of ?ps c = None" by (simp add: map_of_eq_None_iff)
    with False show ?thesis by (simp add: term_contribution_def)
  qed
qed

lemma score_bound:
  assumes ok: "ord_ok ts (at_mark ts b) ord" "strictly_sorted ts" "\<forall>t\<in>set ts. bounds_ok t"
    and d: "b \<le> d" "\<forall>x\<in>set ord. d < next_block_start (the (snd x))"
  shows "hit_score (doc_hit ts d) \<le> (\<Sum>x\<leftarrow>ord. ql_block_bounds (ts ! fst x) ! (the (snd x) div LOGICAL_BLOCK_SIZE))"
proof -
  have out: "term_contribution (ts ! i) d = 0" if "i < length ts" "d \<notin> fst ` set (ql_reader (ts ! i))" for i
    using that by (simp add: term_contribution_def map_of_eq_None_iff [THEN iffD2])
  have "term_contribution (ts ! i) d = 0" if i: "i < length ts" "i \<notin> fst ` set ord" for i
  proof (cases "d \<in> fst ` set (ql_reader (ts ! i))")
    case True
    then obtain f where "front ts (at_mark ts b) i = Some f" using mark_front_le [OF ok(2) i(1) True d(1)] by blast
    with ok(1) i show ?thesis by (simp add: ord_ok_def)
  qed (use out i in blast)
  then have "hit_score (doc_hit ts d) = (\<Sum>x\<leftarrow>ord. term_contribution (ts ! fst x) d)"
    using ok(1) unfolding doc_hit_def hit.sel sum_score by (intro sum_terms [symmetric]) (simp_all add: ord_ok_def)
  also have "\<dots> \<le> (\<Sum>x\<leftarrow>ord. ql_block_bounds (ts ! fst x) ! (the (snd x) div LOGICAL_BLOCK_SIZE))"
  proof (rule sum_list_mono)
    fix x assume x: "x \<in> set ord"
    let ?t = "ts ! fst x"
    have i: "fst x < length ts" "snd x = front ts (at_mark ts b) (fst x)" using ok(1) x by (auto simp: ord_ok_def)
    have bo: "bounds_ok ?t" using ok(3) i(1) by simp
    show "term_contribution ?t d \<le> ql_block_bounds ?t ! (the (snd x) div LOGICAL_BLOCK_SIZE)"
    proof (cases "map_of (ql_reader ?t) d")
      case (Some tf)
      then have m: "(d, tf) \<in> set (ql_reader ?t)" by (rule map_of_SomeD)
      then have "d \<in> fst ` set (ql_reader ?t)" by force
      then obtain f where f: "snd x = Some f" "f \<le> d" "f \<in> fst ` set (ql_reader ?t)"
        using mark_front_le [OF ok(2) i(1) _ d(1)] i(2) by metis
      then have "f + 128 < 2 ^ 32" using bo by (auto simp: bounds_ok_def)
      then have "d < (f div 128 + 1) * 128" using d(2) x f(1) next_block_start_small by force
      then have "d div 128 < f div 128 + 1" by (rule less_mult_imp_div_less)
      moreover have "f div 128 \<le> d div 128" using f(2) by (rule div_le_mono)
      ultimately have "d div 128 = f div 128" by simp
      with bo m Some f(1) show ?thesis by (auto simp: bounds_ok_def term_contribution_def LOGICAL_BLOCK_SIZE_def)
    qed (simp add: term_contribution_def)
  qed
  finally show ?thesis .
qed

context posting_reader
begin

definition lists_repr :: "'r query_list list \<Rightarrow> postings query_list list \<Rightarrow> (nat \<Rightarrow> nat) \<Rightarrow> bool" where
  "lists_repr qls ts pos \<longleftrightarrow> length qls = length ts \<and> (\<forall>i<length ts.
     repr (ql_reader (qls ! i)) (ql_reader (ts ! i)) (pos i) \<and> ql_weight (qls ! i) = ql_weight (ts ! i)
     \<and> ql_block_bounds (qls ! i) = ql_block_bounds (ts ! i) \<and> ql_tf_parts (qls ! i) = ql_tf_parts (ts ! i))"

lemma lists_repr_update:
  "lists_repr qls ts pos \<Longrightarrow> i < length ts \<Longrightarrow> repr r (ql_reader (ts ! i)) p \<Longrightarrow>
   lists_repr (qls[i := (qls ! i)\<lparr>ql_reader := r\<rparr>]) ts (pos(i := p))"
  by (auto simp: lists_repr_def nth_list_update)

lemma lists_repr_same: "lists_repr qls ts pos \<Longrightarrow> (\<And>i. i < length ts \<Longrightarrow> pos i = pos' i) \<Longrightarrow> lists_repr qls ts pos'"
  by (auto simp: lists_repr_def)

lemma skip_frontier_law:
  assumes "lists_repr qls ts pos" "i < length ts"
  shows "\<exists>q q'. skip_to R (qls ! i) t = Some q
    \<and> frontier R q = Some (peeked (ql_reader (ts ! i)) (adv (ql_reader (ts ! i)) (pos i) t), q')
    \<and> lists_repr (qls[i := q']) ts (pos(i := adv (ql_reader (ts ! i)) (pos i) t))"
proof -
  let ?ps = "ql_reader (ts ! i)"
  have r: "repr (ql_reader (qls ! i)) ?ps (pos i)" using assms by (simp add: lists_repr_def)
  obtain r1 where r1: "rd_advance R (ql_reader (qls ! i)) t = Some (peeked ?ps (adv ?ps (pos i) t), r1)" "repr r1 ?ps (adv ?ps (pos i) t)"
    using advance_law [OF r] by blast
  obtain r2 where r2: "rd_peek R r1 = Some (peeked ?ps (adv ?ps (pos i) t), r2)" "repr r2 ?ps (adv ?ps (pos i) t)"
    using peek_law [OF r1(2)] by blast
  show ?thesis using lists_repr_update [OF assms r2(2)] r1(1) r2(1)
    by (intro exI [of _ "(qls ! i)\<lparr>ql_reader := r1\<rparr>"] exI [of _ "(qls ! i)\<lparr>ql_reader := r2\<rparr>"])
      (simp add: skip_to_def frontier_def)
qed

lemma take_step_law:
  assumes "lists_repr qls ts pos" "i < length ts" "pos i < length (ql_reader (ts ! i))" "length (ql_tf_parts (ts ! i)) = 256"
  shows "\<exists>q'. take_step R (qls ! i) = Some (((ql_weight (ts ! i) + ql_tf_parts (ts ! i) ! min (snd (ql_reader (ts ! i) ! pos i)) 255) mod 2 ^ 32,
        peeked (ql_reader (ts ! i)) (Suc (pos i))), q')
    \<and> lists_repr (qls[i := q']) ts (pos(i := Suc (pos i)))"
proof -
  let ?ps = "ql_reader (ts ! i)"
  have r: "repr (ql_reader (qls ! i)) ?ps (pos i)" using assms by (simp add: lists_repr_def)
  have m: "min (Suc (pos i)) (length ?ps) = Suc (pos i)" using assms(3) by simp
  obtain r1 where r1: "rd_next_step R (ql_reader (qls ! i)) = Some (Some (?ps ! pos i), r1)" "repr r1 ?ps (Suc (pos i))"
    using next_step_law [OF r] assms(3) m by auto
  obtain r2 where r2: "rd_peek R r1 = Some (peeked ?ps (Suc (pos i)), r2)" "repr r2 ?ps (Suc (pos i))"
    using peek_law [OF r1(2)] by blast
  have q: "ql_weight (qls ! i) = ql_weight (ts ! i)" "ql_tf_parts (qls ! i) = ql_tf_parts (ts ! i)"
    using assms by (simp_all add: lists_repr_def)
  have ix: "index (ql_tf_parts (ts ! i)) (min t 255) = Some (ql_tf_parts (ts ! i) ! min t 255)" for t
    using assms(4) by (simp add: index_def)
  show ?thesis using lists_repr_update [OF assms(1,2) r2(2)] r1(1) r2(1)
    by (intro exI [of _ "(qls ! i)\<lparr>ql_reader := r2\<rparr>"]) (simp add: take_step_def q ix case_prod_unfold)
qed

lemma skip_all_law:
  fixes t :: nat
  assumes "lists_repr qls ts pos" "distinct (map fst ord)" "fst ` set ord \<subseteq> {..<length ts}"
  defines "pos' \<equiv> \<lambda>i. if i \<in> fst ` set ord then adv (ql_reader (ts ! i)) (pos i) t else pos i"
  shows "\<exists>qls'. skip_all R t qls ord = Some (qls', map (\<lambda>x. (fst x, front ts pos' (fst x))) ord) \<and> lists_repr qls' ts pos'"
  using assms(1-3) unfolding pos'_def
proof (induction ord arbitrary: qls pos)
  case (Cons x ord)
  obtain i f where x: "x = (i, f)" by (cases x)
  have i: "i < length ts" "i \<notin> fst ` set ord" using Cons.prems(2,3) by (auto simp: x)
  have ix: "index qls i = Some (qls ! i)" using Cons.prems(1) i by (simp add: lists_repr_def index_def)
  let ?p = "adv (ql_reader (ts ! i)) (pos i) t" and ?P = "\<lambda>pos S j. if j \<in> S then adv (ql_reader (ts ! j)) (pos j) t else pos j"
  obtain q q' where q: "skip_to R (qls ! i) t = Some q" "frontier R q = Some (peeked (ql_reader (ts ! i)) ?p, q')"
    "lists_repr (qls[i := q']) ts (pos(i := ?p))"
    using skip_frontier_law [OF Cons.prems(1) i(1), of t] by blast
  have eq: "?P (pos(i := ?p)) (fst ` set ord) = ?P pos (fst ` set (x # ord))" using i(2) by (auto simp: x fun_eq_iff)
  from Cons.IH [OF q(3)] Cons.prems(2,3) obtain qls' where
    "skip_all R t (qls[i := q']) ord = Some (qls', map (\<lambda>x. (fst x, front ts (?P pos (fst ` set ((i, f) # ord))) (fst x))) ord)"
    "lists_repr qls' ts (?P pos (fst ` set ((i, f) # ord)))"
    unfolding eq x by auto
  then show ?case unfolding x using q(1,2) ix by (simp add: front_def)
qed simp

lemma evaluate_law:
  fixes c :: nat
  assumes "lists_repr qls ts pos" "distinct (map fst ord)" "fst ` set ord \<subseteq> {..<length ts}"
    and "\<forall>t\<in>set ts. length (ql_tf_parts t) = 256" "\<forall>x\<in>set ord. snd x = front ts pos (fst x)" "score < 2 ^ 32"
  defines "hits \<equiv> takeWhile (\<lambda>x. snd x = Some c) ord"
  defines "pos' \<equiv> \<lambda>i. if i \<in> fst ` set hits then Suc (pos i) else pos i"
  shows "\<exists>qls'. evaluate R c qls ord score = Some (qls', map (\<lambda>x. (fst x, front ts pos' (fst x))) ord,
      (score + (\<Sum>i\<leftarrow>map fst hits. ql_weight (ts ! i) + ql_tf_parts (ts ! i) ! min (snd (ql_reader (ts ! i) ! pos i)) 255)) mod 2 ^ 32)
    \<and> lists_repr qls' ts pos'"
  using assms(1-6) unfolding pos'_def hits_def
proof (induction ord arbitrary: qls pos score)
  case (Cons x ord)
  obtain i f where x: "x = (i, f)" by (cases x)
  have i: "i < length ts" "i \<notin> fst ` set ord" using Cons.prems(2,3) by (auto simp: x)
  have ix: "index qls i = Some (qls ! i)" using Cons.prems(1) i by (simp add: lists_repr_def index_def)
  let ?H = "\<lambda>ord. fst ` set (takeWhile (\<lambda>x. snd x = Some c) ord)"
  let ?P = "\<lambda>pos S j. if j \<in> S then Suc (pos j) else pos j"
  let ?c = "\<lambda>pos i. ql_weight (ts ! i) + ql_tf_parts (ts ! i) ! min (snd (ql_reader (ts ! i) ! pos i)) 255"
  show ?case
  proof (cases "f = Some c")
    case True
    then have p: "pos i < length (ql_reader (ts ! i))"
      using Cons.prems(5) by (auto simp: x front_def peeked_def split: if_splits)
    have parts: "length (ql_tf_parts (ts ! i)) = 256" using Cons.prems(4) i(1) by simp
    obtain q' where q': "take_step R (qls ! i) = Some ((?c pos i mod 2 ^ 32, peeked (ql_reader (ts ! i)) (Suc (pos i))), q')"
      "lists_repr (qls[i := q']) ts (pos(i := Suc (pos i)))"
      using take_step_law [OF Cons.prems(1) i(1) p parts] by blast
    have H: "i \<notin> ?H ord" using i(2) by (auto dest: set_takeWhileD)
    then have eq: "?P (pos(i := Suc (pos i))) (?H ord) = ?P pos (?H (x # ord))" using True by (auto simp: x fun_eq_iff)
    have cs: "map (?c (pos(i := Suc (pos i)))) (map fst (takeWhile (\<lambda>x. snd x = Some c) ord))
        = map (?c pos) (map fst (takeWhile (\<lambda>x. snd x = Some c) ord))"
      using H by (intro map_cong) auto
    have fr: "\<forall>x\<in>set ord. snd x = front ts (pos(i := Suc (pos i))) (fst x)"
      using Cons.prems(5) i(2) by (auto simp: front_def)
    from Cons.IH [OF q'(2) _ _ Cons.prems(4) fr, of "(score + ?c pos i mod 2 ^ 32) mod 2 ^ 32"] Cons.prems(2,3)
    obtain qls' where "evaluate R c (qls[i := q']) ord ((score + ?c pos i mod 2 ^ 32) mod 2 ^ 32)
        = Some (qls', map (\<lambda>y. (fst y, front ts (?P pos (?H (x # ord))) (fst y))) ord,
          ((score + ?c pos i mod 2 ^ 32) mod 2 ^ 32 + (\<Sum>i\<leftarrow>map fst (takeWhile (\<lambda>x. snd x = Some c) ord). ?c pos i)) mod 2 ^ 32)"
      "lists_repr qls' ts (?P pos (?H (x # ord)))"
      unfolding eq cs by auto
    then show ?thesis unfolding x using True q'(1) ix by (simp add: front_def mod_simps add.assoc)
  next
    case False
    have "map (\<lambda>x. (fst x, front ts pos (fst x))) ord = ord"
      using Cons.prems(5) by (intro map_idI) (auto simp: prod_eq_iff)
    with False Cons.prems(1,5,6) show ?thesis unfolding x by simp
  qed
qed simp

lemma can_qualify_law:
  assumes "lists_repr qls ts pos" "fst ` set ord \<subseteq> {..<length ts}" "\<forall>t\<in>set ts. bounds_ok t"
    and "\<forall>x\<in>set ord. snd x = front ts pos (fst x) \<and> snd x \<noteq> None" "required < 2 ^ 32" "ord = [] \<longrightarrow> acc < required"
  shows "\<exists>v. can_qualify qls required acc ord = Some v
    \<and> (\<not> v \<longrightarrow> acc + (\<Sum>x\<leftarrow>ord. ql_block_bounds (ts ! fst x) ! (the (snd x) div LOGICAL_BLOCK_SIZE)) < required)"
  using assms
proof (induction ord arbitrary: acc)
  case (Cons x ord)
  obtain i f where x: "x = (i, f)" by (cases x)
  have sub: "fst ` set ord \<subseteq> {..<length ts}" "\<forall>x\<in>set ord. snd x = front ts pos (fst x) \<and> snd x \<noteq> None"
    using Cons.prems(2,4) by auto
  from x obtain d where f: "f = Some d" "front ts pos i = Some d" using Cons.prems(4) by (cases f) auto
  have i: "i < length ts" using Cons.prems(2) by (auto simp: x)
  let ?ps = "ql_reader (ts ! i)"
  have q: "index qls i = Some (qls ! i)" "ql_block_bounds (qls ! i) = ql_block_bounds (ts ! i)"
    using Cons.prems(1) i by (simp_all add: lists_repr_def index_def)
  have "bounds_ok (ts ! i)" using Cons.prems(3) i by simp
  moreover have "pos i < length ?ps" "fst (?ps ! pos i) = d" using f(2) by (auto simp: front_def peeked_def split: if_splits)
  ultimately have b: "d div LOGICAL_BLOCK_SIZE < length (ql_block_bounds (ts ! i))"
    using nth_mem [of "pos i" ?ps] by (auto simp: bounds_ok_def case_prod_unfold)
  let ?b = "ql_block_bounds (ts ! i) ! (d div LOGICAL_BLOCK_SIZE)"
  let ?t = "min (acc + ?b) (2 ^ 32 - 1)"
  show ?case
  proof (cases "required \<le> ?t")
    case True
    then show ?thesis using q b by (intro exI [of _ True]) (simp add: x f bound_at_def index_def)
  next
    case False
    then have t: "?t = acc + ?b" using Cons.prems(5) by (auto simp: min_def split: if_splits)
    have "acc + ?b < required" using False unfolding t by simp
    then obtain v where "can_qualify qls required (acc + ?b) ord = Some v"
      "\<not> v \<longrightarrow> acc + ?b + (\<Sum>x\<leftarrow>ord. ql_block_bounds (ts ! fst x) ! (the (snd x) div LOGICAL_BLOCK_SIZE)) < required"
      using Cons.IH [OF Cons.prems(1) sub(1) Cons.prems(3) sub(2) Cons.prems(5), of "acc + ?b"] by blast
    moreover have "can_qualify qls required acc (x # ord) = can_qualify qls required (acc + ?b) ord"
      using \<open>acc + ?b < required\<close> q b t by (simp add: x f bound_at_def index_def)
    ultimately show ?thesis by (simp add: x f add.assoc)
  qed
qed auto

lemma lists_repr_sorted: "lists_repr qls ts pos \<Longrightarrow> strictly_sorted ts"
  unfolding lists_repr_def strictly_sorted_def using repr_sorted by (metis in_set_conv_nth)

lemma skip_round:
  assumes L: "lists_repr qls ts (at_mark ts b)" and ok: "ord_ok ts (at_mark ts b) ord" and "b \<le> j"
  shows "\<exists>qls' ord'. skip_all R j qls ord = Some (qls', ord') \<and> lists_repr qls' ts (at_mark ts j)
    \<and> ord_ok ts (at_mark ts j) (sort_by_cached_frontier ord')"
proof -
  note S = lists_repr_sorted [OF L]
  let ?pos = "\<lambda>i. if i \<in> fst ` set ord then adv (ql_reader (ts ! i)) (at_mark ts b i) j else at_mark ts b i"
  have o: "distinct (map fst ord)" "fst ` set ord \<subseteq> {..<length ts}" using ok by (simp_all add: ord_ok_def)
  obtain qls' where q: "skip_all R j qls ord = Some (qls', map (\<lambda>x. (fst x, front ts ?pos (fst x))) ord)" "lists_repr qls' ts ?pos"
    using skip_all_law [OF L o] by blast
  have mv: "adv (ql_reader (ts ! i)) (at_mark ts b i) j = at_mark ts j i" if "i < length ts" for i
    unfolding at_mark_def using strictly_sortedD [OF S that] assms(3) by (rule adv_from_mark)
  have none: "at_mark ts b i = at_mark ts j i \<and> front ts (at_mark ts j) i = None" if i: "i < length ts" "i \<notin> fst ` set ord" for i
  proof -
    have "front ts (at_mark ts b) i = None" using ok i by (simp add: ord_ok_def)
    then have "length (ql_reader (ts ! i)) \<le> at_mark ts b i" by (simp add: front_def peeked_def not_less split: if_splits)
    with mv [OF i(1)] \<open>front ts (at_mark ts b) i = None\<close> show ?thesis by (simp add: adv_end front_def)
  qed
  have pos: "?pos i = at_mark ts j i" if "i < length ts" for i using mv none that by simp
  have o': "map (\<lambda>x. (fst x, front ts ?pos (fst x))) ord = map (\<lambda>x. (fst x, front ts (at_mark ts j) (fst x))) ord"
    by (rule refronted [OF o(2) pos])
  have "ord_ok ts (at_mark ts j) (sort_by_cached_frontier (map (\<lambda>x. (fst x, front ts (at_mark ts j) (fst x))) ord))"
    using o none by (intro ord_ok_sort) blast+
  then show ?thesis using q(1) lists_repr_same [OF q(2) pos] unfolding o' by blast
qed

lemma evaluate_round:
  assumes L: "lists_repr qls ts (at_mark ts b)" and ok: "ord_ok ts (at_mark ts b) ord" and hd: "ord = (i0, Some c) # ord0" and Q: "query_ok ts"
  shows "\<exists>qls' ord'. evaluate R c qls ord 0 = Some (qls', ord', hit_score (doc_hit ts c))
    \<and> lists_repr qls' ts (at_mark ts (Suc c)) \<and> ord_ok ts (at_mark ts (Suc c)) (sort_by_cached_frontier ord')"
proof -
  note S = lists_repr_sorted [OF L] and C = least_candidate [OF ok [unfolded hd] lists_repr_sorted [OF L]]
  let ?m = "at_mark ts b"
  let ?g = "\<lambda>i. ql_weight (ts ! i) + ql_tf_parts (ts ! i) ! min (snd (ql_reader (ts ! i) ! ?m i)) 255"
  define hits where "hits = takeWhile (\<lambda>x. snd x = Some c) ord"
  have o: "distinct (map fst ord)" "fst ` set ord \<subseteq> {..<length ts}" "\<forall>x\<in>set ord. snd x = front ts ?m (fst x)" "sorted (map snd ord)"
    "\<forall>i<length ts. i \<notin> fst ` set ord \<longrightarrow> front ts ?m i = None"
    using ok unfolding ord_ok_def by blast+
  have parts: "\<forall>t\<in>set ts. length (ql_tf_parts t) = 256" using Q by (simp add: query_ok_def bounds_ok_def)
  have hits: "hits = filter (\<lambda>x. snd x = Some c) ord" unfolding hits_def 
  proof (rule takeWhile_filter_min [OF o(4)])
    show "\<forall>x\<in>set ord. Some c \<le> snd x" using o(4) unfolding hd by auto
  qed
  have mem: "i \<in> fst ` set hits \<longleftrightarrow> front ts ?m i = Some c" if "i < length ts" for i
  proof
    assume f: "front ts ?m i = Some c"
    have "i \<in> fst ` set ord"
    proof (rule ccontr)
      assume "i \<notin> fst ` set ord"
      with o(5) that have "front ts ?m i = None" by blast
      with f show False by simp
    qed
    then obtain x where x: "x \<in> set ord" "i = fst x" by blast
    have "snd x = Some c" using o(3) x f by metis
    with x have "x \<in> set hits" by (simp add: hits)
    with x(2) show "i \<in> fst ` set hits" by blast
  next
    assume "i \<in> fst ` set hits"
    then obtain x where x: "x \<in> set ord" "snd x = Some c" "i = fst x" unfolding hits by auto
    have "snd x = front ts ?m (fst x)" using o(3) x(1) by blast
    with x show "front ts ?m i = Some c" by simp
  qed
  let ?pos = "\<lambda>i. if i \<in> fst ` set hits then Suc (?m i) else ?m i"
  obtain qls' where q: "evaluate R c qls ord 0 = Some (qls', map (\<lambda>x. (fst x, front ts ?pos (fst x))) ord,
      (0 + (\<Sum>i\<leftarrow>map fst hits. ?g i)) mod 2 ^ 32)" "lists_repr qls' ts ?pos"
    using evaluate_law [OF L o(1,2) parts o(3), of 0 c] unfolding hits_def by auto
  have pos: "?pos i = at_mark ts (Suc c) i" if i: "i < length ts" for i
  proof -
    have "\<forall>d\<in>fst ` set (ql_reader (ts ! i)). b \<le> d \<longrightarrow> c \<le> d" using C(3) i matching_nth by blast
    from adv_past [OF strictly_sortedD [OF S i] C(2) this] show ?thesis unfolding mem [OF i] by (simp add: at_mark_def front_def)
  qed
  have dh: "distinct (map fst hits)" using o(1) unfolding hits by (rule distinct_map_filter)
  have "(\<Sum>i\<leftarrow>map fst hits. ?g i) = (\<Sum>x\<leftarrow>hits. term_contribution (ts ! fst x) c)"
  proof -
    have "?g (fst x) = term_contribution (ts ! fst x) c" if "x \<in> set hits" for x
    proof -
      have i: "fst x < length ts" using that o(2) unfolding hits by auto
      then show ?thesis using contribution_at [OF S i C(2,3)] mem [OF i] that by simp
    qed
    then show ?thesis by (simp add: o_def cong: map_cong)
  qed
  also have "\<dots> = (\<Sum>i<length ts. term_contribution (ts ! i) c)"
    using o(2) contribution_at [OF S _ C(2,3)] mem by (intro sum_terms [OF dh]) (auto simp: hits)
  finally have "(\<Sum>i\<leftarrow>map fst hits. ?g i) = hit_score (doc_hit ts c)" by (simp add: doc_hit_def sum_score)
  moreover have "hit_score (doc_hit ts c) < 2 ^ 32" using Q C(1) by (simp add: query_ok_def)
  ultimately have score: "(0 + (\<Sum>i\<leftarrow>map fst hits. ?g i)) mod 2 ^ 32 = hit_score (doc_hit ts c)" by simp
  have o': "map (\<lambda>x. (fst x, front ts ?pos (fst x))) ord = map (\<lambda>x. (fst x, front ts (at_mark ts (Suc c)) (fst x))) ord"
    by (rule refronted [OF o(2) pos])
  have "front ts (at_mark ts (Suc c)) i = None" if "i < length ts" "i \<notin> fst ` set ord" for i
  proof -
    have "front ts ?m i = None" using o(5) that by blast
    moreover from this have "?pos i = ?m i" using mem [OF that(1)] by simp
    ultimately show ?thesis using pos [OF that(1)] by (simp add: front_def)
  qed
  then have "ord_ok ts (at_mark ts (Suc c)) (sort_by_cached_frontier (map (\<lambda>x. (fst x, front ts (at_mark ts (Suc c)) (fst x))) ord))"
    using o(1,2) by (intro ord_ok_sort) blast+
  then show ?thesis using q(1) lists_repr_same [OF q(2) pos] unfolding score o' by blast
qed

lemma jump_progress:
  assumes ok: "ord_ok ts (at_mark ts b) ord" "\<exists>i ord0. ord = (i, Some c) # ord0" "strictly_sorted ts" "query_ok ts"
    and j: "\<exists>x\<in>set ord. j = next_block_start (the (snd x))"
  shows "c < j"
proof -
  obtain x where x: "x \<in> set ord" "j = next_block_start (the (snd x))" using j by blast
  have i: "fst x < length ts" "snd x = front ts (at_mark ts b) (fst x)" using ok(1) x(1) by (auto simp: ord_ok_def)
  have "Some c \<le> snd x" using ok(1,2) x(1) by (auto simp: ord_ok_def)
  then obtain f where f: "snd x = Some f" "c \<le> f" by (cases "snd x") auto
  have "f \<in> fst ` set (ql_reader (ts ! fst x))" using mark_front_Some [OF ok(3) i(1)] i(2) f(1) by simp
  then have "f + 128 < 2 ^ 32" using ok(4) i(1) by (fastforce simp: query_ok_def bounds_ok_def)
  then have "j = (f div 128 + 1) * 128" using x(2) f(1) by (simp add: next_block_start_small)
  moreover have "f < (f div 128 + 1) * 128" using dividend_less_div_times [of 128 f] by simp
  ultimately show ?thesis using f(2) by simp
qed

lemma must_skip_law:
  assumes L: "lists_repr qls ts (at_mark ts b)" and ok: "ord_ok ts (at_mark ts b) ord" "\<forall>x\<in>set ord. snd x \<noteq> None"
    and Q: "query_ok ts" and k: "0 < k" and "ord \<noteq> []"
  defines "H \<equiv> best k (doc_hit ts ` {d \<in> matching ts. d < b})"
  shows "\<exists>v. must_skip k qls ord H = Some v \<and> (v \<longrightarrow> length H = k
    \<and> (\<forall>d. b \<le> d \<and> (\<forall>x\<in>set ord. d < next_block_start (the (snd x))) \<longrightarrow> doc_hit ts d < hd H))"
proof (cases "length H = k")
  case True
  then obtain w rest where H: "H = w # rest" using k by (cases H) auto
  have "w \<in> doc_hit ts ` {d \<in> matching ts. d < b}" using set_best [of "doc_hit ts ` {d \<in> matching ts. d < b}" k] H by (auto simp: H_def)
  then obtain e where e: "w = doc_hit ts e" "e < b" by blast
  let ?r = "(hit_score w + 1) mod 2 ^ 32"
  have o: "fst ` set ord \<subseteq> {..<length ts}" "\<forall>t\<in>set ts. bounds_ok t"
    "\<forall>x\<in>set ord. snd x = front ts (at_mark ts b) (fst x) \<and> snd x \<noteq> None"
    using ok Q by (simp_all add: ord_ok_def query_ok_def)
  obtain v where v: "can_qualify qls ?r 0 ord = Some v"
    "\<not> v \<longrightarrow> 0 + (\<Sum>x\<leftarrow>ord. ql_block_bounds (ts ! fst x) ! (the (snd x) div LOGICAL_BLOCK_SIZE)) < ?r"
    using can_qualify_law [OF L o, of ?r 0] assms(6) by auto
  have "doc_hit ts d < w" if "\<not> v" "b \<le> d" "\<forall>x\<in>set ord. d < next_block_start (the (snd x))" for d
  proof -
    have "hit_score (doc_hit ts d) < ?r" using score_bound [OF ok(1) lists_repr_sorted [OF L] o(2) that(2,3)] v(2) that(1) by linarith
    also have "?r \<le> hit_score w + 1" by (rule mod_less_eq_dividend)
    finally have "hit_score (doc_hit ts d) \<le> hit_score w" by simp
    moreover have "hit_docid w < hit_docid (doc_hit ts d)" using e that(2) by (simp add: doc_hit_def)
    ultimately show ?thesis by (auto simp: less_hit_def hit_le_def)
  qed
  with v(1) True show ?thesis by (intro exI [of _ "\<not> v"]) (simp add: must_skip_def H)
next
  case False
  then show ?thesis by (intro exI [of _ False]) (simp add: must_skip_def)
qed

lemma topk_loop_law:
  assumes "lists_repr qls ts (at_mark ts b)" "ord_ok ts (at_mark ts b) ord" "query_ok ts" "0 < k"
  shows "topk_loop R k qls ord (best k (doc_hit ts ` {d \<in> matching ts. d < b})) = Some (best k (doc_hit ts ` matching ts))"
  using assms
proof (induction "card {d \<in> matching ts. b \<le> d}" arbitrary: b qls ord rule: less_induct)
  case less
  note S = lists_repr_sorted [OF less.prems(1)]
  let ?S = "\<lambda>b. doc_hit ts ` {d \<in> matching ts. d < b}" and ?c = "compact ord"
  note ok = compact_ok [OF less.prems(2)]
  have inj: "inj_on (doc_hit ts) A" for A by (auto simp: inj_on_def doc_hit_def)
  have fewer: "card {d \<in> matching ts. b' \<le> d} < card {d \<in> matching ts. b \<le> d}" if "d \<in> matching ts" "b \<le> d" "d < b'" for b' d
  proof (rule psubset_card_mono [OF _ psubsetI])
    have "d \<in> {d \<in> matching ts. b \<le> d}" "d \<notin> {d \<in> matching ts. b' \<le> d}" using that by simp_all
    then show "{d \<in> matching ts. b' \<le> d} \<noteq> {d \<in> matching ts. b \<le> d}" by blast
  qed (use that in auto)
  show ?case
  proof (cases ?c)
    case Nil
    have "\<not> b \<le> d" if "d \<in> matching ts" for d
    proof
      assume "b \<le> d"
      from that obtain i where i: "i < length ts" "d \<in> fst ` set (ql_reader (ts ! i))" by (auto simp: matching_nth)
      obtain f where "front ts (at_mark ts b) i = Some f" using mark_front_le [OF S i \<open>b \<le> d\<close>] by blast
      with ok(1) i(1) show False by (simp add: Nil ord_ok_def)
    qed
    then have "{d \<in> matching ts. d < b} = matching ts" by (auto simp: not_le)
    with Nil show ?thesis by (subst topk_loop.simps) simp
  next
    case (Cons x ord0)
    obtain i0 c where x: "x = (i0, Some c)" using ok(2) by (cases x) (auto simp: Cons)
    have ne: "?c \<noteq> []" by (simp add: Cons)
    note C = least_candidate [OF ok(1) [unfolded Cons x] S]
    have skipped: "\<exists>v. must_skip k qls ?c (best k (?S b)) = Some v \<and> (v \<longrightarrow> length (best k (?S b)) = k
        \<and> (\<forall>d. b \<le> d \<and> (\<forall>x\<in>set ?c. d < next_block_start (the (snd x))) \<longrightarrow> doc_hit ts d < hd (best k (?S b))))"
      by (rule must_skip_law [OF less.prems(1) ok less.prems(3,4) ne])
    then obtain v where v: "must_skip k qls ?c (best k (?S b)) = Some v" "v \<longrightarrow> length (best k (?S b)) = k
        \<and> (\<forall>d. b \<le> d \<and> (\<forall>x\<in>set ?c. d < next_block_start (the (snd x))) \<longrightarrow> doc_hit ts d < hd (best k (?S b)))" by blast
    show ?thesis
    proof (cases v)
      case True
      obtain j where j: "skip_jump ?c = Some j" "\<exists>x\<in>set ?c. j = next_block_start (the (snd x))"
        "\<forall>x\<in>set ?c. j \<le> next_block_start (the (snd x))"
        using skip_jump_law [OF ne ok(2)] by blast
      have cj: "c < j" by (rule jump_progress [OF ok(1) _ S less.prems(3) j(2)]) (simp add: Cons x)
      obtain qls' ord' where r: "skip_all R j qls ?c = Some (qls', ord')" "lists_repr qls' ts (at_mark ts j)"
        "ord_ok ts (at_mark ts j) (sort_by_cached_frontier ord')"
        using skip_round [OF less.prems(1) ok(1), of j] C(2) cj by auto
      have "{d \<in> matching ts. d < j} = {d \<in> matching ts. b \<le> d \<and> d < j} \<union> {d \<in> matching ts. d < b}" using C(2) cj by auto
      then have "?S j = doc_hit ts ` {d \<in> matching ts. b \<le> d \<and> d < j} \<union> ?S b" by (simp only: image_Un)
      moreover have "doc_hit ts ` {d \<in> matching ts. b \<le> d \<and> d < j} \<inter> ?S b = {}" by (auto simp: doc_hit_def)
      moreover have "\<forall>x\<in>doc_hit ts ` {d \<in> matching ts. b \<le> d \<and> d < j}. x < hd (best k (?S b))"
      proof
        fix h assume "h \<in> doc_hit ts ` {d \<in> matching ts. b \<le> d \<and> d < j}"
        then obtain d where d: "h = doc_hit ts d" "b \<le> d" "d < j" by blast
        have "\<forall>x\<in>set ?c. d < next_block_start (the (snd x))" using d(3) j(3) less_le_trans by blast
        with v(2) True d(1,2) show "h < hd (best k (?S b))" by simp
      qed
      ultimately have "best k (?S j) = best k (?S b)" using v(2) True less.prems(4) by (simp add: best_union)
      moreover have "topk_loop R k qls' (sort_by_cached_frontier ord') (best k (?S j)) = Some (best k (doc_hit ts ` matching ts))"
        using less.hyps [OF fewer [OF C(1,2) cj] r(2,3) less.prems(3,4)] .
      ultimately show ?thesis using Cons v(1) True j(1) r(1) by (subst topk_loop.simps) simp
    next
      case False
      obtain qls' ord' where r: "evaluate R c qls ((i0, Some c) # ord0) 0 = Some (qls', ord', hit_score (doc_hit ts c))"
        "lists_repr qls' ts (at_mark ts (Suc c))" "ord_ok ts (at_mark ts (Suc c)) (sort_by_cached_frontier ord')"
        using evaluate_round [OF less.prems(1) ok(1) Cons [unfolded x] less.prems(3)] unfolding Cons x by blast
      have h: "Hit (hit_score (doc_hit ts c)) c = doc_hit ts c" by (simp add: doc_hit_def)
      have "{d \<in> matching ts. d < Suc c} = insert c {d \<in> matching ts. d < b}"
        using C less_le_trans not_less by (auto simp: less_Suc_eq)
      then have "?S (Suc c) = insert (doc_hit ts c) (?S b)" by simp
      moreover have "doc_hit ts c \<notin> ?S b" using C(2) by (auto simp: doc_hit_def)
      ultimately have "heap_offer k (Hit (hit_score (doc_hit ts c)) c) (best k (?S b)) = Some (best k (?S (Suc c)))"
        unfolding h using best_offer [of "?S b" "doc_hit ts c" k] less.prems(4) by simp
      moreover have "topk_loop R k qls' (sort_by_cached_frontier ord') (best k (?S (Suc c))) = Some (best k (doc_hit ts ` matching ts))"
        using less.hyps [OF fewer [OF C(1,2), of "Suc c"] r(2,3) less.prems(3,4)] by simp
      ultimately show ?thesis using Cons x v(1) False r(1) by (subst topk_loop.simps) simp
    qed
  qed
qed

lemma init_frontiers_law:
  "lists_repr qls ts pos \<Longrightarrow>
   \<exists>qls'. init_frontiers R qls = Some (map (front ts pos) [0..<length ts], qls') \<and> lists_repr qls' ts pos"
proof (induction qls arbitrary: ts pos)
  case Nil
  then show ?case by (simp add: lists_repr_def)
next
  case (Cons q qls)
  obtain t ts' where ts: "ts = t # ts'" using Cons.prems by (cases ts) (auto simp: lists_repr_def)
  have split: "lists_repr (q # qls) (t # ts') pos \<longleftrightarrow> (repr (ql_reader q) (ql_reader t) (pos 0) \<and> ql_weight q = ql_weight t
      \<and> ql_block_bounds q = ql_block_bounds t \<and> ql_tf_parts q = ql_tf_parts t) \<and> lists_repr qls ts' (\<lambda>i. pos (Suc i))" for q qls
    by (auto simp: lists_repr_def All_less_Suc2)
  note q = Cons.prems [unfolded ts split]
  obtain r where r: "rd_peek R (ql_reader q) = Some (peeked (ql_reader t) (pos 0), r)" "repr r (ql_reader t) (pos 0)"
    using peek_law q by blast
  obtain qls' where IH: "init_frontiers R qls = Some (map (front ts' (\<lambda>i. pos (Suc i))) [0..<length ts'], qls')"
    "lists_repr qls' ts' (\<lambda>i. pos (Suc i))" using Cons.IH q by blast
  have "map (front (t # ts') pos) [0..<length (t # ts')] = peeked (ql_reader t) (pos 0) # map (front ts' (\<lambda>i. pos (Suc i))) [0..<length ts']"
    by (simp add: front_def map_upt_Suc del: upt_Suc)
  moreover have "lists_repr (q\<lparr>ql_reader := r\<rparr> # qls') (t # ts') pos" unfolding split using IH(2) q r(2) by simp
  ultimately show ?case using r(1) IH(1) unfolding ts by (simp add: frontier_def)
qed

lemma topk_disjunctive_law:
  assumes L: "lists_repr qls ts (\<lambda>_. 0)" and Q: "query_ok ts" "0 < k"
  shows "topk_disjunctive R qls k = Some (brute_force ts k)"
proof -
  have m: "at_mark ts 0 = (\<lambda>_. 0)" by (simp add: at_mark_def adv_def fun_eq_iff takeWhile_eq_Nil_iff)
  obtain qls' where i: "init_frontiers R qls = Some (map (front ts (at_mark ts 0)) [0..<length ts], qls')" "lists_repr qls' ts (at_mark ts 0)"
    using init_frontiers_law [OF L] unfolding m by blast
  let ?o = "map (\<lambda>i. (i, None)) [0..<length ts] :: order"
  have z: "zip [0..<length qls] (map (front ts (at_mark ts 0)) [0..<length ts]) = map (\<lambda>x. (fst x, front ts (at_mark ts 0) (fst x))) ?o"
    using L by (simp add: lists_repr_def zip_map2 zip_same_conv_map)
  have "ord_ok ts (at_mark ts 0) (sort_by_cached_frontier (map (\<lambda>x. (fst x, front ts (at_mark ts 0) (fst x))) ?o))"
    by (rule ord_ok_sort) (auto simp: o_def image_image)
  from topk_loop_law [OF i(2) this Q] show ?thesis
    unfolding topk_disjunctive_def i(1) bind.simps prod.case z brute_force_def by (simp add: best_def [of k "{}"] brute_force_best)
qed

end

lemma next_block_start_wraps: "2 ^ 32 - 128 \<le> d \<Longrightarrow> d < 2 ^ 32 \<Longrightarrow> next_block_start d = 0"
proof -
  assume "2 ^ 32 - 128 \<le> d" "d < 2 ^ 32"
  then have "d div 128 = 33554431" by (intro div_nat_eqI) simp_all
  then show ?thesis by (simp add: next_block_start_def LOGICAL_BLOCK_SIZE_def)
qed

lemma block_max_total: "block_max_new n values = Some t \<Longrightarrow> i < n \<Longrightarrow> block_max t (i div LOGICAL_BLOCK_SIZE) \<noteq> None"
  using div_ceil_less_mult [of LOGICAL_BLOCK_SIZE "i div LOGICAL_BLOCK_SIZE" n]
  by (auto simp: block_max_new_def block_max_def logical_block_count_def index_def LOGICAL_BLOCK_SIZE_def guard_def split: if_splits)

section \<open>Properties\<close>

text \<open>A query list over the frequency codec, encoded from its postings.\<close>

definition open_query :: "postings query_list \<Rightarrow> delta_reader query_list option" where
  "open_query t = do {
     buf \<leftarrow> encode_freq_varint (map fst (ql_reader t)) (map snd (ql_reader t));
     r \<leftarrow> freq_new buf;
     Some \<lparr>ql_reader = r, ql_weight = ql_weight t, ql_block_bounds = ql_block_bounds t, ql_tf_parts = ql_tf_parts t\<rparr> }"

definition capped_term :: "postings query_list \<Rightarrow> postings query_list" where
  "capped_term t = t\<lparr>ql_reader := capped (ql_reader t)\<rparr>"

lemma capped_contribution: "term_contribution (capped_term t) d = term_contribution t d"
proof -
  have "map_of (capped ps) d = map_option (\<lambda>tf. min tf 255) (map_of ps d)" for ps :: postings
    unfolding capped_def by (induction ps) auto
  then show ?thesis by (simp add: term_contribution_def capped_term_def option.case_eq_if option.map_sel)
qed

lemma capped_spec:
  "doc_hit (map capped_term ts) = doc_hit ts" "matching (map capped_term ts) = matching ts"
  "query_ok (map capped_term ts) = query_ok ts" "brute_force (map capped_term ts) k = brute_force ts k"
proof -
  show h: "doc_hit (map capped_term ts) = doc_hit ts"
    by (simp add: doc_hit_def fun_eq_iff o_def capped_contribution)
  have "fst ` set (capped ps) = fst ` set ps" for ps by (metis capped_simps(2) set_map)
  then show m: "matching (map capped_term ts) = matching ts" by (simp add: matching_def capped_term_def)
  have "bounds_ok (capped_term t) = bounds_ok t" for t
    by (simp add: bounds_ok_def capped_term_def capped_def case_prod_unfold)
  then show "query_ok (map capped_term ts) = query_ok ts" by (simp add: query_ok_def h m)
  show "brute_force (map capped_term ts) k = brute_force ts k" by (simp add: brute_force_def h m)
qed

lemma open_query_repr:
  assumes "assert_strictly_increasing (map fst (ql_reader t))" "length (ql_reader t) \<le> 2 ^ 26" "bounds_ok t"
  shows "\<exists>r. open_query t = Some \<lparr>ql_reader = r, ql_weight = ql_weight t, ql_block_bounds = ql_block_bounds t, ql_tf_parts = ql_tf_parts t\<rparr>
    \<and> freq_repr r (capped (ql_reader t)) 0"
proof -
  let ?d = "map fst (ql_reader t)" and ?f = "map snd (ql_reader t)"
  have b: "\<forall>d\<in>set ?d. d < 2 ^ 32" using assms(3) by (fastforce simp: bounds_ok_def)
  have d: "?d \<noteq> []" "sorted_wrt (<) ?d" "length ?d < 2 ^ 32" "length ?f = length ?d"
    using assms sorted_iff_assert [of ?d] by auto
  note E = freq_encode_new [OF d(1,2) b d(3,4)]
  have "length (delta_buffer freq_tail True (zip ?d ?f)) < 2 ^ 32" using freq_size [OF b d(4)] assms(2) by simp
  then show ?thesis using E by (auto simp: open_query_def zip_map_fst_snd)
qed

text \<open>
  C3. The block-max driver returns exactly the exhaustive answer: for any number of query lists encoded
  with the frequency codec (up to \<open>2 ^ 26\<close> postings each, docids outside the last block of the docid
  space), per-block bounds that no posting of the block exceeds, document scores below \<open>2 ^ 32\<close> and
  \<open>k \<ge> 1\<close>, it terminates without a panic and returns the best \<open>k\<close> matching documents, score
  descending and docid ascending, however many rounds it skipped.
\<close>

theorem topk_is_exhaustive:
  assumes "\<forall>t\<in>set ts. assert_strictly_increasing (map fst (ql_reader t)) \<and> length (ql_reader t) \<le> 2 ^ 26"
    and "query_ok ts" "0 < k"
  shows "\<exists>qls. those (map open_query ts) = Some qls \<and> topk_disjunctive freq_ops qls k = Some (brute_force ts k)"
proof -
  have "\<exists>r. open_query t = Some \<lparr>ql_reader = r, ql_weight = ql_weight t, ql_block_bounds = ql_block_bounds t, ql_tf_parts = ql_tf_parts t\<rparr>
      \<and> freq_repr r (capped (ql_reader t)) 0" if "t \<in> set ts" for t
    using assms that by (intro open_query_repr) (auto simp: query_ok_def)
  then obtain rd where rd: "\<And>t. t \<in> set ts \<Longrightarrow>
      open_query t = Some \<lparr>ql_reader = rd t, ql_weight = ql_weight t, ql_block_bounds = ql_block_bounds t, ql_tf_parts = ql_tf_parts t\<rparr>
      \<and> freq_repr (rd t) (capped (ql_reader t)) 0" by metis
  let ?q = "\<lambda>t. \<lparr>ql_reader = rd t, ql_weight = ql_weight t, ql_block_bounds = ql_block_bounds t, ql_tf_parts = ql_tf_parts t\<rparr>"
  have "those (map open_query ts) = Some (map ?q ts)" using rd by (intro those_map_Some) simp
  moreover have "freq.lists_repr (map ?q ts) (map capped_term ts) (\<lambda>_. 0)"
    using rd by (simp add: freq.lists_repr_def capped_term_def)
  from freq.topk_disjunctive_law [OF this _ assms(3)] assms(2)
  have "topk_disjunctive freq_ops (map ?q ts) k = Some (brute_force ts k)" by (simp add: capped_spec)
  ultimately show ?thesis by blast
qed

text \<open>C3 applied to two lists in two blocks where the second block cannot improve on the best hit.\<close>

theorem topk_is_exhaustive_witness:
  "\<exists>qls. those (map open_query [\<lparr>ql_reader = [(1, 2), (200, 1)], ql_weight = 3, ql_block_bounds = [9, 4], ql_tf_parts = replicate 256 1\<rparr>,
        \<lparr>ql_reader = [(1, 1)], ql_weight = 2, ql_block_bounds = [5], ql_tf_parts = replicate 256 1\<rparr>]) = Some qls
    \<and> topk_disjunctive freq_ops qls 1 = Some (brute_force
        [\<lparr>ql_reader = [(1, 2), (200, 1)], ql_weight = 3, ql_block_bounds = [9, 4], ql_tf_parts = replicate 256 1\<rparr>,
         \<lparr>ql_reader = [(1, 1)], ql_weight = 2, ql_block_bounds = [5], ql_tf_parts = replicate 256 1\<rparr>] 1)"
  (is "\<exists>qls. those (map open_query ?ts) = Some qls \<and> topk_disjunctive freq_ops qls 1 = Some (brute_force ?ts 1)")
proof -
  have "\<forall>t\<in>set ?ts. assert_strictly_increasing (map fst (ql_reader t)) \<and> length (ql_reader t) \<le> 2 ^ 26"
    by (simp add: assert_strictly_increasing_def)
  moreover have "query_ok ?ts"
    by (simp add: query_ok_def bounds_ok_def LOGICAL_BLOCK_SIZE_def matching_def doc_hit_def term_contribution_def)
  ultimately show ?thesis using topk_is_exhaustive [of ?ts 1] by simp
qed

end
