(* ===== verification/Stable_Memory.thy ===== *)
theory Stable_Memory
  imports Prelude
begin

text \<open>
  The \<open>Memory\<close> trait of the \<open>ic-stable-structures\<close> package, through which every stable structure of
  the repository reaches stable memory: a record of operations, and its documented behaviour as a
  locale over the byte contents of the memory. \<open>page_memory\<close> is a memory held as a byte list, and
  instantiates the contract; the virtual memories of \<open>Memory_Manager\<close> instantiate it as well.
\<close>

section \<open>The trait\<close>

record 'm memory_ops =
  mem_size :: "'m \<Rightarrow> nat"
  mem_grow :: "'m \<Rightarrow> nat \<Rightarrow> int \<times> 'm"
  mem_read :: "'m \<Rightarrow> nat \<Rightarrow> nat \<Rightarrow> bytes option"
  mem_write :: "'m \<Rightarrow> nat \<Rightarrow> bytes \<Rightarrow> 'm option"

definition WASM_PAGE_SIZE :: nat where
  "WASM_PAGE_SIZE = 65536"

definition overwrite :: "'a list \<Rightarrow> nat \<Rightarrow> 'a list \<Rightarrow> 'a list" where
  "overwrite xs a b = take a xs @ b @ drop (a + length b) xs"

definition window :: "'a list \<Rightarrow> nat \<Rightarrow> nat \<Rightarrow> 'a list" where
  "window xs a n = take n (drop a xs)"

lemma length_overwrite [simp]: "a + length b \<le> length xs \<Longrightarrow> length (overwrite xs a b) = length xs"
  by (simp add: overwrite_def)

lemma length_window [simp]: "a + n \<le> length xs \<Longrightarrow> length (window xs a n) = n"
  by (simp add: window_def)

lemma nth_overwrite:
  "a + length b \<le> length xs \<Longrightarrow> i < length xs \<Longrightarrow>
   overwrite xs a b ! i = (if a \<le> i \<and> i < a + length b then b ! (i - a) else xs ! i)"
  by (auto simp: overwrite_def nth_append min_def)

lemma nth_window: "a + n \<le> length xs \<Longrightarrow> i < n \<Longrightarrow> window xs a n ! i = xs ! (a + i)"
  by (simp add: window_def)

lemma window_eqI:
  "a + n \<le> length xs \<Longrightarrow> a + n \<le> length ys \<Longrightarrow> (\<And>i. a \<le> i \<Longrightarrow> i < a + n \<Longrightarrow> xs ! i = ys ! i) \<Longrightarrow> window xs a n = window ys a n"
  by (rule nth_equalityI) (simp_all add: nth_window)

lemma window_overwrite_same: "a + length b \<le> length xs \<Longrightarrow> window (overwrite xs a b) a (length b) = b"
  by (simp add: window_def overwrite_def)

lemma window_overwrite_disjoint:
  "a + length b \<le> length xs \<Longrightarrow> c + n \<le> length xs \<Longrightarrow> c + n \<le> a \<or> a + length b \<le> c \<Longrightarrow>
   window (overwrite xs a b) c n = window xs c n"
  by (rule window_eqI) (auto simp: nth_overwrite)

lemma window_append: "a + n \<le> length xs \<Longrightarrow> window (xs @ ys) a n = window xs a n"
  by (simp add: window_def)

lemma window_window: "b + m \<le> n \<Longrightarrow> a + n \<le> length xs \<Longrightarrow> window (window xs a n) b m = window xs (a + b) m"
  by (rule nth_equalityI) (simp_all add: nth_window add.assoc)

lemma window_all [simp]: "window xs 0 (length xs) = xs"
  by (simp add: window_def)

lemma overwrite_window_inner:
  "a + n \<le> length xs \<Longrightarrow> a \<le> c \<Longrightarrow> c + length b \<le> a + n \<Longrightarrow>
   window (overwrite xs c b) a n = overwrite (window xs a n) (c - a) b"
  by (rule nth_equalityI) (auto simp: nth_window nth_overwrite add.commute)

text \<open>
  What the trait documents: the contents are whole pages, far fewer than 2^63 bytes, a read in
  bounds returns the bytes there, a write in bounds replaces exactly those bytes, and \<open>grow\<close> either
  returns \<open>-1\<close> and changes nothing or returns the old size and appends zero pages.
\<close>

locale stable_memory =
  fixes M :: "'m memory_ops" and ok :: "'m \<Rightarrow> bool" and contents :: "'m \<Rightarrow> bytes"
  assumes size_law: "ok m \<Longrightarrow> length (contents m) = mem_size M m * 65536"
    and size_bound: "ok m \<Longrightarrow> length (contents m) < 2 ^ 63"
    and read_law: "ok m \<Longrightarrow> a + n \<le> length (contents m) \<Longrightarrow> mem_read M m a n = Some (window (contents m) a n)"
    and write_law: "ok m \<Longrightarrow> a + length b \<le> length (contents m) \<Longrightarrow>
      \<exists>m'. mem_write M m a b = Some m' \<and> ok m' \<and> contents m' = overwrite (contents m) a b"
    and grow_law: "ok m \<Longrightarrow> mem_grow M m n = (-1, m)
      \<or> (\<exists>m'. mem_grow M m n = (int (mem_size M m), m') \<and> ok m' \<and> contents m' = contents m @ replicate (n * 65536) 0)"

section \<open>A memory held as a byte list\<close>

definition PAGE_LIMIT :: nat where
  "PAGE_LIMIT = 2 ^ 46"

definition page_memory :: "bytes memory_ops" where
  "page_memory = \<lparr>
     mem_size = (\<lambda>m. length m div 65536),
     mem_grow = (\<lambda>m n. if length m div 65536 + n \<le> PAGE_LIMIT
       then (int (length m div 65536), m @ replicate (n * 65536) 0) else (-1, m)),
     mem_read = (\<lambda>m a n. if a + n \<le> length m then Some (window m a n) else None),
     mem_write = (\<lambda>m a b. if a + length b \<le> length m then Some (overwrite m a b) else None)\<rparr>"

definition page_ok :: "bytes \<Rightarrow> bool" where
  "page_ok m \<longleftrightarrow> 65536 dvd length m \<and> length m div 65536 \<le> PAGE_LIMIT"

interpretation page: stable_memory page_memory page_ok "\<lambda>m. m"
proof
  fix m :: bytes and n :: nat
  assume ok: "page_ok m"
  then show "length m = mem_size page_memory m * 65536" by (simp add: page_memory_def page_ok_def)
  have "length m = length m div 65536 * 65536" using ok by (simp add: page_ok_def)
  also have "\<dots> \<le> 2 ^ 46 * 65536" using ok unfolding page_ok_def PAGE_LIMIT_def by (intro mult_le_mono1) simp
  finally show "length m < 2 ^ 63" by simp
  show "mem_grow page_memory m n = (-1, m) \<or> (\<exists>m'. mem_grow page_memory m n = (int (mem_size page_memory m), m')
      \<and> page_ok m' \<and> m' = m @ replicate (n * 65536) 0)"
    using ok by (auto simp: page_memory_def page_ok_def)
qed (auto simp: page_memory_def page_ok_def)

end
