(* ===== verification/Vec_Deque.thy ===== *)
theory Vec_Deque
  imports Stable_Memory
begin

text \<open>
  The stable deque of \<open>ic-stable-vec-deque\<close>: a segmented block ring in stable memory, reached through
  a directory of block addresses, with a free list threaded through retired blocks. Every operation
  takes the memory and returns it; a panic is \<^term>\<open>None\<close> and an error is a left value. This theory
  holds the model; \<open>Deque_Invariant\<close> and \<open>Deque_Properties\<close> hold its correctness.
\<close>

section \<open>Element types\<close>

text \<open>
  The \<open>Storable\<close> trait of \<open>ic-stable-structures\<close> for a bounded type, and what it documents: decoding
  inverts encoding and the declared bound is kept.
\<close>

record 'a storable =
  st_to_bytes :: "'a \<Rightarrow> bytes"
  st_from_bytes :: "bytes \<Rightarrow> 'a option"
  st_max_size :: nat
  st_fixed :: bool

definition to_bytes_checked :: "'a storable \<Rightarrow> 'a \<Rightarrow> bytes option" where
  "to_bytes_checked S x = (let b = st_to_bytes S x in
     if (if st_fixed S then length b = st_max_size S else length b \<le> st_max_size S) then Some b else None)"

definition bytes_to_store_size :: "nat \<Rightarrow> nat" where
  "bytes_to_store_size n = (if n \<le> 255 then 1 else if n \<le> 65535 then 2 else 4)"

definition bytes_to_store_size_bounded :: "'a storable \<Rightarrow> nat" where
  "bytes_to_store_size_bounded S = (if st_fixed S then 0 else bytes_to_store_size (st_max_size S))"

definition slot_size :: "'a storable \<Rightarrow> nat" where
  "slot_size S = (st_max_size S + bytes_to_store_size_bounded S) mod 2 ^ 32"

section \<open>Memory helpers\<close>

record grow_failed =
  gf_current_size :: nat
  gf_delta :: nat

text \<open>The \<open>?\<close> operator over an operation that returns the memory and a result.\<close>

definition and_then :: "('m \<times> ('e + 'a)) option \<Rightarrow> ('m \<Rightarrow> 'a \<Rightarrow> ('m \<times> ('e + 'b)) option) \<Rightarrow> ('m \<times> ('e + 'b)) option" where
  "and_then p f = (case p of None \<Rightarrow> None | Some (m, Inl e) \<Rightarrow> Some (m, Inl e) | Some (m, Inr x) \<Rightarrow> f m x)"

definition mem_read_u32 :: "'m memory_ops \<Rightarrow> 'm \<Rightarrow> nat \<Rightarrow> nat option" where
  "mem_read_u32 M m a = map_option from_le (mem_read M m a 4)"

definition mem_read_u64 :: "'m memory_ops \<Rightarrow> 'm \<Rightarrow> nat \<Rightarrow> nat option" where
  "mem_read_u64 M m a = map_option from_le (mem_read M m a 8)"

definition alloc_at_end :: "'m memory_ops \<Rightarrow> 'm \<Rightarrow> nat \<Rightarrow> ('m \<times> (grow_failed + nat)) option" where
  "alloc_at_end M m bytes = do {
     let size_pages = mem_size M m;
     base \<leftarrow> checked_mul64 size_pages WASM_PAGE_SIZE;
     let diff_pages = div_ceil bytes WASM_PAGE_SIZE;
     case mem_grow M m diff_pages of (r, m') \<Rightarrow>
       if r = -1 then Some (m', Inl \<lparr>gf_current_size = size_pages, gf_delta = diff_pages\<rparr>)
       else Some (m', Inr base) }"

definition safe_write :: "'m memory_ops \<Rightarrow> 'm \<Rightarrow> nat \<Rightarrow> bytes \<Rightarrow> ('m \<times> (grow_failed + unit)) option" where
  "safe_write M m offset bytes = do {
     last_byte \<leftarrow> checked_add64 offset (length bytes);
     let size_pages = mem_size M m;
     size_bytes \<leftarrow> checked_mul64 size_pages WASM_PAGE_SIZE;
     if size_bytes < last_byte then do {
       d \<leftarrow> checked_add64 (last_byte - size_bytes) (WASM_PAGE_SIZE - 1);
       let diff_pages = d div WASM_PAGE_SIZE;
       case mem_grow M m diff_pages of (r, m') \<Rightarrow>
         if r = -1 then Some (m', Inl \<lparr>gf_current_size = size_pages, gf_delta = diff_pages\<rparr>)
         else do { m'' \<leftarrow> mem_write M m' offset bytes; Some (m'', Inr ()) } }
     else do { m' \<leftarrow> mem_write M m offset bytes; Some (m', Inr ()) } }"

definition write_or_panic :: "'m memory_ops \<Rightarrow> 'm \<Rightarrow> nat \<Rightarrow> bytes \<Rightarrow> 'm option" where
  "write_or_panic M m offset bytes = (case safe_write M m offset bytes of
     Some (m', Inr _) \<Rightarrow> Some m' | _ \<Rightarrow> None)"

definition mem_write_u32 :: "'m memory_ops \<Rightarrow> 'm \<Rightarrow> nat \<Rightarrow> nat \<Rightarrow> 'm option" where
  "mem_write_u32 M m a v = write_or_panic M m a (to_le 4 v)"

definition mem_write_u64 :: "'m memory_ops \<Rightarrow> 'm \<Rightarrow> nat \<Rightarrow> nat \<Rightarrow> 'm option" where
  "mem_write_u64 M m a v = write_or_panic M m a (to_le 8 v)"

section \<open>Slots\<close>

definition write_entry_size :: "'m memory_ops \<Rightarrow> 'a storable \<Rightarrow> 'm \<Rightarrow> nat \<Rightarrow> nat \<Rightarrow> ('m \<times> (grow_failed + nat)) option" where
  "write_entry_size M S m offset sz =
     (if st_fixed S then Some (m, Inr offset)
      else if st_max_size S \<le> 255 then
        and_then (safe_write M m offset (to_le 1 sz)) (\<lambda>m' _. Some (m', Inr (add64 offset 1)))
      else if st_max_size S \<le> 65535 then
        and_then (safe_write M m offset (to_le 2 sz)) (\<lambda>m' _. Some (m', Inr (add64 offset 2)))
      else
        and_then (safe_write M m offset (to_le 4 sz)) (\<lambda>m' _. Some (m', Inr (add64 offset 4))))"

definition read_entry_size :: "'m memory_ops \<Rightarrow> 'a storable \<Rightarrow> 'm \<Rightarrow> nat \<Rightarrow> (nat \<times> nat) option" where
  "read_entry_size M S m offset =
     (if st_fixed S then Some (offset, st_max_size S)
      else if st_max_size S \<le> 255 then map_option (\<lambda>b. (add64 offset 1, from_le b)) (mem_read M m offset 1)
      else if st_max_size S \<le> 65535 then map_option (\<lambda>b. (add64 offset 2, from_le b)) (mem_read M m offset 2)
      else map_option (\<lambda>n. (add64 offset 4, n)) (mem_read_u32 M m offset))"

definition read_entry_to :: "'m memory_ops \<Rightarrow> 'a storable \<Rightarrow> 'm \<Rightarrow> nat \<Rightarrow> bytes option" where
  "read_entry_to M S m slot_start = do {
     (data_offset, data_size) \<leftarrow> read_entry_size M S m slot_start;
     mem_read M m data_offset data_size }"

definition read_slot :: "'m memory_ops \<Rightarrow> 'a storable \<Rightarrow> 'm \<Rightarrow> nat \<Rightarrow> 'a option" where
  "read_slot M S m slot_start = do { b \<leftarrow> read_entry_to M S m slot_start; st_from_bytes S b }"

definition write_slot :: "'m memory_ops \<Rightarrow> 'a storable \<Rightarrow> 'm \<Rightarrow> nat \<Rightarrow> 'a \<Rightarrow> ('m \<times> (grow_failed + unit)) option" where
  "write_slot M S m slot_start item = do {
     bytes \<leftarrow> to_bytes_checked S item;
     and_then (write_entry_size M S m slot_start (length bytes)) (\<lambda>m' data_offset. safe_write M m' data_offset bytes) }"

section \<open>Header\<close>

definition SVD_MAGIC :: bytes where
  "SVD_MAGIC = [83, 86, 68]"

definition SVD_LAYOUT_VERSION :: u8 where
  "SVD_LAYOUT_VERSION = 1"

definition DATA_OFFSET :: nat where
  "DATA_OFFSET = 128"

definition TARGET_BLOCK_BYTES :: nat where
  "TARGET_BLOCK_BYTES = 256 * 1024"

definition INITIAL_DIR_SLOTS :: nat where
  "INITIAL_DIR_SLOTS = 16"

definition FREE_LIST_NIL :: nat where
  "FREE_LIST_NIL = u64_max"

definition LEN_OFFSET :: nat where
  "LEN_OFFSET = 4"

definition MAX_SIZE_OFFSET :: nat where
  "MAX_SIZE_OFFSET = 12"

definition IS_FIXED_SIZE_OFFSET :: nat where
  "IS_FIXED_SIZE_OFFSET = 16"

definition HEAD_OFF_OFFSET :: nat where
  "HEAD_OFF_OFFSET = 17"

definition VIRT_CAP_OFFSET :: nat where
  "VIRT_CAP_OFFSET = 25"

definition DIR_BASE_OFFSET :: nat where
  "DIR_BASE_OFFSET = 33"

definition DIR_SLOTS_OFFSET :: nat where
  "DIR_SLOTS_OFFSET = 41"

definition NUM_BLOCKS_OFFSET :: nat where
  "NUM_BLOCKS_OFFSET = 49"

definition BLOCK_SLOTS_OFFSET :: nat where
  "BLOCK_SLOTS_OFFSET = 57"

definition FREE_HEAD_OFFSET :: nat where
  "FREE_HEAD_OFFSET = 65"

lemmas svd_offsets = DATA_OFFSET_def LEN_OFFSET_def MAX_SIZE_OFFSET_def IS_FIXED_SIZE_OFFSET_def HEAD_OFF_OFFSET_def
  VIRT_CAP_OFFSET_def DIR_BASE_OFFSET_def DIR_SLOTS_OFFSET_def NUM_BLOCKS_OFFSET_def BLOCK_SLOTS_OFFSET_def FREE_HEAD_OFFSET_def

text \<open>A slot of size zero divides by zero and panics.\<close>

definition block_slots_for :: "nat \<Rightarrow> nat option" where
  "block_slots_for sz = (if sz = 0 then None else Some (max (TARGET_BLOCK_BYTES div sz) 1))"

record header_v1 =
  h_magic :: bytes
  h_version :: u8
  h_len :: nat
  h_max_size :: nat
  h_is_fixed_size :: bool
  h_head_off :: nat
  h_virt_cap :: nat
  h_dir_base :: nat
  h_dir_slots :: nat
  h_num_blocks :: nat
  h_block_slots :: nat
  h_free_head :: nat

definition write_deque_header :: "'m memory_ops \<Rightarrow> 'm \<Rightarrow> header_v1 \<Rightarrow> ('m \<times> (grow_failed + unit)) option" where
  "write_deque_header M m h = and_then (safe_write M m 0 (h_magic h)) (\<lambda>m _. do {
     m \<leftarrow> mem_write M m 3 [h_version h];
     m \<leftarrow> mem_write_u64 M m LEN_OFFSET (h_len h);
     m \<leftarrow> mem_write_u32 M m MAX_SIZE_OFFSET (h_max_size h);
     m \<leftarrow> mem_write M m IS_FIXED_SIZE_OFFSET [if h_is_fixed_size h then 1 else 0];
     m \<leftarrow> mem_write_u64 M m HEAD_OFF_OFFSET (h_head_off h);
     m \<leftarrow> mem_write_u64 M m VIRT_CAP_OFFSET (h_virt_cap h);
     m \<leftarrow> mem_write_u64 M m DIR_BASE_OFFSET (h_dir_base h);
     m \<leftarrow> mem_write_u64 M m DIR_SLOTS_OFFSET (h_dir_slots h);
     m \<leftarrow> mem_write_u64 M m NUM_BLOCKS_OFFSET (h_num_blocks h);
     m \<leftarrow> mem_write_u64 M m BLOCK_SLOTS_OFFSET (h_block_slots h);
     m \<leftarrow> mem_write_u64 M m FREE_HEAD_OFFSET (h_free_head h);
     Some (m, Inr ()) })"

definition read_deque_header :: "'m memory_ops \<Rightarrow> 'm \<Rightarrow> header_v1 option" where
  "read_deque_header M m = do {
     magic \<leftarrow> mem_read M m 0 3;
     version \<leftarrow> mem_read M m 3 1;
     len \<leftarrow> mem_read_u64 M m LEN_OFFSET;
     max_size \<leftarrow> mem_read_u32 M m MAX_SIZE_OFFSET;
     is_fixed_size \<leftarrow> mem_read M m IS_FIXED_SIZE_OFFSET 1;
     head_off \<leftarrow> mem_read_u64 M m HEAD_OFF_OFFSET;
     virt_cap \<leftarrow> mem_read_u64 M m VIRT_CAP_OFFSET;
     dir_base \<leftarrow> mem_read_u64 M m DIR_BASE_OFFSET;
     dir_slots \<leftarrow> mem_read_u64 M m DIR_SLOTS_OFFSET;
     num_blocks \<leftarrow> mem_read_u64 M m NUM_BLOCKS_OFFSET;
     block_slots \<leftarrow> mem_read_u64 M m BLOCK_SLOTS_OFFSET;
     free_head \<leftarrow> mem_read_u64 M m FREE_HEAD_OFFSET;
     v \<leftarrow> index version 0;
     f \<leftarrow> index is_fixed_size 0;
     Some \<lparr>h_magic = magic, h_version = v, h_len = len, h_max_size = max_size, h_is_fixed_size = (f \<noteq> 0),
       h_head_off = head_off, h_virt_cap = virt_cap, h_dir_base = dir_base, h_dir_slots = dir_slots,
       h_num_blocks = num_blocks, h_block_slots = block_slots, h_free_head = free_head\<rparr> }"

definition deque_len :: "'m memory_ops \<Rightarrow> 'm \<Rightarrow> nat option" where
  "deque_len M m = mem_read_u64 M m LEN_OFFSET"

definition deque_is_empty :: "'m memory_ops \<Rightarrow> 'm \<Rightarrow> bool option" where
  "deque_is_empty M m = map_option (\<lambda>n. n = 0) (deque_len M m)"

definition head_off :: "'m memory_ops \<Rightarrow> 'm \<Rightarrow> nat option" where
  "head_off M m = mem_read_u64 M m HEAD_OFF_OFFSET"

definition virt_cap :: "'m memory_ops \<Rightarrow> 'm \<Rightarrow> nat option" where
  "virt_cap M m = mem_read_u64 M m VIRT_CAP_OFFSET"

definition dir_base :: "'m memory_ops \<Rightarrow> 'm \<Rightarrow> nat option" where
  "dir_base M m = mem_read_u64 M m DIR_BASE_OFFSET"

definition dir_slots :: "'m memory_ops \<Rightarrow> 'm \<Rightarrow> nat option" where
  "dir_slots M m = mem_read_u64 M m DIR_SLOTS_OFFSET"

definition num_blocks :: "'m memory_ops \<Rightarrow> 'm \<Rightarrow> nat option" where
  "num_blocks M m = mem_read_u64 M m NUM_BLOCKS_OFFSET"

definition block_slots :: "'m memory_ops \<Rightarrow> 'm \<Rightarrow> nat option" where
  "block_slots M m = mem_read_u64 M m BLOCK_SLOTS_OFFSET"

definition free_head :: "'m memory_ops \<Rightarrow> 'm \<Rightarrow> nat option" where
  "free_head M m = mem_read_u64 M m FREE_HEAD_OFFSET"

definition set_len :: "'m memory_ops \<Rightarrow> 'm \<Rightarrow> nat \<Rightarrow> 'm option" where
  "set_len M m v = mem_write_u64 M m LEN_OFFSET v"

definition set_head_off :: "'m memory_ops \<Rightarrow> 'm \<Rightarrow> nat \<Rightarrow> 'm option" where
  "set_head_off M m v = mem_write_u64 M m HEAD_OFF_OFFSET v"

definition set_virt_cap :: "'m memory_ops \<Rightarrow> 'm \<Rightarrow> nat \<Rightarrow> 'm option" where
  "set_virt_cap M m v = mem_write_u64 M m VIRT_CAP_OFFSET v"

definition set_dir_base :: "'m memory_ops \<Rightarrow> 'm \<Rightarrow> nat \<Rightarrow> 'm option" where
  "set_dir_base M m v = mem_write_u64 M m DIR_BASE_OFFSET v"

definition set_dir_slots :: "'m memory_ops \<Rightarrow> 'm \<Rightarrow> nat \<Rightarrow> 'm option" where
  "set_dir_slots M m v = mem_write_u64 M m DIR_SLOTS_OFFSET v"

definition set_num_blocks :: "'m memory_ops \<Rightarrow> 'm \<Rightarrow> nat \<Rightarrow> 'm option" where
  "set_num_blocks M m v = mem_write_u64 M m NUM_BLOCKS_OFFSET v"

definition set_free_head :: "'m memory_ops \<Rightarrow> 'm \<Rightarrow> nat \<Rightarrow> 'm option" where
  "set_free_head M m v = mem_write_u64 M m FREE_HEAD_OFFSET v"

section \<open>Routing\<close>

definition dir_entry_addr :: "'m memory_ops \<Rightarrow> 'm \<Rightarrow> nat \<Rightarrow> nat option" where
  "dir_entry_addr M m k = map_option (\<lambda>b. add64 b (mul64 k 8)) (dir_base M m)"

definition block_base :: "'m memory_ops \<Rightarrow> 'm \<Rightarrow> nat \<Rightarrow> nat option" where
  "block_base M m k = do { a \<leftarrow> dir_entry_addr M m k; mem_read_u64 M m a }"

definition write_dir_entry :: "'m memory_ops \<Rightarrow> 'm \<Rightarrow> nat \<Rightarrow> nat \<Rightarrow> 'm option" where
  "write_dir_entry M m k base = do { a \<leftarrow> dir_entry_addr M m k; mem_write_u64 M m a base }"

definition slot_addr :: "'m memory_ops \<Rightarrow> 'a storable \<Rightarrow> 'm \<Rightarrow> nat \<Rightarrow> nat option" where
  "slot_addr M S m virtual_pos = do {
     bs \<leftarrow> block_slots M m;
     guard (bs \<noteq> 0);
     b \<leftarrow> block_base M m (virtual_pos div bs);
     Some (add64 b (mul64 (virtual_pos mod bs) (slot_size S))) }"

definition virtual_index :: "'m memory_ops \<Rightarrow> 'm \<Rightarrow> nat \<Rightarrow> nat option" where
  "virtual_index M m logical = do {
     h \<leftarrow> head_off M m;
     c \<leftarrow> virt_cap M m;
     guard (c \<noteq> 0);
     Some (add64 h logical mod c) }"

section \<open>Growth and retirement\<close>

text \<open>The loop of \<open>rotate_directory\<close>, from entry \<open>k\<close> with \<open>n\<close> entries left.\<close>

fun rotate_loop :: "nat \<Rightarrow> nat \<Rightarrow> bytes \<Rightarrow> nat \<Rightarrow> nat \<Rightarrow> bytes \<Rightarrow> bytes" where
  "rotate_loop num rotate_by buf k 0 rotated = rotated"
| "rotate_loop num rotate_by buf k (Suc n) rotated =
     rotate_loop num rotate_by buf (Suc k) n (overwrite rotated (k * 8) (window buf (add64 k rotate_by mod num * 8) 8))"

definition rotate_directory :: "'m memory_ops \<Rightarrow> 'm \<Rightarrow> nat \<Rightarrow> 'm option" where
  "rotate_directory M m rotate_by = do {
     nb \<leftarrow> num_blocks M m;
     base \<leftarrow> dir_base M m;
     buf \<leftarrow> mem_read M m base (mul64 nb 8);
     mem_write M m base (rotate_loop nb rotate_by buf 0 nb buf) }"

definition double_directory :: "'m memory_ops \<Rightarrow> 'm \<Rightarrow> ('m \<times> (grow_failed + unit)) option" where
  "double_directory M m = do {
     old_slots \<leftarrow> dir_slots M m;
     old_base \<leftarrow> dir_base M m;
     let new_slots = mul64 old_slots 2;
     and_then (alloc_at_end M m (mul64 new_slots 8)) (\<lambda>m new_base. do {
       buf \<leftarrow> mem_read M m old_base (mul64 old_slots 8);
       m \<leftarrow> mem_write M m new_base buf;
       m \<leftarrow> set_dir_base M m new_base;
       m \<leftarrow> set_dir_slots M m new_slots;
       Some (m, Inr ()) }) }"

text \<open>The three stages of \<open>grow_for_push\<close>: rebase the directory, acquire a block, publish it.\<close>

definition rebase :: "'m memory_ops \<Rightarrow> 'm \<Rightarrow> nat \<Rightarrow> nat \<Rightarrow> 'm option" where
  "rebase M m rotate_by boundary_slots =
     (if rotate_by \<noteq> 0 then do { m \<leftarrow> rotate_directory M m rotate_by; set_head_off M m boundary_slots } else Some m)"

definition acquire_block :: "'m memory_ops \<Rightarrow> 'a storable \<Rightarrow> 'm \<Rightarrow> nat \<Rightarrow> ('m \<times> (grow_failed + nat)) option" where
  "acquire_block M S m bs = do {
     base \<leftarrow> free_head M m;
     if base \<noteq> FREE_LIST_NIL then do {
       nxt \<leftarrow> mem_read_u64 M m base;
       m \<leftarrow> set_free_head M m nxt;
       Some (m, Inr base) }
     else alloc_at_end M m (mul64 bs (slot_size S)) }"

definition publish_block :: "'m memory_ops \<Rightarrow> 'a storable \<Rightarrow> 'm \<Rightarrow> nat \<Rightarrow> nat \<Rightarrow> nat \<Rightarrow> nat \<Rightarrow> 'm option" where
  "publish_block M S m nb bs boundary_slots base = do {
     m \<leftarrow> write_dir_entry M m nb base;
     m \<leftarrow> (if boundary_slots \<noteq> 0 then do {
         b0 \<leftarrow> block_base M m 0;
         buf \<leftarrow> mem_read M m b0 (mul64 boundary_slots (slot_size S));
         mem_write M m base buf }
       else Some m);
     m \<leftarrow> set_num_blocks M m (add64 nb 1);
     set_virt_cap M m (mul64 (add64 nb 1) bs) }"

definition grow_for_push :: "'m memory_ops \<Rightarrow> 'a storable \<Rightarrow> 'm \<Rightarrow> ('m \<times> (grow_failed + unit)) option" where
  "grow_for_push M S m = do {
     bs \<leftarrow> block_slots M m;
     nb \<leftarrow> num_blocks M m;
     h \<leftarrow> head_off M m;
     guard (bs \<noteq> 0);
     let rotate_by = h div bs;
     let boundary_slots = h mod bs;
     ds \<leftarrow> dir_slots M m;
     and_then (if nb = ds then double_directory M m else Some (m, Inr ())) (\<lambda>m _. do {
       m \<leftarrow> rebase M m rotate_by boundary_slots;
       and_then (acquire_block M S m bs) (\<lambda>m base. do {
         m \<leftarrow> publish_block M S m nb bs boundary_slots base;
         Some (m, Inr ()) }) }) }"

definition retire_top_block :: "'m memory_ops \<Rightarrow> 'm \<Rightarrow> 'm option" where
  "retire_top_block M m = do {
     nb \<leftarrow> num_blocks M m;
     base \<leftarrow> block_base M m (sub64 nb 1);
     fh \<leftarrow> free_head M m;
     m \<leftarrow> mem_write_u64 M m base fh;
     m \<leftarrow> set_free_head M m base;
     m \<leftarrow> set_num_blocks M m (sub64 nb 1);
     bs \<leftarrow> block_slots M m;
     set_virt_cap M m (mul64 (sub64 nb 1) bs) }"

section \<open>Operations\<close>

definition deque_new :: "'m memory_ops \<Rightarrow> 'a storable \<Rightarrow> 'm \<Rightarrow> ('m \<times> (grow_failed + unit)) option" where
  "deque_new M S m = and_then (alloc_at_end M m DATA_OFFSET) (\<lambda>m _.
     and_then (alloc_at_end M m (INITIAL_DIR_SLOTS * 8)) (\<lambda>m base. do {
       bs \<leftarrow> block_slots_for (slot_size S);
       write_deque_header M m \<lparr>h_magic = SVD_MAGIC, h_version = SVD_LAYOUT_VERSION, h_len = 0, h_max_size = st_max_size S,
         h_is_fixed_size = st_fixed S, h_head_off = 0, h_virt_cap = 0, h_dir_base = base, h_dir_slots = INITIAL_DIR_SLOTS,
         h_num_blocks = 0, h_block_slots = bs, h_free_head = FREE_LIST_NIL\<rparr> }))"

datatype init_error = BadMagic bytes | IncompatibleVersion u8 | IncompatibleElementType | OutOfMemory | InvalidLayout

fun is_power_of_two :: "nat \<Rightarrow> bool" where
  "is_power_of_two n = (if n \<le> 1 then n = 1 else even n \<and> is_power_of_two (n div 2))"

declare is_power_of_two.simps [simp del]

text \<open>The directory loop of \<open>init\<close>, from entry \<open>k\<close> with \<open>n\<close> entries left.\<close>

fun check_directory :: "'m memory_ops \<Rightarrow> 'm \<Rightarrow> header_v1 \<Rightarrow> nat \<Rightarrow> nat \<Rightarrow> nat \<Rightarrow> nat \<Rightarrow> (init_error + unit) option" where
  "check_directory M m h block_bytes mem_bytes k 0 = Some (Inr ())"
| "check_directory M m h block_bytes mem_bytes k (Suc n) = do {
     entry \<leftarrow> mem_read_u64 M m (add64 (h_dir_base h) (mul64 k 8));
     if mem_bytes < entry then Some (Inl InvalidLayout)
     else if k < h_num_blocks h \<and> (case checked_add64 entry block_bytes of None \<Rightarrow> True | Some e \<Rightarrow> mem_bytes < e)
       then Some (Inl InvalidLayout)
     else check_directory M m h block_bytes mem_bytes (Suc k) n }"

definition check_layout :: "'m memory_ops \<Rightarrow> 'a storable \<Rightarrow> 'm \<Rightarrow> header_v1 \<Rightarrow> (init_error + unit) option" where
  "check_layout M S m h = do {
     bs \<leftarrow> (if h_block_slots h = 0 then Some 0 else block_slots_for (slot_size S));
     if h_block_slots h = 0 \<or> h_block_slots h \<noteq> bs then Some (Inl InvalidLayout)
     else if h_dir_slots h = 0 \<or> \<not> is_power_of_two (h_dir_slots h) then Some (Inl InvalidLayout)
     else if h_num_blocks h > h_dir_slots h then Some (Inl InvalidLayout)
     else if h_virt_cap h \<noteq> sat_mul64 (h_num_blocks h) (h_block_slots h) then Some (Inl InvalidLayout)
     else if h_len h > h_virt_cap h then Some (Inl InvalidLayout)
     else if (if h_len h = 0 then h_head_off h \<noteq> 0 else h_head_off h \<ge> h_virt_cap h) then Some (Inl InvalidLayout)
     else let mem_bytes = sat_mul64 (mem_size M m) WASM_PAGE_SIZE in
       if h_dir_base h < DATA_OFFSET then Some (Inl InvalidLayout)
       else if h_free_head h \<noteq> FREE_LIST_NIL \<and> h_free_head h \<ge> mem_bytes then Some (Inl InvalidLayout)
       else (case checked_add64 (h_dir_base h) (mul64 (h_dir_slots h) 8) of
           None \<Rightarrow> Some (Inl InvalidLayout)
         | Some dir_end \<Rightarrow>
             if dir_end > mem_bytes then Some (Inl InvalidLayout)
             else (case checked_mul64 (h_block_slots h) (slot_size S) of
                 None \<Rightarrow> Some (Inl InvalidLayout)
               | Some block_bytes \<Rightarrow> check_directory M m h block_bytes mem_bytes 0 (h_dir_slots h))) }"

definition deque_init :: "'m memory_ops \<Rightarrow> 'a storable \<Rightarrow> 'm \<Rightarrow> ('m \<times> (init_error + unit)) option" where
  "deque_init M S m =
     (if mem_size M m = 0 then
        map_option (\<lambda>(m', r). (m', case r of Inl _ \<Rightarrow> Inl OutOfMemory | Inr _ \<Rightarrow> Inr ())) (deque_new M S m)
      else do {
        h \<leftarrow> read_deque_header M m;
        if h_magic h \<noteq> SVD_MAGIC then Some (m, Inl (BadMagic (h_magic h)))
        else if h_version h \<noteq> SVD_LAYOUT_VERSION then Some (m, Inl (IncompatibleVersion (h_version h)))
        else if h_max_size h \<noteq> st_max_size S \<or> h_is_fixed_size h \<noteq> st_fixed S then Some (m, Inl IncompatibleElementType)
        else map_option (Pair m) (check_layout M S m h) })"

definition deque_get :: "'m memory_ops \<Rightarrow> 'a storable \<Rightarrow> 'm \<Rightarrow> nat \<Rightarrow> 'a option option" where
  "deque_get M S m i = do {
     len \<leftarrow> deque_len M m;
     if i \<ge> len then Some None
     else do {
       r \<leftarrow> virtual_index M m i;
       a \<leftarrow> slot_addr M S m r;
       map_option Some (read_slot M S m a) } }"

definition deque_set :: "'m memory_ops \<Rightarrow> 'a storable \<Rightarrow> 'm \<Rightarrow> nat \<Rightarrow> 'a \<Rightarrow> 'm option" where
  "deque_set M S m i item = do {
     len \<leftarrow> deque_len M m;
     guard (i < len);
     r \<leftarrow> virtual_index M m i;
     a \<leftarrow> slot_addr M S m r;
     (m', res) \<leftarrow> write_slot M S m a item;
     case res of Inl _ \<Rightarrow> None | Inr _ \<Rightarrow> Some m' }"

definition push_back :: "'m memory_ops \<Rightarrow> 'a storable \<Rightarrow> 'm \<Rightarrow> 'a \<Rightarrow> ('m \<times> (grow_failed + unit)) option" where
  "push_back M S m item = do {
     len \<leftarrow> deque_len M m;
     cap \<leftarrow> virt_cap M m;
     and_then (if len = cap then grow_for_push M S m else Some (m, Inr ())) (\<lambda>m _. do {
       h \<leftarrow> head_off M m;
       cap \<leftarrow> virt_cap M m;
       guard (cap \<noteq> 0);
       a \<leftarrow> slot_addr M S m (add64 h len mod cap);
       and_then (write_slot M S m a item) (\<lambda>m _. do {
         m \<leftarrow> set_len M m (add64 len 1);
         Some (m, Inr ()) }) }) }"

definition push_front :: "'m memory_ops \<Rightarrow> 'a storable \<Rightarrow> 'm \<Rightarrow> 'a \<Rightarrow> ('m \<times> (grow_failed + unit)) option" where
  "push_front M S m item = do {
     len \<leftarrow> deque_len M m;
     cap \<leftarrow> virt_cap M m;
     and_then (if len = cap then grow_for_push M S m else Some (m, Inr ())) (\<lambda>m _. do {
       cap \<leftarrow> virt_cap M m;
       h \<leftarrow> head_off M m;
       guard (cap \<noteq> 0);
       let h' = sub64 (add64 h cap) 1 mod cap;
       a \<leftarrow> slot_addr M S m h';
       and_then (write_slot M S m a item) (\<lambda>m _. do {
         m \<leftarrow> set_head_off M m h';
         m \<leftarrow> set_len M m (add64 len 1);
         Some (m, Inr ()) }) }) }"

definition pop_back :: "'m memory_ops \<Rightarrow> 'a storable \<Rightarrow> 'm \<Rightarrow> ('a option \<times> 'm) option" where
  "pop_back M S m = do {
     len \<leftarrow> deque_len M m;
     if len = 0 then Some (None, m)
     else do {
       cap \<leftarrow> virt_cap M m;
       h \<leftarrow> head_off M m;
       bs \<leftarrow> block_slots M m;
       guard (cap \<noteq> 0);
       let pos = sub64 (add64 h len) 1 mod cap;
       a \<leftarrow> slot_addr M S m pos;
       v \<leftarrow> read_slot M S m a;
       let new_len = len - 1;
       m \<leftarrow> set_len M m new_len;
       guard (bs \<noteq> 0);
       let block = pos div bs;
       nb \<leftarrow> num_blocks M m;
       let top_start = mul64 (sub64 nb 1) bs;
       h' \<leftarrow> head_off M m;
       let top_drained = (new_len = 0 \<or> add64 h' new_len \<le> top_start);
       m \<leftarrow> (if add64 block 1 = nb \<and> top_drained then retire_top_block M m else Some m);
       m \<leftarrow> (if new_len = 0 then set_head_off M m 0 else Some m);
       Some (Some v, m) } }"

definition pop_front :: "'m memory_ops \<Rightarrow> 'a storable \<Rightarrow> 'm \<Rightarrow> ('a option \<times> 'm) option" where
  "pop_front M S m = do {
     len \<leftarrow> deque_len M m;
     if len = 0 then Some (None, m)
     else do {
       cap \<leftarrow> virt_cap M m;
       h \<leftarrow> head_off M m;
       bs \<leftarrow> block_slots M m;
       a \<leftarrow> slot_addr M S m h;
       v \<leftarrow> read_slot M S m a;
       let new_len = len - 1;
       m \<leftarrow> set_len M m new_len;
       guard (bs \<noteq> 0);
       let block = h div bs;
       let wrapping = (add64 h 1 = cap);
       let drained = (new_len = 0 \<or> (if wrapping then add64 new_len bs \<le> cap else add64 h 1 mod bs = 0));
       guard (new_len = 0 \<or> cap \<noteq> 0);
       let h' = (if new_len = 0 then 0 else add64 h 1 mod cap);
       nb \<leftarrow> num_blocks M m;
       m \<leftarrow> (if drained \<and> add64 block 1 = nb then retire_top_block M m else Some m);
       m \<leftarrow> set_head_off M m h';
       Some (Some v, m) } }"

section \<open>Iteration\<close>

record iter =
  it_start :: nat
  it_end :: nat

definition deque_iter :: "'m memory_ops \<Rightarrow> 'm \<Rightarrow> iter option" where
  "deque_iter M m = map_option (\<lambda>n. \<lparr>it_start = 0, it_end = n\<rparr>) (deque_len M m)"

definition deque_read_entry :: "'m memory_ops \<Rightarrow> 'a storable \<Rightarrow> 'm \<Rightarrow> nat \<Rightarrow> bytes option" where
  "deque_read_entry M S m i = do { r \<leftarrow> virtual_index M m i; a \<leftarrow> slot_addr M S m r; read_entry_to M S m a }"

definition iter_next :: "'m memory_ops \<Rightarrow> 'a storable \<Rightarrow> 'm \<Rightarrow> iter \<Rightarrow> ('a option \<times> iter) option" where
  "iter_next M S m it =
     (if \<not> it_start it < it_end it then Some (None, it)
      else do {
        len \<leftarrow> deque_len M m;
        if len \<le> it_start it then Some (None, it)
        else do {
          b \<leftarrow> deque_read_entry M S m (it_start it);
          x \<leftarrow> st_from_bytes S b;
          Some (Some x, it\<lparr>it_start := sat_add64 (it_start it) 1\<rparr>) } })"

definition iter_next_back :: "'m memory_ops \<Rightarrow> 'a storable \<Rightarrow> 'm \<Rightarrow> iter \<Rightarrow> ('a option \<times> iter) option" where
  "iter_next_back M S m it =
     (if \<not> it_start it < it_end it then Some (None, it)
      else do {
        len \<leftarrow> deque_len M m;
        if len < it_end it then Some (None, it)
        else do {
          b \<leftarrow> deque_read_entry M S m (it_end it - 1);
          x \<leftarrow> st_from_bytes S b;
          Some (Some x, it\<lparr>it_end := it_end it - 1\<rparr>) } })"

definition iter_size_hint :: "'m memory_ops \<Rightarrow> 'm \<Rightarrow> iter \<Rightarrow> nat option" where
  "iter_size_hint M m it = map_option (\<lambda>n. min n (it_end it) - it_start it) (deque_len M m)"

definition iter_nth :: "'m memory_ops \<Rightarrow> 'a storable \<Rightarrow> 'm \<Rightarrow> iter \<Rightarrow> nat \<Rightarrow> ('a option \<times> iter) option" where
  "iter_nth M S m it n = iter_next M S m (it\<lparr>it_start := sat_add64 (it_start it) n\<rparr>)"

definition iter_nth_back :: "'m memory_ops \<Rightarrow> 'a storable \<Rightarrow> 'm \<Rightarrow> iter \<Rightarrow> nat \<Rightarrow> ('a option \<times> iter) option" where
  "iter_nth_back M S m it n = iter_next_back M S m (it\<lparr>it_end := it_end it - n\<rparr>)"

partial_function (option) iter_collect :: "'m memory_ops \<Rightarrow> 'a storable \<Rightarrow> 'm \<Rightarrow> iter \<Rightarrow> 'a list option" where
  "iter_collect M S m it = do {
     (r, it') \<leftarrow> iter_next M S m it;
     case r of None \<Rightarrow> Some [] | Some x \<Rightarrow> do { xs \<leftarrow> iter_collect M S m it'; Some (x # xs) } }"

definition to_vec :: "'m memory_ops \<Rightarrow> 'a storable \<Rightarrow> 'm \<Rightarrow> 'a list option" where
  "to_vec M S m = do { it \<leftarrow> deque_iter M m; iter_collect M S m it }"

end
