(* ===== verification/Memory_Laws.thy ===== *)
theory Memory_Laws
  imports Vec_Deque
begin

text \<open>
  Reading and writing through the memory helpers, over any memory that meets the contract of the \<open>Memory\<close>
  trait: words at an address, and the memory after a write.
\<close>

section \<open>Words in memory\<close>

definition u64_at :: "bytes \<Rightarrow> nat \<Rightarrow> nat" where
  "u64_at c a = from_le (window c a 8)"

lemma u64_at_less: "u64_at c a < 2 ^ 64"
proof -
  have "u64_at c a < 256 ^ length (window c a 8)" unfolding u64_at_def by (rule from_le_less)
  also have "\<dots> \<le> 256 ^ 8" by (rule power_increasing) (simp_all add: window_def)
  finally show ?thesis by simp
qed

lemma u64_at_same [simp]: "a + 8 \<le> length c \<Longrightarrow> x < 2 ^ 64 \<Longrightarrow> u64_at (overwrite c a (to_le 8 x)) a = x"
  using window_overwrite_same [of a "to_le 8 x" c] by (simp add: u64_at_def from_le_to_le_id)

lemma u64_at_other [simp]:
  "a + length b \<le> length c \<Longrightarrow> k + 8 \<le> length c \<Longrightarrow> k + 8 \<le> a \<or> a + length b \<le> k \<Longrightarrow> u64_at (overwrite c a b) k = u64_at c k"
  by (simp add: u64_at_def window_overwrite_disjoint)

lemma u64_at_append [simp]: "k + 8 \<le> length c \<Longrightarrow> u64_at (c @ d) k = u64_at c k"
  by (simp add: u64_at_def window_append)

lemma u64_at_window: "k + 8 \<le> n \<Longrightarrow> a + n \<le> length c \<Longrightarrow> u64_at (window c a n) k = u64_at c (a + k)"
  by (simp add: u64_at_def window_window)

lemma u64_at_inside:
  "a + length b \<le> length c \<Longrightarrow> k + 8 \<le> length b \<Longrightarrow> u64_at (overwrite c a b) (a + k) = u64_at b k"
  using u64_at_window [of k "length b" a "overwrite c a b"] by (simp add: window_overwrite_same)

lemma u64_at_zero: "u64_at (replicate n 0) k = 0"
proof -
  have "from_le (replicate m 0) = 0" for m by (induction m) simp_all
  then show ?thesis by (simp add: u64_at_def window_def)
qed

lemma u64_at_append_right: "length c \<le> k \<Longrightarrow> u64_at (c @ d) k = u64_at d (k - length c)"
  by (simp add: u64_at_def window_def)

lemma overwrite_adjacent:
  "a + length p + length d \<le> length c \<Longrightarrow> overwrite (overwrite c a p) (a + length p) d = overwrite c a (p @ d)"
  by (rule nth_equalityI) (auto simp: nth_overwrite nth_append)

lemma overwrite_nil [simp]: "overwrite c a [] = c"
  by (simp add: overwrite_def)

section \<open>Reads and writes\<close>

locale byte_memory = stable_memory M ok contents
  for M :: "'m memory_ops" and ok :: "'m \<Rightarrow> bool" and contents :: "'m \<Rightarrow> bytes"
begin

text \<open>The memory after a write; inside the bounds it is the one \<open>mem_write\<close> returns.\<close>

definition put :: "'m \<Rightarrow> nat \<Rightarrow> bytes \<Rightarrow> 'm" where
  "put m a b = the (mem_write M m a b)"

lemma put_law [simp]:
  assumes "ok m" "a + length b \<le> length (contents m)"
  shows "mem_write M m a b = Some (put m a b)" "ok (put m a b)" "contents (put m a b) = overwrite (contents m) a b"
  using write_law [OF assms] by (auto simp: put_def)

lemma size_pages [simp]: "ok m \<Longrightarrow> checked_mul64 (mem_size M m) WASM_PAGE_SIZE = Some (length (contents m))"
  using size_law [of m] size_bound [of m] by (simp add: checked_mul64_def WASM_PAGE_SIZE_def)

lemma safe_write_law [simp]:
  assumes "ok m" "a + length b \<le> length (contents m)"
  shows "safe_write M m a b = Some (put m a b, Inr ())"
  using assms size_bound [OF assms(1)] by (simp add: safe_write_def checked_add64_def)

lemma write_laws [simp]:
  assumes "ok m"
  shows "a + length b \<le> length (contents m) \<Longrightarrow> write_or_panic M m a b = Some (put m a b)"
    "a + 8 \<le> length (contents m) \<Longrightarrow> mem_write_u64 M m a x = Some (put m a (to_le 8 x))"
    "a + 4 \<le> length (contents m) \<Longrightarrow> mem_write_u32 M m a x = Some (put m a (to_le 4 x))"
    "a + 8 \<le> length (contents m) \<Longrightarrow> mem_read_u64 M m a = Some (u64_at (contents m) a)"
  using assms by (simp_all add: write_or_panic_def mem_write_u64_def mem_write_u32_def mem_read_u64_def u64_at_def read_law)

lemma alloc_law:
  assumes "ok m"
  shows "(\<exists>e. alloc_at_end M m n = Some (m, Inl e))
    \<or> (\<exists>m'. alloc_at_end M m n = Some (m', Inr (length (contents m))) \<and> ok m'
        \<and> contents m' = contents m @ replicate (div_ceil n 65536 * 65536) 0)"
  using grow_law [OF assms, of "div_ceil n WASM_PAGE_SIZE"] size_pages [OF assms]
  by (auto simp: alloc_at_end_def WASM_PAGE_SIZE_def Let_def)

text \<open>A write past the end grows the memory first, or fails and changes nothing.\<close>

lemma safe_write_cases:
  assumes "ok m" "a + length b < 2 ^ 64" "a + length b < 2 ^ 63 \<or> 65536 \<le> length (contents m)"
  shows "(\<exists>e. safe_write M m a b = Some (m, Inl e)) \<and> length (contents m) < a + length b
    \<or> (\<exists>m' n. safe_write M m a b = Some (m', Inr ()) \<and> ok m' \<and> contents m' = overwrite (contents m @ replicate n 0) a b
        \<and> a + length b \<le> length (contents m) + n)"
proof (cases "a + length b \<le> length (contents m)")
  case True
  then have "safe_write M m a b = Some (put m a b, Inr ()) \<and> ok (put m a b) \<and> contents (put m a b) = overwrite (contents m @ replicate 0 0) a b"
    using assms(1) by simp
  then show ?thesis using True by (metis add.right_neutral)
next
  case False
  define d where "d = a + length b - length (contents m)"
  let ?n = "(d + 65535) div 65536"
  have n: "a + length b \<le> length (contents m) + ?n * 65536" unfolding d_def by linarith
  have lt: "d + 65535 < 2 ^ 64" using assms(2,3) unfolding d_def by auto
  have s: "safe_write M m a b = (case mem_grow M m ?n of (r, m') \<Rightarrow>
      if r = -1 then Some (m', Inl \<lparr>gf_current_size = mem_size M m, gf_delta = ?n\<rparr>)
      else do { m'' \<leftarrow> mem_write M m' a b; Some (m'', Inr ()) })"
    using False assms(1,2) lt
    by (simp add: safe_write_def checked_add64_def WASM_PAGE_SIZE_def size_pages [unfolded WASM_PAGE_SIZE_def] Let_def flip: d_def)
  consider "mem_grow M m ?n = (-1, m)" | m' where "mem_grow M m ?n = (int (mem_size M m), m')" "ok m'" "contents m' = contents m @ replicate (?n * 65536) 0"
    using grow_law [OF assms(1), of ?n] by blast
  then show ?thesis
  proof cases
    case 1
    then show ?thesis using s False by simp
  next
    case 2
    have "a + length b \<le> length (contents m')" using n 2(3) by simp
    from put_law [OF 2(2) this] have "safe_write M m a b = Some (put m' a b, Inr ())" "ok (put m' a b)"
      "contents (put m' a b) = overwrite (contents m @ replicate (?n * 65536) 0) a b"
      using s 2 by simp_all
    then show ?thesis using n by blast
  qed
qed

end

end
