(* ===== verification/Deque_Invariant.thy ===== *)
theory Deque_Invariant
  imports Memory_Laws
begin

text \<open>
  The bytes of a stable deque. \<open>hdr\<close> reads the header, \<open>layout\<close> adds the directory, the free list and
  the disjointness of all regions, \<open>elems\<close> places the elements, and \<open>dq_ok\<close> says that the bytes hold a
  given list. The laws of this theory are about one stage of an operation each.
\<close>

section \<open>Element types\<close>

locale storable_laws =
  fixes S :: "'a storable"
  assumes from_to: "st_from_bytes S (st_to_bytes S x) = Some x"
    and bound_law: "length (st_to_bytes S x) \<le> st_max_size S"
    and fixed_law: "st_fixed S \<Longrightarrow> length (st_to_bytes S x) = st_max_size S"
    and max_law: "st_max_size S + 4 < 2 ^ 32"
    and slot_law: "st_fixed S \<Longrightarrow> 0 < st_max_size S"

definition slots_per_block :: "'a storable \<Rightarrow> nat" where
  "slots_per_block S = max (262144 div slot_size S) 1"

definition block_bytes :: "'a storable \<Rightarrow> nat" where
  "block_bytes S = slots_per_block S * slot_size S"

text \<open>The bytes of a slot: the length in as many bytes as the bound needs, then the element.\<close>

definition encoded :: "'a storable \<Rightarrow> 'a \<Rightarrow> bytes" where
  "encoded S x = to_le (bytes_to_store_size_bounded S) (length (st_to_bytes S x)) @ st_to_bytes S x"

definition slot_at :: "'a storable \<Rightarrow> bytes \<Rightarrow> nat \<Rightarrow> 'a \<Rightarrow> bool" where
  "slot_at S c a x \<longleftrightarrow> window c a (length (encoded S x)) = encoded S x"

lemma store_size_bound: "n < 2 ^ 32 \<Longrightarrow> n < 256 ^ bytes_to_store_size n"
  by (simp add: bytes_to_store_size_def)

lemma store_size_le: "bytes_to_store_size n \<le> 4"
  by (simp add: bytes_to_store_size_def)

context storable_laws
begin

lemma slot_size_eq: "slot_size S = st_max_size S + bytes_to_store_size_bounded S"
  using max_law store_size_le [of "st_max_size S"] by (simp add: slot_size_def bytes_to_store_size_bounded_def)

lemma slot_size_pos: "0 < slot_size S"
  using slot_law by (auto simp: slot_size_eq bytes_to_store_size_bounded_def bytes_to_store_size_def)

lemma slot_size_less: "slot_size S < 2 ^ 32"
  by (simp add: slot_size_def)

lemma slots_per_block_pos: "0 < slots_per_block S"
  by (simp add: slots_per_block_def)

lemma block_slots_for_eq: "block_slots_for (slot_size S) = Some (slots_per_block S)"
  using slot_size_pos by (simp add: block_slots_for_def slots_per_block_def TARGET_BLOCK_BYTES_def)

lemma block_bytes_bounds: "8 \<le> block_bytes S" "block_bytes S < 2 ^ 33" "slots_per_block S < 2 ^ 33"
proof -
  have ss: "0 < slot_size S" "slot_size S < 2 ^ 32" using slot_size_pos slot_size_less by auto
  consider (one) "262144 div slot_size S = 0" | (many) "0 < 262144 div slot_size S" by auto
  then have "8 \<le> block_bytes S \<and> block_bytes S < 2 ^ 33 \<and> slots_per_block S < 2 ^ 33"
  proof cases
    case one
    then have "262144 < slot_size S" using ss(1) by (simp add: div_eq_0_iff)
    then show ?thesis using one ss by (simp add: block_bytes_def slots_per_block_def)
  next
    case many
    define q where "q = 262144 div slot_size S"
    have "262144 = q * slot_size S + 262144 mod slot_size S" by (simp add: q_def)
    moreover have "262144 mod slot_size S < slot_size S" using ss(1) by simp
    moreover have "slot_size S \<le> q * slot_size S" using many by (cases q) (simp_all add: q_def)
    moreover have "q \<le> 262144" unfolding q_def by (rule div_le_dividend)
    moreover have "slots_per_block S = q" using many by (simp add: slots_per_block_def q_def max_def)
    ultimately have "262144 \<le> 2 * (q * slot_size S)" "q * slot_size S \<le> 262144" "slots_per_block S = q" "q \<le> 262144" by linarith+
    then show ?thesis unfolding block_bytes_def by simp
  qed
  then show "8 \<le> block_bytes S" "block_bytes S < 2 ^ 33" "slots_per_block S < 2 ^ 33" by blast+
qed

lemma encoded_length: "length (encoded S x) \<le> slot_size S"
  using bound_law [of x] by (simp add: encoded_def slot_size_eq)

lemma checked: "to_bytes_checked S x = Some (st_to_bytes S x)"
  using bound_law fixed_law by (simp add: to_bytes_checked_def Let_def)

end

section \<open>The layout\<close>

definition hdr :: "'a storable \<Rightarrow> bytes \<Rightarrow> nat \<Rightarrow> nat \<Rightarrow> nat \<Rightarrow> nat \<Rightarrow> nat \<Rightarrow> nat \<Rightarrow> nat \<Rightarrow> bool" where
  "hdr S c L H C B D N F \<longleftrightarrow> 128 \<le> length c \<and> window c 0 3 = SVD_MAGIC \<and> window c 3 1 = [SVD_LAYOUT_VERSION]
     \<and> from_le (window c 12 4) = st_max_size S \<and> window c 16 1 = [if st_fixed S then 1 else 0] \<and> u64_at c 57 = slots_per_block S
     \<and> u64_at c 4 = L \<and> u64_at c 17 = H \<and> u64_at c 25 = C \<and> u64_at c 33 = B \<and> u64_at c 41 = D \<and> u64_at c 49 = N \<and> u64_at c 65 = F"

text \<open>Blocks of \<open>n\<close> bytes, apart from the header, the directory and each other.\<close>

definition room :: "nat \<Rightarrow> nat \<Rightarrow> nat \<Rightarrow> nat \<Rightarrow> nat list \<Rightarrow> bool" where
  "room n tot B D bl \<longleftrightarrow> 128 \<le> B \<and> B + 8 * D \<le> tot \<and> distinct bl
     \<and> (\<forall>b\<in>set bl. 128 \<le> b \<and> b + n \<le> tot \<and> (b + n \<le> B \<or> B + 8 * D \<le> b))
     \<and> (\<forall>a\<in>set bl. \<forall>b\<in>set bl. a \<noteq> b \<longrightarrow> a + n \<le> b \<or> b + n \<le> a)"

fun chain :: "bytes \<Rightarrow> nat \<Rightarrow> nat list \<Rightarrow> bool" where
  "chain c p [] \<longleftrightarrow> p = FREE_LIST_NIL"
| "chain c p (b # bs) \<longleftrightarrow> p = b \<and> p \<noteq> FREE_LIST_NIL \<and> chain c (u64_at c b) bs"

definition layout :: "'a storable \<Rightarrow> bytes \<Rightarrow> nat \<Rightarrow> nat \<Rightarrow> nat \<Rightarrow> nat \<Rightarrow> nat \<Rightarrow> nat \<Rightarrow> nat \<Rightarrow> nat list \<Rightarrow> nat list \<Rightarrow> bool" where
  "layout S c L H C B D N F dir free \<longleftrightarrow> hdr S c L H C B D N F \<and> length dir = D \<and> N \<le> D \<and> is_power_of_two D
     \<and> (\<forall>k<D. u64_at c (B + 8 * k) = dir ! k) \<and> (\<forall>e\<in>set dir. e \<le> length c)
     \<and> room (block_bytes S) (length c) B D (take N dir @ free) \<and> chain c F free"

definition addr :: "'a storable \<Rightarrow> nat list \<Rightarrow> nat \<Rightarrow> nat" where
  "addr S dir p = dir ! (p div slots_per_block S) + p mod slots_per_block S * slot_size S"

definition elems :: "'a storable \<Rightarrow> bytes \<Rightarrow> nat list \<Rightarrow> nat \<Rightarrow> nat \<Rightarrow> 'a list \<Rightarrow> bool" where
  "elems S c dir C H xs \<longleftrightarrow> (\<forall>i<length xs. slot_at S c (addr S dir ((H + i) mod C)) (xs ! i))"

definition dq_ok :: "'a storable \<Rightarrow> bytes \<Rightarrow> 'a list \<Rightarrow> bool" where
  "dq_ok S c xs \<longleftrightarrow> (\<exists>H B D N F dir free. layout S c (length xs) H (N * slots_per_block S) B D N F dir free
     \<and> length xs \<le> N * slots_per_block S \<and> (if xs = [] then H = 0 else H < N * slots_per_block S)
     \<and> elems S c dir (N * slots_per_block S) H xs)"

lemma hdr_set:
  assumes "hdr S c L H C B D N F" "x < 2 ^ 64"
  shows "hdr S (overwrite c 4 (to_le 8 x)) x H C B D N F" "hdr S (overwrite c 17 (to_le 8 x)) L x C B D N F"
    "hdr S (overwrite c 25 (to_le 8 x)) L H x B D N F" "hdr S (overwrite c 33 (to_le 8 x)) L H C x D N F"
    "hdr S (overwrite c 41 (to_le 8 x)) L H C B x N F" "hdr S (overwrite c 49 (to_le 8 x)) L H C B D x F"
    "hdr S (overwrite c 65 (to_le 8 x)) L H C B D N x"
  using assms by (simp_all add: hdr_def window_overwrite_disjoint)

lemma hdr_frame: "hdr S c L H C B D N F \<Longrightarrow> 128 \<le> a \<Longrightarrow> a + length b \<le> length c \<Longrightarrow> hdr S (overwrite c a b) L H C B D N F"
  by (simp add: hdr_def window_overwrite_disjoint)

lemma hdr_append: "hdr S c L H C B D N F \<Longrightarrow> hdr S (c @ d) L H C B D N F"
  by (simp add: hdr_def window_append)

lemma chain_cong: "(\<And>b. b \<in> set bs \<Longrightarrow> u64_at c' b = u64_at c b) \<Longrightarrow> chain c' p bs = chain c p bs"
  by (induction bs arbitrary: p) auto

lemma roomI:
  assumes "128 \<le> B" "B + 8 * D \<le> t" "distinct bl"
    "\<And>b. b \<in> set bl \<Longrightarrow> 128 \<le> b \<and> b + n \<le> t \<and> (b + n \<le> B \<or> B + 8 * D \<le> b)"
    "\<And>a b. a \<in> set bl \<Longrightarrow> b \<in> set bl \<Longrightarrow> a \<noteq> b \<Longrightarrow> a + n \<le> b \<or> b + n \<le> a"
  shows "room n t B D bl"
proof -
  have "\<forall>b\<in>set bl. 128 \<le> b \<and> b + n \<le> t \<and> (b + n \<le> B \<or> B + 8 * D \<le> b)" using assms(4) by (rule ballI)
  moreover have "\<forall>a\<in>set bl. \<forall>b\<in>set bl. a \<noteq> b \<longrightarrow> a + n \<le> b \<or> b + n \<le> a" by (intro ballI impI) (rule assms(5))
  ultimately show ?thesis unfolding room_def using assms(1-3) by (intro conjI)
qed

lemma room_in:
  assumes "room n t B D bl" "b \<in> set bl"
  shows "128 \<le> b" "b + n \<le> t" "b + n \<le> B \<or> B + 8 * D \<le> b"
  using assms by (simp_all add: room_def)

lemma room_apart: "room n t B D bl \<Longrightarrow> a \<in> set bl \<Longrightarrow> b \<in> set bl \<Longrightarrow> a \<noteq> b \<Longrightarrow> a + n \<le> b \<or> b + n \<le> a"
  by (simp add: room_def)

lemma room_dir:
  assumes "room n t B D bl"
  shows "128 \<le> B" "B + 8 * D \<le> t" "distinct bl"
  using assms by (simp_all add: room_def)

lemma room_sub:
  assumes "room n t B D bl" "set bl' \<subseteq> set bl" "distinct bl'" "t \<le> t'"
  shows "room n t' B D bl'"
proof (rule roomI)
  show "128 \<le> B" "B + 8 * D \<le> t'" "distinct bl'" using room_dir [OF assms(1)] assms(3,4) by simp_all
next
  fix b assume "b \<in> set bl'"
  then have "b \<in> set bl" using assms(2) by blast
  from room_in [OF assms(1) this] show "128 \<le> b \<and> b + n \<le> t' \<and> (b + n \<le> B \<or> B + 8 * D \<le> b)" using assms(4) by simp
next
  fix a b assume "a \<in> set bl'" "b \<in> set bl'" "a \<noteq> b"
  then show "a + n \<le> b \<or> b + n \<le> a" using room_apart [OF assms(1)] assms(2) by blast
qed

lemma power_of_two_pos: "is_power_of_two D \<Longrightarrow> 0 < D"
  by (subst (asm) is_power_of_two.simps) (auto split: if_splits)

lemma power_of_two_double: "is_power_of_two D \<Longrightarrow> is_power_of_two (2 * D)"
  using power_of_two_pos [of D] by (subst is_power_of_two.simps) simp

end
