(* ===== verification/Deque_Laws.thy ===== *)
theory Deque_Laws
  imports Deque_Invariant
begin

text \<open>
  What each stage of a deque operation does to the bytes, over any memory that meets the contract of
  the \<open>Memory\<close> trait and any element type that meets the contract of \<open>Storable\<close>.
\<close>

locale stable_deque = byte_memory M ok contents + storable_laws S
  for M :: "'m memory_ops" and ok :: "'m \<Rightarrow> bool" and contents :: "'m \<Rightarrow> bytes" and S :: "'a storable"
begin

text \<open>Every header field, read and written.\<close>

lemma fields [simp]:
  assumes "ok m" "128 \<le> length (contents m)"
  shows "deque_len M m = Some (u64_at (contents m) 4)" "head_off M m = Some (u64_at (contents m) 17)"
    "virt_cap M m = Some (u64_at (contents m) 25)" "dir_base M m = Some (u64_at (contents m) 33)"
    "dir_slots M m = Some (u64_at (contents m) 41)" "num_blocks M m = Some (u64_at (contents m) 49)"
    "block_slots M m = Some (u64_at (contents m) 57)" "free_head M m = Some (u64_at (contents m) 65)"
    "set_len M m x = Some (put m 4 (to_le 8 x))" "set_head_off M m x = Some (put m 17 (to_le 8 x))"
    "set_virt_cap M m x = Some (put m 25 (to_le 8 x))" "set_dir_base M m x = Some (put m 33 (to_le 8 x))"
    "set_dir_slots M m x = Some (put m 41 (to_le 8 x))" "set_num_blocks M m x = Some (put m 49 (to_le 8 x))"
    "set_free_head M m x = Some (put m 65 (to_le 8 x))"
  using assms by (simp_all add: deque_len_def head_off_def virt_cap_def dir_base_def dir_slots_def num_blocks_def block_slots_def
      free_head_def set_len_def set_head_off_def set_virt_cap_def set_dir_base_def set_dir_slots_def set_num_blocks_def
      set_free_head_def svd_offsets)

section \<open>Slots\<close>

lemma prefix_cases:
  "bytes_to_store_size_bounded S = (if st_fixed S then 0 else if st_max_size S \<le> 255 then 1 else if st_max_size S \<le> 65535 then 2 else 4)"
  by (simp add: bytes_to_store_size_bounded_def bytes_to_store_size_def)

lemma write_slot_law:
  assumes "ok m" "a + slot_size S \<le> length (contents m)"
  shows "\<exists>m'. write_slot M S m a x = Some (m', Inr ()) \<and> ok m' \<and> contents m' = overwrite (contents m) a (encoded S x)"
proof -
  let ?w = "bytes_to_store_size_bounded S" and ?b = "st_to_bytes S x"
  have le: "a + ?w + length ?b \<le> length (contents m)" using assms(2) bound_law [of x] by (simp add: slot_size_eq)
  have a64: "add64 a n = a + n" if "n \<le> ?w" for n
    using le size_bound [OF assms(1)] that by (intro add64_exact) simp
  let ?m = "if ?w = 0 then m else put m a (to_le ?w (length ?b))"
  have m: "ok ?m" "contents ?m = overwrite (contents m) a (to_le ?w (length ?b))" using assms(1) le by auto
  have "write_entry_size M S m a (length ?b) = Some (?m, Inr (a + ?w))"
    using assms(1) le by (auto simp: write_entry_size_def and_then_def prefix_cases a64)
  moreover have "safe_write M ?m (a + ?w) ?b = Some (put ?m (a + ?w) ?b, Inr ())"
    using m le by (intro safe_write_law) simp_all
  moreover have "contents (put ?m (a + ?w) ?b) = overwrite (contents m) a (encoded S x)"
    using m le overwrite_adjacent [of a "to_le ?w (length ?b)" ?b "contents m"] by (simp add: encoded_def)
  moreover have "ok (put ?m (a + ?w) ?b)" using m le by (intro put_law) simp_all
  ultimately show ?thesis by (simp add: write_slot_def checked and_then_def)
qed

lemma read_entry_law:
  assumes "ok m" "a + slot_size S \<le> length (contents m)" "slot_at S (contents m) a x"
  shows "read_entry_to M S m a = Some (st_to_bytes S x)"
proof -
  let ?w = "bytes_to_store_size_bounded S" and ?b = "st_to_bytes S x" and ?c = "contents m"
  have le: "a + ?w + length ?b \<le> length ?c" using assms(2) bound_law [of x] by (simp add: slot_size_eq)
  have W: "window ?c a (?w + length ?b) = to_le ?w (length ?b) @ ?b" using assms(3) by (simp add: slot_at_def encoded_def)
  have w1: "window ?c a ?w = to_le ?w (length ?b)" using arg_cong [OF W, of "take ?w"] by (simp add: window_def)
  have w2: "window ?c (a + ?w) (length ?b) = ?b" using arg_cong [OF W, of "drop ?w"] by (simp add: window_def drop_take add.commute)
  have a64: "add64 a n = a + n" if "n \<le> ?w" for n
    using le size_bound [OF assms(1)] that by (intro add64_exact) simp
  have "length ?b < 2 ^ 32" using bound_law [of x] max_law by linarith
  then have n: "\<not> st_fixed S \<Longrightarrow> from_le (to_le ?w (length ?b)) = length ?b"
    using bound_law [of x] by (intro from_le_to_le_id) (auto simp: prefix_cases simp del: to_le.simps from_le.simps)
  have "read_entry_size M S m a = Some (a + ?w, length ?b)"
    using w1 n le assms(1) fixed_law [of x] by (auto simp: read_entry_size_def prefix_cases read_law a64 mem_read_u32_def simp del: to_le.simps from_le.simps)
  then show ?thesis using le assms(1) w2 by (simp add: read_entry_to_def read_law)
qed

lemma read_slot_law:
  assumes "ok m" "a + slot_size S \<le> length (contents m)" "slot_at S (contents m) a x"
  shows "read_slot M S m a = Some x"
  using read_entry_law [OF assms] by (simp add: read_slot_def from_to)

section \<open>Routing\<close>

lemma layoutD:
  assumes "layout S c L H C B D N F dir free"
  shows "hdr S c L H C B D N F" "128 \<le> length c" "length dir = D" "N \<le> D" "128 \<le> B" "B + 8 * D \<le> length c"
    "room (block_bytes S) (length c) B D (take N dir @ free)" "chain c F free" "is_power_of_two D"
    "\<And>k. k < D \<Longrightarrow> u64_at c (B + 8 * k) = dir ! k"
    "\<And>e. e \<in> set dir \<Longrightarrow> e \<le> length c"
    "u64_at c 4 = L" "u64_at c 17 = H" "u64_at c 25 = C" "u64_at c 33 = B" "u64_at c 41 = D" "u64_at c 49 = N" "u64_at c 65 = F"
    "u64_at c 57 = slots_per_block S"
  using assms room_dir by (simp_all add: layout_def hdr_def) blast+

lemma live_block:
  assumes "layout S c L H C B D N F dir free" "k < N"
  shows "dir ! k \<in> set (take N dir @ free)" "128 \<le> dir ! k" "dir ! k + block_bytes S \<le> length c"
    "dir ! k + block_bytes S \<le> B \<or> B + 8 * D \<le> dir ! k"
proof -
  note A = layoutD [OF assms(1)]
  have "take N dir ! k \<in> set (take N dir)" using assms(2) A(3,4) by (intro nth_mem) simp
  then show m: "dir ! k \<in> set (take N dir @ free)" using assms(2) by simp
  show "128 \<le> dir ! k" "dir ! k + block_bytes S \<le> length c" "dir ! k + block_bytes S \<le> B \<or> B + 8 * D \<le> dir ! k"
    using room_in [OF A(7) m] by blast+
qed

lemma addr_in_block:
  fixes dir p
  defines "b \<equiv> dir ! (p div slots_per_block S)"
  shows "b \<le> addr S dir p" "addr S dir p + slot_size S \<le> b + block_bytes S"
proof -
  have "p mod slots_per_block S < slots_per_block S" using slots_per_block_pos by simp
  then have "Suc (p mod slots_per_block S) * slot_size S \<le> block_bytes S" unfolding block_bytes_def by (intro mult_le_mono1) simp
  then show "b \<le> addr S dir p" "addr S dir p + slot_size S \<le> b + block_bytes S" by (simp_all add: addr_def b_def)
qed

lemma pos_block: "p < N * slots_per_block S \<Longrightarrow> p div slots_per_block S < N"
  by (simp add: less_mult_imp_div_less)

lemma addr_bounds:
  assumes "layout S c L H C B D N F dir free" "p < N * slots_per_block S"
  shows "128 \<le> addr S dir p" "addr S dir p + slot_size S \<le> length c"
  using live_block [OF assms(1) pos_block [OF assms(2)]] addr_in_block [of dir p] by linarith+

lemma same_block_apart: "r < r' \<Longrightarrow> b + r * slot_size S + slot_size S \<le> b + r' * slot_size S"
  using mult_le_mono1 [of "Suc r" r' "slot_size S"] by simp

lemma addr_apart:
  assumes "layout S c L H C B D N F dir free" "p < N * slots_per_block S" "q < N * slots_per_block S" "p \<noteq> q"
  shows "addr S dir p + slot_size S \<le> addr S dir q \<or> addr S dir q + slot_size S \<le> addr S dir p"
proof (cases "p div slots_per_block S = q div slots_per_block S")
  case True
  then have "p mod slots_per_block S \<noteq> q mod slots_per_block S" using assms(4) by (metis div_mult_mod_eq)
  then show ?thesis using same_block_apart True unfolding addr_def by (metis linorder_neqE_nat)
next
  case False
  note A = layoutD [OF assms(1)]
  note I = live_block [OF assms(1) pos_block [OF assms(2)]] and J = live_block [OF assms(1) pos_block [OF assms(3)]]
  have "distinct (take N dir)" using room_dir(3) [OF A(7)] by simp
  then have "dir ! (p div slots_per_block S) \<noteq> dir ! (q div slots_per_block S)"
    using False pos_block [OF assms(2)] pos_block [OF assms(3)] A(3,4) nth_eq_iff_index_eq [of "take N dir"] by simp
  from room_apart [OF A(7) I(1) J(1) this] show ?thesis using addr_in_block [of dir p] addr_in_block [of dir q] by linarith
qed

lemma slot_addr_law:
  assumes "ok m" "layout S (contents m) L H C B D N F dir free" "p < N * slots_per_block S"
  shows "slot_addr M S m p = Some (addr S dir p)"
proof -
  note A = layoutD [OF assms(2)] and k = pos_block [OF assms(3)]
  let ?k = "p div slots_per_block S"
  have b: "B + 8 * D < 2 ^ 63" "?k < D" using A(4,6) size_bound [OF assms(1)] k by linarith+
  have ad: "add64 B (mul64 ?k 8) = B + 8 * ?k" using b by (simp add: mul64_exact add64_exact mult.commute)
  have m8: "mul64 (p mod slots_per_block S) (slot_size S) = p mod slots_per_block S * slot_size S"
    using addr_bounds(2) [OF assms(2,3)] size_bound [OF assms(1)] by (intro mul64_exact) (simp add: addr_def)
  have "add64 (dir ! ?k) (p mod slots_per_block S * slot_size S) = addr S dir p"
    using addr_bounds(2) [OF assms(2,3)] size_bound [OF assms(1)] unfolding addr_def by (intro add64_exact) simp
  then show ?thesis
    using assms(1) A(2,6,10,15,19) b(2) slots_per_block_pos
    by (simp add: slot_addr_def block_base_def dir_entry_addr_def ad m8)
qed

section \<open>Frames\<close>

text \<open>The bytes of the blocks in a list are unchanged.\<close>

definition same_blocks :: "nat list \<Rightarrow> bytes \<Rightarrow> bytes \<Rightarrow> bool" where
  "same_blocks bl c c' \<longleftrightarrow> (\<forall>b\<in>set bl. window c' b (block_bytes S) = window c b (block_bytes S))"

lemma slot_at_window:
  assumes "window c' b (block_bytes S) = window c b (block_bytes S)" "b + block_bytes S \<le> length c" "b + block_bytes S \<le> length c'"
    "b \<le> a" "a + slot_size S \<le> b + block_bytes S"
  shows "slot_at S c' a x = slot_at S c a x"
proof -
  let ?n = "length (encoded S x)"
  have n: "?n \<le> slot_size S" by (rule encoded_length)
  have "window (window d b (block_bytes S)) (a - b) ?n = window d a ?n" if "b + block_bytes S \<le> length d" for d
    using window_window [of "a - b" ?n "block_bytes S" b d] that assms(4,5) n by simp
  then show ?thesis using assms(1-3) unfolding slot_at_def by metis
qed

lemma elems_same:
  assumes "layout S c L H C B D N F dir free" "same_blocks (take N dir) c c'" "length c \<le> length c'"
    "elems S c dir (N * slots_per_block S) H' xs" "length xs \<le> N * slots_per_block S"
  shows "elems S c' dir (N * slots_per_block S) H' xs"
  unfolding elems_def
proof (intro allI impI)
  fix i assume i: "i < length xs"
  let ?p = "(H' + i) mod (N * slots_per_block S)"
  have p: "?p < N * slots_per_block S" using i assms(5) by (intro mod_less_divisor) linarith
  let ?b = "dir ! (?p div slots_per_block S)"
  note K = live_block [OF assms(1) pos_block [OF p]]
  have "?b \<in> set (take N dir)"
    using pos_block [OF p] layoutD(3,4) [OF assms(1)] by (metis length_take min.absorb2 nth_mem nth_take)
  then have "window c' ?b (block_bytes S) = window c ?b (block_bytes S)" using assms(2) by (simp add: same_blocks_def)
  then show "slot_at S c' (addr S dir ?p) (xs ! i)"
    using slot_at_window [of c' ?b c "addr S dir ?p"] K(3) assms(3) addr_in_block [of dir ?p] assms(4) i by (simp add: elems_def)
qed

lemma same_blocksI:
  assumes "\<And>b. b \<in> set bl \<Longrightarrow> b + block_bytes S \<le> length c \<and> (b + block_bytes S \<le> a \<or> a + length w \<le> b)" "a + length w \<le> length c"
  shows "same_blocks bl c (overwrite c a w)"
  using assms by (simp add: same_blocks_def window_overwrite_disjoint)

lemma same_blocks_trans: "same_blocks bl c c' \<Longrightarrow> same_blocks bl c' c'' \<Longrightarrow> same_blocks bl c c''"
  by (simp add: same_blocks_def)

lemma same_blocks_append: "(\<And>b. b \<in> set bl \<Longrightarrow> b + block_bytes S \<le> length c) \<Longrightarrow> same_blocks bl c (c @ d)"
  by (simp add: same_blocks_def window_append)

text \<open>Nothing changes above the header.\<close>

definition high_same :: "bytes \<Rightarrow> bytes \<Rightarrow> bool" where
  "high_same c c' \<longleftrightarrow> length c' = length c \<and> drop 128 c' = drop 128 c"

lemma high_same_window: "high_same c c' \<Longrightarrow> 128 \<le> a \<Longrightarrow> window c' a n = window c a n"
proof -
  assume "high_same c c'" "128 \<le> a"
  then have "drop (a - 128) (drop 128 c') = drop (a - 128) (drop 128 c)" "a - 128 + 128 = a" by (simp_all add: high_same_def)
  then show ?thesis by (simp add: window_def)
qed

lemma high_same_u64: "high_same c c' \<Longrightarrow> 128 \<le> a \<Longrightarrow> u64_at c' a = u64_at c a"
  by (simp add: u64_at_def high_same_window)

lemma high_overwrite: "a + length w \<le> 128 \<Longrightarrow> 128 \<le> length c \<Longrightarrow> high_same c (overwrite c a w)"
  by (simp add: high_same_def overwrite_def)

lemma high_refl [simp]: "high_same c c"
  by (simp add: high_same_def)

lemma high_trans: "high_same c c' \<Longrightarrow> high_same c' c'' \<Longrightarrow> high_same c c''"
  by (simp add: high_same_def)

lemma high_same_blocks: "high_same c c' \<Longrightarrow> (\<And>b. b \<in> set bl \<Longrightarrow> 128 \<le> b) \<Longrightarrow> same_blocks bl c c'"
  by (simp add: same_blocks_def high_same_window)

lemma layout_high:
  assumes "layout S c L H C B D N F dir free" "hdr S c' L' H' C' B D N' F'" "high_same c c'" "N' \<le> D"
    "room (block_bytes S) (length c) B D (take N' dir @ free')" "chain c F' free'"
  shows "layout S c' L' H' C' B D N' F' dir free'"
proof -
  note A = layoutD [OF assms(1)]
  have "chain c' F' free' = chain c F' free'"
  proof (rule chain_cong)
    fix b assume "b \<in> set free'"
    then have "128 \<le> b" using room_in(1) [OF assms(5)] by simp
    then show "u64_at c' b = u64_at c b" using high_same_u64 [OF assms(3)] by simp
  qed
  moreover have "u64_at c' (B + 8 * k) = dir ! k" if "k < D" for k
    using A(5,10) that high_same_u64 [OF assms(3), of "B + 8 * k"] by simp
  moreover have "length c' = length c" using assms(3) by (simp add: high_same_def)
  ultimately show ?thesis using A assms(2-6) unfolding layout_def by simp
qed

lemma layout_set:
  assumes "layout S c L H C B D N F dir free" "x < 2 ^ 64"
  shows "layout S (overwrite c 4 (to_le 8 x)) x H C B D N F dir free" "layout S (overwrite c 17 (to_le 8 x)) L x C B D N F dir free"
    "layout S (overwrite c 25 (to_le 8 x)) L H x B D N F dir free"
  using layout_high [OF assms(1) hdr_set(1) [OF layoutD(1) [OF assms(1)] assms(2)] high_overwrite]
    layout_high [OF assms(1) hdr_set(2) [OF layoutD(1) [OF assms(1)] assms(2)] high_overwrite]
    layout_high [OF assms(1) hdr_set(3) [OF layoutD(1) [OF assms(1)] assms(2)] high_overwrite]
    layoutD(2,4,7,8) [OF assms(1)] by simp_all

lemma layout_off_frame:
  assumes "layout S c L H C B D N F dir free" "128 \<le> a" "a + length w \<le> length c" "a + length w \<le> B \<or> B + 8 * D \<le> a"
    "\<And>b. b \<in> set free \<Longrightarrow> b + 8 \<le> a \<or> a + length w \<le> b"
  shows "layout S (overwrite c a w) L H C B D N F dir free"
proof -
  note A = layoutD [OF assms(1)]
  have "chain (overwrite c a w) F free = chain c F free"
  proof (rule chain_cong)
    fix b assume b: "b \<in> set free"
    then have "b + block_bytes S \<le> length c" using room_in(2) [OF A(7)] by simp
    then show "u64_at (overwrite c a w) b = u64_at c b" using assms(3) assms(5) [OF b] block_bytes_bounds(1) by (intro u64_at_other) simp_all
  qed
  moreover have "u64_at (overwrite c a w) (B + 8 * k) = dir ! k" if "k < D" for k
    using A(6,10) that assms(3,4) by (subst u64_at_other) auto
  ultimately show ?thesis using A hdr_frame [OF A(1) assms(2,3)] assms(3) unfolding layout_def by simp
qed

lemma layout_append:
  assumes "layout S c L H C B D N F dir free"
  shows "layout S (c @ d) L H C B D N F dir free"
proof -
  note A = layoutD [OF assms]
  have "chain (c @ d) F free = chain c F free"
  proof (rule chain_cong)
    fix b assume b: "b \<in> set free"
    then have "b + block_bytes S \<le> length c" using room_in(2) [OF A(7)] by simp
    then show "u64_at (c @ d) b = u64_at c b" using block_bytes_bounds(1) by simp
  qed
  moreover have "u64_at (c @ d) (B + 8 * k) = dir ! k" if "k < D" for k using A(6,10) that by (subst u64_at_append) auto
  moreover have "room (block_bytes S) (length (c @ d)) B D (take N dir @ free)"
    using room_sub [OF A(7) subset_refl room_dir(3) [OF A(7)], of "length (c @ d)"] by simp
  ultimately show ?thesis using A hdr_append [OF A(1)] unfolding layout_def by (simp add: trans_le_add1)
qed

section \<open>Retiring the top block\<close>

lemma take_top: "0 < N \<Longrightarrow> N \<le> length dir \<Longrightarrow> take N dir = take (N - 1) dir @ [dir ! (N - 1)]"
  by (metis Suc_diff_1 less_eq_Suc_le take_Suc_conv_app_nth)

lemma block_base_law:
  assumes "ok m" "layout S (contents m) L H C B D N F dir free" "k < D"
  shows "block_base M m k = Some (dir ! k)" "dir_entry_addr M m k = Some (B + 8 * k)"
proof -
  note A = layoutD [OF assms(2)]
  have "add64 B (mul64 k 8) = B + 8 * k" using A(6) size_bound [OF assms(1)] assms(3) by (simp add: mul64_exact add64_exact mult.commute)
  then show "block_base M m k = Some (dir ! k)" "dir_entry_addr M m k = Some (B + 8 * k)"
    using assms(1,3) A(2,6,10,15) by (simp_all add: block_base_def dir_entry_addr_def)
qed

lemma retire_law:
  assumes "ok m" "layout S (contents m) L H C B D N F dir free" "0 < N" "C = N * slots_per_block S" "C < 2 ^ 64"
  shows "\<exists>m'. retire_top_block M m = Some m' \<and> ok m'
    \<and> layout S (contents m') L H ((N - 1) * slots_per_block S) B D (N - 1) (dir ! (N - 1)) dir (dir ! (N - 1) # free)
    \<and> same_blocks (take (N - 1) dir) (contents m) (contents m') \<and> length (contents m') = length (contents m)"
proof -
  let ?c = "contents m" and ?b = "dir ! (N - 1)" and ?C = "(N - 1) * slots_per_block S"
  note A = layoutD [OF assms(2)]
  have T: "take N dir @ free = take (N - 1) dir @ ?b # free" using take_top [OF assms(3), of dir] A(3,4) by simp
  note K = live_block [OF assms(2), of "N - 1"]
  have b: "128 \<le> ?b" "?b + block_bytes S \<le> length ?c" "?b + block_bytes S \<le> B \<or> B + 8 * D \<le> ?b" "?b \<in> set (take N dir @ free)"
    using K assms(3) by simp_all
  have dist: "distinct (take (N - 1) dir @ ?b # free)" using room_dir(3) [OF A(7)] T by simp
  have C: "?C \<le> C" unfolding assms(4) by (intro mult_le_mono1) simp
  have F: "F < 2 ^ 64" "N < 2 ^ 64" "?b < 2 ^ 63" using A(17,18) u64_at_less [of ?c 65] u64_at_less [of ?c 49] b(2) size_bound [OF assms(1)] by linarith+
  have away: "b + block_bytes S \<le> ?b \<or> ?b + block_bytes S \<le> b" if "b \<in> set (take (N - 1) dir @ free)" for b
    using room_apart [OF A(7) _ b(4), of b] that dist T by auto
  let ?c1 = "overwrite ?c ?b (to_le 8 F)"
  have l1: "layout S ?c1 L H C B D N F dir free"
  proof (rule layout_off_frame [OF assms(2)])
    show "128 \<le> ?b" "?b + length (to_le 8 F) \<le> length ?c" "?b + length (to_le 8 F) \<le> B \<or> B + 8 * D \<le> ?b"
      using b block_bytes_bounds(1) by auto
    show "b + 8 \<le> ?b \<or> ?b + length (to_le 8 F) \<le> b" if "b \<in> set free" for b using away [of b] that block_bytes_bounds(1) by auto
  qed
  let ?c2 = "overwrite ?c1 65 (to_le 8 ?b)" and ?m1 = "put m ?b (to_le 8 F)"
  let ?c3 = "overwrite ?c2 49 (to_le 8 (N - 1))" and ?m2 = "put ?m1 65 (to_le 8 ?b)"
  let ?c4 = "overwrite ?c3 25 (to_le 8 ?C)" and ?m3 = "put ?m2 49 (to_le 8 (N - 1))"
  let ?m4 = "put ?m3 25 (to_le 8 ?C)"
  have hd: "hdr S ?c4 L H ?C B D (N - 1) ?b"
    using hdr_set(3) [OF hdr_set(6) [OF hdr_set(7) [OF layoutD(1) [OF l1], of ?b], of "N - 1"], of ?C] F C assms(5) by simp
  have len: "length ?c1 = length ?c" "length ?c2 = length ?c" "length ?c3 = length ?c" "length ?c4 = length ?c"
    using A(2) b block_bytes_bounds(1) by simp_all
  have hs: "high_same ?c1 ?c4"
    using A(2) len by (intro high_trans [OF high_overwrite high_trans [OF high_overwrite high_overwrite]]) simp_all
  have m: "ok ?m1" "contents ?m1 = ?c1" "ok ?m2" "contents ?m2 = ?c2" "ok ?m3" "contents ?m3 = ?c3" "ok ?m4" "contents ?m4 = ?c4"
    using assms(1) A(2) b len block_bytes_bounds(1) by simp_all
  have ch: "chain ?c1 ?b (?b # free)" using layoutD(8) [OF l1] b block_bytes_bounds(1) F by (simp add: FREE_LIST_NIL_def)
  have rm: "room (block_bytes S) (length ?c1) B D (take (N - 1) dir @ ?b # free)" using A(7) T len by simp
  have lay: "layout S ?c4 L H ?C B D (N - 1) ?b dir (?b # free)"
    using layout_high [OF l1 hd hs _ rm ch] A(4) by simp
  have blocks: "128 \<le> b \<and> b + block_bytes S \<le> length ?c" if "b \<in> set (take (N - 1) dir)" for b
    using room_in(1,2) [OF A(7), of b] that unfolding T by auto
  have "same_blocks (take (N - 1) dir) ?c ?c1"
    using blocks away block_bytes_bounds(1) b(2) by (intro same_blocksI) (fastforce, simp)
  then have sb: "same_blocks (take (N - 1) dir) ?c ?c4"
    using high_same_blocks [OF hs, of "take (N - 1) dir"] blocks same_blocks_trans by blast
  have "u64_at ?c3 57 = slots_per_block S" using A(2,19) len b block_bytes_bounds(1) by simp
  moreover have "sub64 N 1 = N - 1" using assms(3) F(2) by (simp add: sub64_exact)
  moreover have "mul64 (N - 1) (slots_per_block S) = ?C" using C assms(5) by (simp add: mul64_exact)
  ultimately have "retire_top_block M m = Some ?m4"
    using assms(1,3) A(2,4,17,18) b m len block_base_law(1) [OF assms(1,2), of "N - 1"] block_bytes_bounds(1)
    by (simp add: retire_top_block_def)
  then show ?thesis using lay sb m len by auto
qed

end

end
