(* ===== verification/Deque_Growth.thy ===== *)
theory Deque_Growth
  imports Deque_Laws
begin

text \<open>
  Growing a full deque: the directory doubles, the ring is rebased by rotating the directory, a block is
  taken from the free list or from the end of memory, and the slots that still wrap move into it. The
  elements keep their order through every stage, and through an allocation that fails.
\<close>

lemma room_count:
  assumes "room n t B D bl"
  shows "length bl * n \<le> t"
proof -
  let ?I = "\<lambda>b. {b..<b + n}"
  have "card (\<Union>b\<in>set bl. ?I b) = (\<Sum>b\<in>set bl. card (?I b))"
  proof (rule card_UN_disjoint)
    show "\<forall>a\<in>set bl. \<forall>b\<in>set bl. a \<noteq> b \<longrightarrow> ?I a \<inter> ?I b = {}"
    proof (intro ballI impI)
      fix a b assume "a \<in> set bl" "b \<in> set bl" "a \<noteq> b"
      from room_apart [OF assms this] show "?I a \<inter> ?I b = {}" by auto
    qed
  qed simp_all
  also have "\<dots> = length bl * n" using distinct_card [OF room_dir(3) [OF assms]] by simp
  finally have "length bl * n = card (\<Union>b\<in>set bl. ?I b)" by simp
  also have "\<dots> \<le> card {..<t}"
  proof (rule card_mono)
    show "(\<Union>b\<in>set bl. ?I b) \<subseteq> {..<t}" using room_in(2) [OF assms] by force
  qed simp
  finally show ?thesis by simp
qed

lemma rotate_loop_law:
  assumes "length buf = 8 * num" "num + q < 2 ^ 64" "length rotated = 8 * num" "k + n = num"
  shows "length (rotate_loop num q buf k n rotated) = 8 * num \<and> (\<forall>j<num. u64_at (rotate_loop num q buf k n rotated) (8 * j)
    = (if k \<le> j then u64_at buf (8 * ((j + q) mod num)) else u64_at rotated (8 * j)))"
  using assms(3,4)
proof (induction n arbitrary: k rotated)
  case (Suc n)
  let ?src = "(k + q) mod num * 8"
  have k: "k < num" using Suc.prems by simp
  have a: "add64 k q = k + q" using k assms(2) by (intro add64_exact) simp
  have s: "(k + q) mod num < num" using k by simp
  then have w: "length (window buf ?src 8) = 8" using assms(1) by (intro length_window) simp
  let ?r = "overwrite rotated (k * 8) (window buf ?src 8)"
  have l: "length ?r = 8 * num" using Suc.prems(1) w k by (subst length_overwrite) simp_all
  have "u64_at ?r (8 * k) = u64_at buf (8 * ((k + q) mod num))"
    using u64_at_inside [of "k * 8" "window buf ?src 8" rotated 0] u64_at_window [of 0 8 ?src buf] w k s Suc.prems(1) assms(1)
    by (simp add: mult.commute)
  moreover have "u64_at ?r (8 * j) = u64_at rotated (8 * j)" if "j < k" for j using w k Suc.prems(1) that by (intro u64_at_other) auto
  ultimately show ?case using Suc.IH [of ?r "Suc k"] l Suc.prems by (auto simp: a not_less_eq_eq le_less_Suc_eq)
qed simp_all

context stable_deque
begin

lemma cap_bound:
  assumes "ok m" "layout S (contents m) L H C B D N F dir free"
  shows "N * block_bytes S \<le> length (contents m)" "N * slots_per_block S < 2 ^ 63"
proof -
  note A = layoutD [OF assms(2)]
  have "length (take N dir @ free) * block_bytes S \<le> length (contents m)" by (rule room_count [OF A(7)])
  moreover have "N * block_bytes S \<le> length (take N dir @ free) * block_bytes S" using A(3,4) by (intro mult_le_mono1) simp
  ultimately show l: "N * block_bytes S \<le> length (contents m)" by (rule order.trans [rotated])
  have "slots_per_block S \<le> block_bytes S" using slot_size_pos by (simp add: block_bytes_def)
  then have "N * slots_per_block S \<le> N * block_bytes S" by (rule mult_le_mono2)
  then show "N * slots_per_block S < 2 ^ 63" using l size_bound [OF assms(1)] by linarith
qed

section \<open>Doubling the directory\<close>

lemma double_law:
  assumes "ok m" "layout S (contents m) L H C B D N F dir free"
  shows "(\<exists>e. double_directory M m = Some (m, Inl e))
    \<or> (\<exists>m'. double_directory M m = Some (m', Inr ()) \<and> ok m'
        \<and> layout S (contents m') L H C (length (contents m)) (2 * D) N F (dir @ replicate D 0) free
        \<and> same_blocks (take N dir) (contents m) (contents m') \<and> length (contents m) \<le> length (contents m'))"
proof -
  let ?c = "contents m" and ?e = "length (contents m)"
  note A = layoutD [OF assms(2)]
  have sz: "?e < 2 ^ 63" by (rule size_bound [OF assms(1)])
  have D: "mul64 D 2 = 2 * D" "mul64 (2 * D) 8 = 16 * D" "mul64 D 8 = 8 * D" using A(6) sz by (simp_all add: mul64_exact)
  show ?thesis
  proof (cases "\<exists>e. alloc_at_end M m (16 * D) = Some (m, Inl e)")
    case True
    then show ?thesis using assms(1) A(2,15,16) D by (auto simp: double_directory_def and_then_def)
  next
    case False
    then obtain m1 where m1: "alloc_at_end M m (16 * D) = Some (m1, Inr ?e)" "ok m1"
      "contents m1 = ?c @ replicate (div_ceil (16 * D) 65536 * 65536) 0"
      using alloc_law [OF assms(1), of "16 * D"] by blast
    let ?z = "div_ceil (16 * D) 65536 * 65536"
    let ?c1 = "?c @ replicate ?z 0" and ?buf = "window ?c B (8 * D)"
    have z: "16 * D \<le> ?z" by (rule div_ceil_mult) simp
    have rd: "mem_read M m1 B (8 * D) = Some ?buf" using m1(2,3) A(6) by (simp add: read_law window_append)
    have lb: "length ?buf = 8 * D" using A(6) by simp
    have wr: "?e + length ?buf \<le> length ?c1" using lb z by simp
    let ?c2 = "overwrite ?c1 ?e ?buf" and ?m2 = "put m1 ?e ?buf"
    let ?c3 = "overwrite ?c2 33 (to_le 8 ?e)" and ?m3 = "put ?m2 33 (to_le 8 ?e)"
    let ?c4 = "overwrite ?c3 41 (to_le 8 (2 * D))" and ?m4 = "put ?m3 41 (to_le 8 (2 * D))"
    have len: "length ?c2 = length ?c1" "length ?c3 = length ?c1" "length ?c4 = length ?c1" using wr A(2) by simp_all
    have m: "ok ?m2" "contents ?m2 = ?c2" "ok ?m3" "contents ?m3 = ?c3" "ok ?m4" "contents ?m4 = ?c4"
      using m1(2,3) wr len A(2) by simp_all
    have l1: "layout S ?c1 L H C B D N F dir free" by (rule layout_append [OF assms(2)])
    have l2: "layout S ?c2 L H C B D N F dir free"
    proof (rule layout_off_frame [OF l1])
      show "128 \<le> ?e" "?e + length ?buf \<le> length ?c1" "?e + length ?buf \<le> B \<or> B + 8 * D \<le> ?e" using A(2,6) wr by simp_all
      show "b + 8 \<le> ?e \<or> ?e + length ?buf \<le> b" if "b \<in> set free" for b using room_in(2) [OF A(7), of b] that block_bytes_bounds(1) by simp
    qed
    note A2 = layoutD [OF l2]
    have hd: "hdr S ?c4 L H C ?e (2 * D) N F"
      using hdr_set(5) [OF hdr_set(4) [OF A2(1), of ?e], of "2 * D"] sz A(6) by simp
    have hs: "high_same ?c2 ?c4" using A(2) len by (intro high_trans [OF high_overwrite high_overwrite]) simp_all
    have entry: "u64_at ?c4 (?e + 8 * k) = (dir @ replicate D 0) ! k" if k: "k < 2 * D" for k
    proof -
      have "u64_at ?c4 (?e + 8 * k) = u64_at ?c2 (?e + 8 * k)" using high_same_u64 [OF hs] A(2) by simp
      also have "\<dots> = (dir @ replicate D 0) ! k"
      proof (cases "k < D")
        case True
        then have "u64_at ?c2 (?e + 8 * k) = u64_at ?c (B + 8 * k)"
          using u64_at_inside [OF wr, of "8 * k"] lb A(6) u64_at_window [of "8 * k" "8 * D" B ?c] by simp
        then show ?thesis using True A(3,10) by (simp add: nth_append)
      next
        case False
        then have "u64_at ?c2 (?e + 8 * k) = u64_at ?c1 (?e + 8 * k)" using wr lb z k by (intro u64_at_other) auto
        then show ?thesis using False k A(3) by (simp add: u64_at_append_right u64_at_zero nth_append)
      qed
      finally show ?thesis .
    qed
    have "room (block_bytes S) (length ?c4) ?e (2 * D) (take N dir @ free)"
    proof (rule roomI)
      show "128 \<le> ?e" "?e + 8 * (2 * D) \<le> length ?c4" "distinct (take N dir @ free)"
        using A(2) len z room_dir(3) [OF A(7)] by simp_all
      show "128 \<le> b \<and> b + block_bytes S \<le> length ?c4 \<and> (b + block_bytes S \<le> ?e \<or> ?e + 8 * (2 * D) \<le> b)"
        if "b \<in> set (take N dir @ free)" for b using room_in(1,2) [OF A(7) that] len by simp
      show "a + block_bytes S \<le> b \<or> b + block_bytes S \<le> a" if "a \<in> set (take N dir @ free)" "b \<in> set (take N dir @ free)" "a \<noteq> b" for a b
        using room_apart [OF A(7) that] .
    qed
    moreover have "chain ?c4 F free"
      using A2(8) chain_cong [of free ?c4 ?c2 F] high_same_u64 [OF hs] room_in(1) [OF A(7)] by simp
    moreover have "e \<le> length ?c4" if "e \<in> set (dir @ replicate D 0)" for e using that A(11) [of e] len by auto
    ultimately have lay: "layout S ?c4 L H C ?e (2 * D) N F (dir @ replicate D 0) free"
      using hd A(3,4,9) entry power_of_two_double [OF A(9)] unfolding layout_def by simp
    have inb: "128 \<le> b \<and> b + block_bytes S \<le> ?e" if "b \<in> set (take N dir)" for b using room_in(1,2) [OF A(7), of b] that by simp
    have "same_blocks (take N dir) ?c ?c1" using inb by (intro same_blocks_append) simp
    moreover have "same_blocks (take N dir) ?c1 ?c2" using wr inb by (intro same_blocksI) (auto dest!: inb)
    moreover have "same_blocks (take N dir) ?c2 ?c4" using inb by (intro high_same_blocks [OF hs]) simp
    ultimately have sb: "same_blocks (take N dir) ?c ?c4" using same_blocks_trans by blast
    have "double_directory M m = Some (?m4, Inr ())"
      using assms(1) A(2,15,16) D m1 rd wr m len by (simp add: double_directory_def and_then_def)
    then show ?thesis using m lay sb len by auto
  qed
qed

section \<open>Rebasing the ring\<close>

lemma rotated_position:
  fixes N s q p :: nat
  assumes "0 < s"
  shows "(p + q * s) mod (N * s) div s = (p div s + q) mod N" "(p + q * s) mod (N * s) mod s = p mod s"
proof -
  have e: "(p + q * s) mod (N * s) = s * ((p div s + q) mod N) + p mod s"
    using mod_mult2_eq [of "p + q * s" s N] assms by (simp add: mult.commute add.commute)
  have "p mod s < s" using assms by simp
  then show "(p + q * s) mod (N * s) div s = (p div s + q) mod N" "(p + q * s) mod (N * s) mod s = p mod s"
    unfolding e using assms by simp_all
qed

lemma addr_rotated:
  assumes "p < N * slots_per_block S" "N \<le> length dir"
  shows "addr S (rotate q (take N dir) @ drop N dir) p = addr S dir ((p + q * slots_per_block S) mod (N * slots_per_block S))"
proof -
  have k: "p div slots_per_block S < N" by (rule pos_block [OF assms(1)])
  then have "(p div slots_per_block S + q) mod N < N" by simp
  then show ?thesis using k assms(2) rotated_position [OF slots_per_block_pos, of p q N]
    by (simp add: addr_def nth_append nth_rotate add.commute)
qed

lemma rotate_law:
  assumes "ok m" "layout S (contents m) L H C B D N F dir free" "q < N"
  shows "\<exists>m'. rotate_directory M m q = Some m' \<and> ok m' \<and> length (contents m') = length (contents m)
    \<and> layout S (contents m') L H C B D N F (rotate q (take N dir) @ drop N dir) free \<and> same_blocks (take N dir) (contents m) (contents m')"
proof -
  let ?c = "contents m" and ?dir = "rotate q (take N dir) @ drop N dir"
  note A = layoutD [OF assms(2)]
  have bd: "B + 8 * N \<le> length ?c" "length ?c < 2 ^ 63" using A(4,6) size_bound [OF assms(1)] by linarith+
  let ?buf = "window ?c B (8 * N)"
  let ?rot = "rotate_loop N q ?buf 0 N ?buf"
  have lb: "length ?buf = 8 * N" using bd by simp
  have R: "length ?rot = 8 * N" "\<And>j. j < N \<Longrightarrow> u64_at ?rot (8 * j) = u64_at ?buf (8 * ((j + q) mod N))"
    using rotate_loop_law [OF lb _ lb, of q 0 N] bd assms(3) by auto
  have wr: "B + length ?rot \<le> length ?c" using R(1) bd by simp
  let ?c1 = "overwrite ?c B ?rot"
  have len: "length ?c1 = length ?c" using wr by simp
  have entry: "u64_at ?c1 (B + 8 * k) = ?dir ! k" if k: "k < D" for k
  proof (cases "k < N")
    case True
    then have "(k + q) mod N < N" by simp
    have "u64_at ?c1 (B + 8 * k) = u64_at ?buf (8 * ((k + q) mod N))" using u64_at_inside [OF wr, of "8 * k"] R True by simp
    also have "\<dots> = u64_at ?c (B + 8 * ((k + q) mod N))" using u64_at_window [of "8 * ((k + q) mod N)" "8 * N" B ?c] bd \<open>(k + q) mod N < N\<close> by simp
    also have "\<dots> = dir ! ((k + q) mod N)" using A(4,10) \<open>(k + q) mod N < N\<close> by simp
    finally show ?thesis using True A(3,4) by (simp add: nth_append nth_rotate add.commute)
  next
    case False
    then have "u64_at ?c1 (B + 8 * k) = u64_at ?c (B + 8 * k)" using wr R(1) k A(6) by (intro u64_at_other) auto
    then show ?thesis using False k A(3,4,10) by (simp add: nth_append)
  qed
  have dst: "distinct (take N dir @ free)" by (rule room_dir(3) [OF A(7)])
  have tk: "take N ?dir = rotate q (take N dir)" using A(3,4) by simp
  have rm: "room (block_bytes S) (length ?c1) B D (take N ?dir @ free)"
    unfolding tk using dst len by (intro room_sub [OF A(7)]) auto
  have "chain ?c1 F free = chain ?c F free"
  proof (rule chain_cong)
    fix b assume "b \<in> set free"
    then show "u64_at ?c1 b = u64_at ?c b"
      using room_in(2,3) [OF A(7), of b] wr R(1) A(4) block_bytes_bounds(1) by (intro u64_at_other) auto
  qed
  moreover have "e \<le> length ?c1" if "e \<in> set ?dir" for e
    using that A(11) [of e] len by (auto dest: in_set_takeD in_set_dropD)
  ultimately have lay: "layout S ?c1 L H C B D N F ?dir free"
    using hdr_frame [OF A(1,5) wr] A(3,4,8,9) entry rm unfolding layout_def by simp
  have "b + block_bytes S \<le> length ?c \<and> (b + block_bytes S \<le> B \<or> B + length ?rot \<le> b)" if "b \<in> set (take N dir)" for b
    using room_in(2,3) [OF A(7), of b] that R(1) A(4) by auto
  then have sb: "same_blocks (take N dir) ?c ?c1" using wr by (intro same_blocksI) simp_all
  have "mul64 N 8 = 8 * N" using bd by (simp add: mul64_exact)
  then have "rotate_directory M m q = Some (put m B ?rot)"
    using assms(1) A(2,15,17) bd wr by (simp add: rotate_directory_def read_law)
  then show ?thesis using assms(1) wr lay sb len by simp
qed

lemma rebase_law:
  assumes "ok m" "layout S (contents m) L H (N * slots_per_block S) B D N F dir free" "H < N * slots_per_block S \<or> H = 0"
    "elems S (contents m) dir (N * slots_per_block S) H xs" "length xs \<le> N * slots_per_block S"
  shows "\<exists>m' dir'. rebase M m (H div slots_per_block S) (H mod slots_per_block S) = Some m' \<and> ok m'
    \<and> layout S (contents m') L (H mod slots_per_block S) (N * slots_per_block S) B D N F dir' free
    \<and> elems S (contents m') dir' (N * slots_per_block S) (H mod slots_per_block S) xs"
proof (cases "H div slots_per_block S = 0")
  case True
  then have "H mod slots_per_block S = H" using slots_per_block_pos by (simp add: div_eq_0_iff)
  then show ?thesis using assms True by (auto simp: rebase_def)
next
  case False
  let ?s = "slots_per_block S" and ?C = "N * slots_per_block S" and ?q = "H div slots_per_block S" and ?h = "H mod slots_per_block S"
  let ?dir = "rotate ?q (take N dir) @ drop N dir"
  note A = layoutD [OF assms(2)]
  have H: "H < ?C" using assms(3) False by auto
  obtain m1 where m1: "rotate_directory M m ?q = Some m1" "ok m1" "length (contents m1) = length (contents m)"
    "layout S (contents m1) L H ?C B D N F ?dir free" "same_blocks (take N dir) (contents m) (contents m1)"
    using rotate_law [OF assms(1,2) pos_block [OF H]] by blast
  have "?h \<le> H" by simp
  then have h64: "?h < 2 ^ 64" using A(13) u64_at_less [of "contents m" 17] by linarith
  let ?c = "overwrite (contents m1) 17 (to_le 8 ?h)"
  have l2: "layout S ?c L ?h ?C B D N F ?dir free" by (rule layout_set(2) [OF m1(4) h64])
  have A1: "128 \<le> length (contents m1)" using layoutD(2) [OF m1(4)] .
  have tk: "take N ?dir = rotate ?q (take N dir)" using A(3,4) by simp
  have e1: "elems S (contents m1) dir ?C H xs" using elems_same [OF assms(2) m1(5) _ assms(4,5)] m1(3) by simp
  have "elems S (contents m1) ?dir ?C ?h xs"
    unfolding elems_def
  proof (intro allI impI)
    fix i assume i: "i < length xs"
    have "0 < ?C" using H by linarith
    then have p: "(?h + i) mod ?C < ?C" by simp
    have "((?h + i) mod ?C + ?q * ?s) mod ?C = (?h + i + ?q * ?s) mod ?C" by (rule mod_add_left_eq)
    also have "?h + i + ?q * ?s = H + i" using div_mult_mod_eq [of H ?s] by simp
    finally show "slot_at S (contents m1) (addr S ?dir ((?h + i) mod ?C)) (xs ! i)"
      using addr_rotated [OF p, of dir ?q] A(3,4) e1 i by (simp add: elems_def)
  qed
  moreover have "same_blocks (take N ?dir) (contents m1) ?c"
  proof (rule high_same_blocks [OF high_overwrite])
    show "128 \<le> b" if "b \<in> set (take N ?dir)" for b using room_in(1) [OF layoutD(7) [OF m1(4)], of b] that by auto
  qed (use A1 in simp_all)
  ultimately have e2: "elems S ?c ?dir ?C ?h xs" using elems_same [OF m1(4) _ _ _ assms(5)] A1 by simp
  have "rebase M m ?q ?h = Some (put m1 17 (to_le 8 ?h))" using False m1(1,2) A1 by (simp add: rebase_def)
  then show ?thesis using m1(2) A1 l2 e2 by auto
qed

section \<open>Acquiring and publishing a block\<close>

lemma acquire_law:
  assumes "ok m" "layout S (contents m) L H C B D N F dir free"
  shows "(\<exists>e. acquire_block M S m (slots_per_block S) = Some (m, Inl e))
    \<or> (\<exists>m' base F' free'. acquire_block M S m (slots_per_block S) = Some (m', Inr base) \<and> ok m'
        \<and> layout S (contents m') L H C B D N F' dir free' \<and> room (block_bytes S) (length (contents m')) B D (take N dir @ base # free')
        \<and> same_blocks (take N dir) (contents m) (contents m') \<and> length (contents m) \<le> length (contents m'))"
proof -
  let ?c = "contents m"
  note A = layoutD [OF assms(2)]
  have inb: "128 \<le> b \<and> b + block_bytes S \<le> length ?c" if "b \<in> set (take N dir @ free)" for b using room_in(1,2) [OF A(7) that] by simp
  show ?thesis
  proof (cases free)
    case (Cons b free')
    then have F: "F = b" "F \<noteq> FREE_LIST_NIL" "chain ?c (u64_at ?c b) free'" using A(8) by simp_all
    have b: "b + 8 \<le> length ?c" using inb [of b] Cons block_bytes_bounds(1) by simp
    let ?c1 = "overwrite ?c 65 (to_le 8 (u64_at ?c b))"
    have hs: "high_same ?c ?c1" using A(2) by (intro high_overwrite) simp_all
    have rm: "room (block_bytes S) (length ?c) B D (take N dir @ b # free')" using A(7) Cons by simp
    have "layout S ?c1 L H C B D N (u64_at ?c b) dir free'"
    proof (rule layout_high [OF assms(2) hdr_set(7) [OF A(1) u64_at_less] hs A(4) _ F(3)])
      show "room (block_bytes S) (length ?c) B D (take N dir @ free')"
        using room_dir(3) [OF rm] by (intro room_sub [OF rm]) auto
    qed
    moreover have "same_blocks (take N dir) ?c ?c1" using inb by (intro high_same_blocks [OF hs]) simp
    moreover have "acquire_block M S m (slots_per_block S) = Some (put m 65 (to_le 8 (u64_at ?c b)), Inr b)"
      using assms(1) A(2,18) F b by (simp add: acquire_block_def)
    ultimately show ?thesis using assms(1) A(2) rm by (intro disjI2) (fastforce simp del: length_append)
  next
    case Nil
    then have F: "F = FREE_LIST_NIL" using A(8) by simp
    have mb: "mul64 (slots_per_block S) (slot_size S) = block_bytes S" using block_bytes_bounds(2) by (simp add: mul64_exact block_bytes_def)
    have acq: "acquire_block M S m (slots_per_block S) = alloc_at_end M m (block_bytes S)"
      using assms(1) A(2,18) F mb by (simp add: acquire_block_def)
    show ?thesis
    proof (cases "\<exists>e. alloc_at_end M m (block_bytes S) = Some (m, Inl e)")
      case False
      let ?e = "length ?c" and ?z = "div_ceil (block_bytes S) 65536 * 65536"
      obtain m1 where m1: "alloc_at_end M m (block_bytes S) = Some (m1, Inr ?e)" "ok m1" "contents m1 = ?c @ replicate ?z 0"
        using alloc_law [OF assms(1), of "block_bytes S"] False by blast
      have z: "block_bytes S \<le> ?z" by (rule div_ceil_mult) simp
      have new: "?e \<notin> set (take N dir)" using inb [of ?e] block_bytes_bounds(1) by force
      have "room (block_bytes S) (length (contents m1)) B D (take N dir @ [?e])"
      proof (rule roomI)
        show "128 \<le> B" "B + 8 * D \<le> length (contents m1)" "distinct (take N dir @ [?e])"
          using A(5,6) m1(3) new room_dir(3) [OF A(7)] by simp_all
        show "128 \<le> b \<and> b + block_bytes S \<le> length (contents m1) \<and> (b + block_bytes S \<le> B \<or> B + 8 * D \<le> b)"
          if "b \<in> set (take N dir @ [?e])" for b
          using that inb [of b] room_in(3) [OF A(7), of b] A(2,6) m1(3) z by auto
        show "a + block_bytes S \<le> b \<or> b + block_bytes S \<le> a" if "a \<in> set (take N dir @ [?e])" "b \<in> set (take N dir @ [?e])" "a \<noteq> b" for a b
          using that inb [of a] inb [of b] room_apart [OF A(7), of a b] by auto
      qed
      moreover have "layout S (contents m1) L H C B D N F dir []" using layout_append [OF assms(2)] m1(3) Nil by simp
      moreover have "same_blocks (take N dir) ?c (contents m1)" using m1(3) inb by (simp add: same_blocks_append)
      ultimately show ?thesis using acq m1 by (intro disjI2) fastforce
    qed (use acq in simp)
  qed
qed

text \<open>
  Publishing writes the directory entry, copies the first \<open>r\<close> slots of block 0 into the new block and
  then makes the block part of the ring.
\<close>

lemma publish_law:
  assumes "ok m" "layout S (contents m) L H (N * slots_per_block S) B D N F dir free" "N < D"
    "room (block_bytes S) (length (contents m)) B D (take N dir @ base # free)" "r < slots_per_block S" "r \<noteq> 0 \<Longrightarrow> 0 < N"
  shows "\<exists>m'. publish_block M S m N (slots_per_block S) r base = Some m' \<and> ok m' \<and> length (contents m') = length (contents m)
    \<and> layout S (contents m') L H (Suc N * slots_per_block S) B D (Suc N) F (dir[N := base]) free
    \<and> same_blocks (take N dir) (contents m) (contents m')
    \<and> (0 < N \<longrightarrow> window (contents m') base (r * slot_size S) = window (contents m) (dir ! 0) (r * slot_size S))"
proof -
  let ?c = "contents m" and ?s = "slots_per_block S" and ?n = "r * slot_size S" and ?dir = "dir[N := base]"
  note A = layoutD [OF assms(2)]
  have sz: "length ?c < 2 ^ 63" by (rule size_bound [OF assms(1)])
  have n: "?n \<le> block_bytes S" using assms(5) by (simp add: block_bytes_def)
  have base: "128 \<le> base" "base + block_bytes S \<le> length ?c" "base + block_bytes S \<le> B \<or> B + 8 * D \<le> base"
    using room_in [OF assms(4), of base] by simp_all
  have others: "b + block_bytes S \<le> base \<or> base + block_bytes S \<le> b" "b + block_bytes S \<le> length ?c" "128 \<le> b"
      "b + block_bytes S \<le> B \<or> B + 8 * D \<le> b" if "b \<in> set (take N dir) \<union> set free" for b
  proof -
    have "b \<noteq> base" using room_dir(3) [OF assms(4)] that by auto
    then show "b + block_bytes S \<le> base \<or> base + block_bytes S \<le> b" using room_apart [OF assms(4), of b base] that by auto
    show "b + block_bytes S \<le> length ?c" "128 \<le> b" "b + block_bytes S \<le> B \<or> B + 8 * D \<le> b"
      using room_in [OF A(7), of b] that by auto
  qed
  have cap: "Suc N * ?s < 2 ^ 63"
  proof -
    have "length (take N dir @ base # free) * block_bytes S \<le> length ?c" by (rule room_count [OF assms(4)])
    moreover have "Suc N * block_bytes S \<le> length (take N dir @ base # free) * block_bytes S" using A(3) assms(3) by (intro mult_le_mono1) simp
    moreover have "?s \<le> block_bytes S" using slot_size_pos by (simp add: block_bytes_def)
    then have "Suc N * ?s \<le> Suc N * block_bytes S" by (rule mult_le_mono2)
    ultimately show ?thesis using sz by linarith
  qed
  have b64: "base < 2 ^ 64" using base(2) sz by simp
  let ?a = "B + 8 * N"
  let ?c1 = "overwrite ?c ?a (to_le 8 base)" and ?m1 = "put m ?a (to_le 8 base)"
  have wr1: "?a + 8 \<le> length ?c" using A(6) assms(3) by linarith
  have len1: "length ?c1 = length ?c" using wr1 by simp
  have e1: "u64_at ?c1 (B + 8 * k) = ?dir ! k" if "k < D" for k
  proof (cases "k = N")
    case False
    then have "u64_at ?c1 (B + 8 * k) = u64_at ?c (B + 8 * k)" using wr1 that A(6) by (intro u64_at_other) auto
    then show ?thesis using False that A(10) by simp
  qed (use wr1 b64 A(3) assms(3) in simp)
  have c1: "chain ?c1 F free"
  proof -
    have "u64_at ?c1 b = u64_at ?c b" if "b \<in> set free" for b
      using others(2,4) [of b] that wr1 assms(3) block_bytes_bounds(1) by (intro u64_at_other) auto
    then show ?thesis using A(8) chain_cong [of free ?c1 ?c F] by simp
  qed
  have i1: "e \<le> length ?c1" if "e \<in> set ?dir" for e
    using that set_update_subset_insert [of dir N base] A(11) [of e] base(2) len1 by auto
  have l1: "layout S ?c1 L H (N * ?s) B D N F ?dir free"
    using hdr_frame [OF A(1), of ?a "to_le 8 base"] A(3-5,7,9) wr1 e1 c1 i1 len1 unfolding layout_def by simp
  let ?buf = "window ?c1 (dir ! 0) ?n"
  let ?c2 = "if r = 0 then ?c1 else overwrite ?c1 base ?buf" and ?m2 = "if r = 0 then ?m1 else put ?m1 base ?buf"
  have zero: "dir ! 0 \<in> set (take N dir)" if "0 < N"
    using that A(3) assms(3) by (metis hd_conv_nth hd_in_set hd_take length_greater_0_conv less_trans take_eq_Nil neq0_conv)
  have d0: "dir ! 0 + ?n \<le> length ?c1" if "r \<noteq> 0" using others(2) [of "dir ! 0"] zero assms(6) that n len1 by simp
  have lbuf: "length ?buf = ?n" if "r \<noteq> 0" using d0 that by simp
  have l2: "layout S ?c2 L H (N * ?s) B D N F ?dir free \<and> length ?c2 = length ?c \<and> same_blocks (take N dir) ?c1 ?c2"
  proof (cases "r = 0")
    case False
    have "layout S (overwrite ?c1 base ?buf) L H (N * ?s) B D N F ?dir free"
    proof (rule layout_off_frame [OF l1 base(1)])
      show "base + length ?buf \<le> length ?c1" "base + length ?buf \<le> B \<or> B + 8 * D \<le> base" using lbuf False base n len1 by auto
      show "b + 8 \<le> base \<or> base + length ?buf \<le> b" if "b \<in> set free" for b
        using others(1) [of b] that lbuf False n block_bytes_bounds(1) by auto
    qed
    moreover have "same_blocks (take N dir) ?c1 (overwrite ?c1 base ?buf)"
      using others(1,2) lbuf False n len1 base(2) by (intro same_blocksI) (fastforce, simp)
    ultimately show ?thesis using False lbuf len1 base(2) n by simp
  qed (use l1 len1 in \<open>simp add: same_blocks_def\<close>)
  have m: "ok ?m1" "contents ?m1 = ?c1" "ok ?m2" "contents ?m2 = ?c2"
    using assms(1) wr1 lbuf base(2) n len1 by auto
  let ?c3 = "overwrite ?c2 49 (to_le 8 (Suc N))" and ?m3 = "put ?m2 49 (to_le 8 (Suc N))"
  let ?c4 = "overwrite ?c3 25 (to_le 8 (Suc N * ?s))" and ?m4 = "put ?m3 25 (to_le 8 (Suc N * ?s))"
  have c2: "128 \<le> length ?c2" using l2 A(2) by simp
  have m': "ok ?m3" "contents ?m3 = ?c3" "ok ?m4" "contents ?m4 = ?c4" using m c2 by simp_all
  have hs: "high_same ?c2 ?c4" using c2 by (intro high_trans [OF high_overwrite high_overwrite]) simp_all
  have N64: "Suc N < 2 ^ 64" using assms(3) A(6) sz by simp
  have hd: "hdr S ?c4 L H (Suc N * ?s) B D (Suc N) F"
    using hdr_set(3) [OF hdr_set(6) [OF layoutD(1) [OF conjunct1 [OF l2]], of "Suc N"], of "Suc N * ?s"] N64 cap by simp
  have tk: "take (Suc N) ?dir = take N dir @ [base]" using A(3) assms(3) by (simp add: take_Suc_conv_app_nth)
  have rm: "room (block_bytes S) (length ?c2) B D (take (Suc N) ?dir @ free)" unfolding tk using assms(4) l2 by simp
  have lay: "layout S ?c4 L H (Suc N * ?s) B D (Suc N) F ?dir free"
    using layout_high [OF conjunct1 [OF l2] hd hs _ rm] layoutD(8) [OF conjunct1 [OF l2]] assms(3) by simp
  have "same_blocks (take N dir) ?c ?c1" using others(2,4) wr1 assms(3) by (intro same_blocksI) (fastforce, simp)
  moreover have "same_blocks (take N dir) ?c2 ?c4" using others(3) by (intro high_same_blocks [OF hs]) simp
  ultimately have sb: "same_blocks (take N dir) ?c ?c4" using l2 same_blocks_trans by blast
  have copy: "window ?c4 base ?n = window ?c (dir ! 0) ?n" if "0 < N"
  proof (cases "r = 0")
    case False
    have "window ?c4 base ?n = window ?c2 base ?n" using high_same_window [OF hs base(1)] .
    also have "\<dots> = ?buf" using window_overwrite_same [of base ?buf ?c1] False lbuf base(2) n len1 by simp
    also have "\<dots> = window ?c (dir ! 0) ?n"
      using others(4) [of "dir ! 0"] zero that d0 False len1 wr1 assms(3) n by (intro window_overwrite_disjoint) auto
    finally show ?thesis .
  qed (simp add: window_def)
  have arith: "mul64 r (slot_size S) = ?n" "add64 N 1 = Suc N" "mul64 (Suc N) ?s = Suc N * ?s"
    using n block_bytes_bounds(2) N64 cap by (simp_all add: mul64_exact add64_exact)
  have s1: "write_dir_entry M m N base = Some ?m1"
    using block_base_law(2) [OF assms(1,2,3)] assms(1) wr1 by (simp add: write_dir_entry_def)
  have s2: "(if r \<noteq> 0 then do { b0 \<leftarrow> block_base M ?m1 0; buf \<leftarrow> mem_read M ?m1 b0 ?n; mem_write M ?m1 base buf } else Some ?m1) = Some ?m2"
  proof (cases "r = 0")
    case False
    have "block_base M ?m1 0 = Some (dir ! 0)"
      using block_base_law(1) [OF m(1), of L H "N * ?s" B D N F ?dir free 0] m(2) l1 assms(3) assms(6) [OF False] by simp
    moreover have "mem_read M ?m1 (dir ! 0) ?n = Some ?buf" using read_law [OF m(1)] d0 [OF False] m(2) by simp
    moreover have "mem_write M ?m1 base ?buf = Some (put ?m1 base ?buf)"
      using m(1,2) lbuf [OF False] base(2) n len1 by (intro put_law(1)) simp_all
    ultimately show ?thesis using False by simp
  qed simp
  have s3: "set_num_blocks M ?m2 (Suc N) = Some ?m3" using c2 m(4) by (intro fields(14) [OF m(3)]) simp
  have s4: "set_virt_cap M ?m3 (Suc N * ?s) = Some ?m4" using c2 m'(2) by (intro fields(11) [OF m'(1)]) simp
  have "publish_block M S m N ?s r base = Some ?m4"
    unfolding publish_block_def s1 arith bind.bind_lunit s2 s3 s4 ..
  then show ?thesis using m' lay sb copy l2 c2 by auto
qed

section \<open>Growth\<close>

text \<open>A ring with its head in the first block, one more block and the wrapped slots copied.\<close>

lemma elems_published:
  assumes "elems S c dir (N * slots_per_block S) r xs" "length xs = N * slots_per_block S" "r < slots_per_block S"
    "layout S c L H C B D N F dir free" "N < length dir" "same_blocks (take N dir) c c'" "length c' = length c"
    "0 < N \<Longrightarrow> window c' base (r * slot_size S) = window c (dir ! 0) (r * slot_size S)" "base + block_bytes S \<le> length c"
  shows "elems S c' (dir[N := base]) (Suc N * slots_per_block S) r xs"
  unfolding elems_def
proof (intro allI impI)
  let ?s = "slots_per_block S"
  fix i assume i: "i < length xs"
  have N: "0 < N" using i assms(2) by (cases N) simp_all
  have lt: "r + i < Suc N * ?s" using i assms(2,3) by simp
  have e': "elems S c' dir (N * ?s) r xs" using elems_same [OF assms(4,6) _ assms(1)] assms(2,7) by simp
  show "slot_at S c' (addr S (dir[N := base]) ((r + i) mod (Suc N * ?s))) (xs ! i)"
  proof (cases "r + i < N * ?s")
    case True
    then have "addr S (dir[N := base]) (r + i) = addr S dir (r + i)" using pos_block [of "r + i" N] by (simp add: addr_def)
    moreover have "slot_at S c' (addr S dir ((r + i) mod (N * ?s))) (xs ! i)" using e' i by (simp add: elems_def)
    ultimately show ?thesis using True lt by simp
  next
    case False
    define j where "j = r + i - N * ?s"
    have j: "r + i = N * ?s + j" "j < r" using False i assms(2) by (simp_all add: j_def)
    have js: "j < ?s" "N * ?s + j < Suc N * ?s" using j assms(3) by simp_all
    have "?s \<le> N * ?s" using N by simp
    then have "j < N * ?s" using js(1) by linarith
    then have md: "(r + i) mod (N * ?s) = j" unfolding j(1) by simp
    have "slot_at S c (addr S dir ((r + i) mod (N * ?s))) (xs ! i)" using assms(1) i by (simp add: elems_def)
    then have old: "slot_at S c (dir ! 0 + j * slot_size S) (xs ! i)" unfolding md using js(1) by (simp add: addr_def)
    have new: "addr S (dir[N := base]) (N * ?s + j) = base + j * slot_size S"
      using js assms(5) by (simp add: addr_def)
    have jr: "j * slot_size S + slot_size S \<le> r * slot_size S" using mult_le_mono1 [of "Suc j" r "slot_size S"] j(2) by simp
    have rb: "r * slot_size S \<le> block_bytes S" using assms(3) by (simp add: block_bytes_def)
    have n: "j * slot_size S + length (encoded S (xs ! i)) \<le> r * slot_size S" using jr encoded_length [of "xs ! i"] by simp
    have "window c' (base + j * slot_size S) (length (encoded S (xs ! i))) = window (window c' base (r * slot_size S)) (j * slot_size S) (length (encoded S (xs ! i)))"
      using n rb assms(7,9) by (intro window_window [symmetric]) auto
    also have "\<dots> = window (window c (dir ! 0) (r * slot_size S)) (j * slot_size S) (length (encoded S (xs ! i)))" using assms(8) N by simp
    also have "\<dots> = window c (dir ! 0 + j * slot_size S) (length (encoded S (xs ! i)))"
      using n rb live_block(3) [OF assms(4) N] by (intro window_window) auto
    finally show ?thesis using old new j js by (simp add: slot_at_def)
  qed
qed

lemma dq_okI:
  assumes "layout S c (length xs) H (N * slots_per_block S) B D N F dir free" "length xs \<le> N * slots_per_block S"
    "xs = [] \<Longrightarrow> H = 0" "xs \<noteq> [] \<Longrightarrow> H < N * slots_per_block S" "elems S c dir (N * slots_per_block S) H xs"
  shows "dq_ok S c xs"
  unfolding dq_ok_def using assms by (intro exI conjI) auto

lemma dq_okE:
  assumes "dq_ok S c xs"
  obtains H B D N F dir free where "layout S c (length xs) H (N * slots_per_block S) B D N F dir free" "length xs \<le> N * slots_per_block S"
    "xs = [] \<Longrightarrow> H = 0" "xs \<noteq> [] \<Longrightarrow> H < N * slots_per_block S" "elems S c dir (N * slots_per_block S) H xs"
  using assms unfolding dq_ok_def by (elim exE conjE) (auto split: if_splits)

lemma acquire_publish_law:
  assumes "ok m" "layout S (contents m) (length xs) r (N * slots_per_block S) B D N F dir free" "N < D" "r < slots_per_block S"
    "r \<noteq> 0 \<Longrightarrow> 0 < N" "length xs = N * slots_per_block S" "elems S (contents m) dir (N * slots_per_block S) r xs"
    "xs = [] \<Longrightarrow> r = 0"
  shows "(\<exists>e. acquire_block M S m (slots_per_block S) = Some (m, Inl e))
    \<or> (\<exists>m1 base m'. acquire_block M S m (slots_per_block S) = Some (m1, Inr base) \<and> publish_block M S m1 N (slots_per_block S) r base = Some m'
        \<and> ok m' \<and> dq_ok S (contents m') xs \<and> length xs < u64_at (contents m') 25)"
proof (cases "\<exists>e. acquire_block M S m (slots_per_block S) = Some (m, Inl e)")
  case False
  let ?s = "slots_per_block S"
  obtain m1 base F1 free1 where m1: "acquire_block M S m ?s = Some (m1, Inr base)" "ok m1"
    "layout S (contents m1) (length xs) r (N * ?s) B D N F1 dir free1"
    "room (block_bytes S) (length (contents m1)) B D (take N dir @ base # free1)"
    "same_blocks (take N dir) (contents m) (contents m1)" "length (contents m) \<le> length (contents m1)"
    using acquire_law [OF assms(1,2)] False by blast
  have e1: "elems S (contents m1) dir (N * ?s) r xs" using elems_same [OF assms(2) m1(5,6) assms(7)] assms(6) by simp
  obtain m2 where m2: "publish_block M S m1 N ?s r base = Some m2" "ok m2" "length (contents m2) = length (contents m1)"
    "layout S (contents m2) (length xs) r (Suc N * ?s) B D (Suc N) F1 (dir[N := base]) free1"
    "same_blocks (take N dir) (contents m1) (contents m2)"
    "0 < N \<longrightarrow> window (contents m2) base (r * slot_size S) = window (contents m1) (dir ! 0) (r * slot_size S)"
    using publish_law [OF m1(2,3) assms(3) m1(4) assms(4,5)] by blast
  have base: "base + block_bytes S \<le> length (contents m1)" using room_in(2) [OF m1(4), of base] by simp
  have "elems S (contents m2) (dir[N := base]) (Suc N * ?s) r xs"
    using elems_published [OF e1 assms(6,4) m1(3) _ m2(5,3) _ base] m2(6) layoutD(3) [OF assms(2)] assms(3) by simp
  moreover have "r < Suc N * ?s" using assms(4) by simp
  ultimately have "dq_ok S (contents m2) xs" using assms(6,8) by (intro dq_okI [OF m2(4)]) simp_all
  moreover have "length xs < u64_at (contents m2) 25" using layoutD(14) [OF m2(4)] assms(6) slots_per_block_pos by simp
  ultimately show ?thesis using m1(1) m2(1,2) by blast
qed blast

lemma grow_law:
  assumes "ok m" "dq_ok S (contents m) xs" "u64_at (contents m) 25 = length xs"
  shows "\<exists>m' r. grow_for_push M S m = Some (m', r) \<and> ok m' \<and> dq_ok S (contents m') xs
    \<and> (r = Inr () \<longrightarrow> length xs < u64_at (contents m') 25)"
proof -
  let ?s = "slots_per_block S" and ?c = "contents m"
  obtain H B D N F dir free where d: "layout S ?c (length xs) H (N * ?s) B D N F dir free" "length xs \<le> N * ?s"
    "xs = [] \<Longrightarrow> H = 0" "xs \<noteq> [] \<Longrightarrow> H < N * ?s" "elems S ?c dir (N * ?s) H xs"
    using dq_okE [OF assms(2)] by metis
  note A = layoutD [OF d(1)]
  have full: "length xs = N * ?s" using A(14) assms(3) by simp
  have H: "H < N * ?s \<or> H = 0" using d(3,4) by auto
  let ?q = "H div ?s" and ?r = "H mod ?s"
  have r: "?r < ?s" "?r \<noteq> 0 \<Longrightarrow> 0 < N" "xs = [] \<Longrightarrow> ?r = 0" using slots_per_block_pos H d(3) by (simp, cases N, auto)
  have start: "grow_for_push M S m = and_then (if N = D then double_directory M m else Some (m, Inr ())) (\<lambda>m _. do {
       m \<leftarrow> rebase M m ?q ?r;
       and_then (acquire_block M S m ?s) (\<lambda>m base. do {
         m \<leftarrow> publish_block M S m N ?s ?r base;
         Some (m, Inr ()) }) })"
    using assms(1) A(2,13,16,17,19) slots_per_block_pos by (simp add: grow_for_push_def Let_def)
  have rest: ?thesis
    if m1: "(if N = D then double_directory M m else Some (m, Inr ())) = Some (m1, Inr ())" "ok m1"
      and l1: "layout S (contents m1) (length xs) H (N * ?s) B1 D1 N F dir1 free" "N < D1" "elems S (contents m1) dir1 (N * ?s) H xs" for m1 B1 D1 dir1
  proof -
    obtain m2 dir2 where m2: "rebase M m1 ?q ?r = Some m2" "ok m2" "layout S (contents m2) (length xs) ?r (N * ?s) B1 D1 N F dir2 free"
      "elems S (contents m2) dir2 (N * ?s) ?r xs"
      using rebase_law [OF m1(2) l1(1) H l1(3) d(2)] by blast
    have g: "grow_for_push M S m = and_then (acquire_block M S m2 ?s) (\<lambda>m base. do { m \<leftarrow> publish_block M S m N ?s ?r base; Some (m, Inr ()) })"
      unfolding start m1(1) and_then_def using m2(1) by simp
    have "dq_ok S (contents m2) xs"
    proof (rule dq_okI [OF m2(3) d(2)])
      show "?r < N * ?s" if "xs \<noteq> []" using d(4) [OF that] mod_less_eq_dividend [of H ?s] by linarith
    qed (use r(3) m2(4) in simp_all)
    then show ?thesis using acquire_publish_law [OF m2(2,3) l1(2) r(1,2) full m2(4) r(3)] m2(2) unfolding g
      by (auto simp: and_then_def)
  qed
  show ?thesis
  proof (cases "N = D")
    case True
    from double_law [OF assms(1) d(1)] show ?thesis
    proof (elim disjE exE conjE)
      fix e assume "double_directory M m = Some (m, Inl e)"
      then show ?thesis using start True assms(1,2) by (simp add: and_then_def)
    next
      fix m1 assume m1: "double_directory M m = Some (m1, Inr ())" "ok m1"
        "layout S (contents m1) (length xs) H (N * ?s) (length ?c) (2 * D) N F (dir @ replicate D 0) free"
        "same_blocks (take N dir) ?c (contents m1)" "length ?c \<le> length (contents m1)"
      have D: "0 < D" by (rule power_of_two_pos [OF A(9)])
      have "elems S (contents m1) dir (N * ?s) H xs" by (rule elems_same [OF d(1) m1(4,5) d(5,2)])
      moreover have "addr S (dir @ replicate D 0) p = addr S dir p" if "p < N * ?s" for p
        using pos_block [OF that] A(3,4) by (simp add: addr_def nth_append)
      moreover have "(H + i) mod (N * ?s) < N * ?s" if "i < length xs" for i using that d(2) by (intro mod_less_divisor) linarith
      ultimately have "elems S (contents m1) (dir @ replicate D 0) (N * ?s) H xs" unfolding elems_def by simp
      then show ?thesis using rest [of m1 "length ?c" "2 * D" "dir @ replicate D 0"] m1(1-3) True D by simp
    qed
  next
    case False
    then show ?thesis using rest [of m B D dir] assms(1) d(1,5) A(4) by simp
  qed
qed

end

end
