(* ===== verification/Deque_Operations.thy ===== *)
theory Deque_Operations
  imports Deque_Growth
begin

text \<open>
  Every operation of the deque against the list it holds: creation, reopening, access by index, pushes and
  pops at both ends, and iteration.
\<close>

lemma ring_inject:
  fixes H C :: nat
  assumes "(H + i) mod C = (H + j) mod C" "i < C" "j < C"
  shows "i = j"
  using mod_eq_close [of "H + i" C "H + j" "C - 1"] assms by linarith

context stable_deque
begin

section \<open>Access to one slot\<close>

lemma slot_at_high: "high_same c c' \<Longrightarrow> 128 \<le> a \<Longrightarrow> slot_at S c' a x = slot_at S c a x"
  by (simp add: slot_at_def high_same_window)

lemma elems_high:
  assumes "layout S c L H C B D N F dir free" "high_same c c'" "length xs \<le> N * slots_per_block S"
  shows "elems S c' dir (N * slots_per_block S) H' xs = elems S c dir (N * slots_per_block S) H' xs"
  unfolding elems_def
proof (intro all_cong)
  fix i assume "i < length xs"
  then have "(H' + i) mod (N * slots_per_block S) < N * slots_per_block S" using assms(3) by (intro mod_less_divisor) linarith
  from addr_bounds(1) [OF assms(1) this] show "slot_at S c' (addr S dir ((H' + i) mod (N * slots_per_block S))) (xs ! i)
      = slot_at S c (addr S dir ((H' + i) mod (N * slots_per_block S))) (xs ! i)"
    by (rule slot_at_high [OF assms(2)])
qed

lemma write_elem_law:
  assumes "ok m" "layout S (contents m) L H C B D N F dir free" "p < N * slots_per_block S"
  shows "\<exists>m'. write_slot M S m (addr S dir p) x = Some (m', Inr ()) \<and> ok m' \<and> layout S (contents m') L H C B D N F dir free
    \<and> slot_at S (contents m') (addr S dir p) x
    \<and> (\<forall>q<N * slots_per_block S. q \<noteq> p \<longrightarrow> (\<forall>y. slot_at S (contents m') (addr S dir q) y = slot_at S (contents m) (addr S dir q) y))"
proof -
  let ?c = "contents m" and ?a = "addr S dir p" and ?e = "encoded S x"
  note A = layoutD [OF assms(2)] and P = addr_bounds [OF assms(2,3)] and K = live_block [OF assms(2) pos_block [OF assms(3)]]
  have e: "length ?e \<le> slot_size S" by (rule encoded_length)
  obtain m' where m': "write_slot M S m ?a x = Some (m', Inr ())" "ok m'" "contents m' = overwrite ?c ?a ?e"
    using write_slot_law [OF assms(1) P(2)] by blast
  let ?b = "dir ! (p div slots_per_block S)"
  have inb: "?b \<le> ?a" "?a + length ?e \<le> ?b + block_bytes S" using addr_in_block [of dir p] e by linarith+
  have "?b \<notin> set free" using K(1) room_dir(3) [OF A(7)] pos_block [OF assms(3)] A(3,4)
    by (metis disjoint_iff distinct_append length_take min.absorb2 nth_mem nth_take)
  then have away: "f + block_bytes S \<le> ?b \<or> ?b + block_bytes S \<le> f" if "f \<in> set free" for f
    using room_apart [OF A(7) _ K(1), of f] that by auto
  have "layout S (contents m') L H C B D N F dir free"
    unfolding m'(3)
  proof (rule layout_off_frame [OF assms(2) P(1)])
    show "?a + length ?e \<le> length ?c" "?a + length ?e \<le> B \<or> B + 8 * D \<le> ?a" using P(2) e inb K(4) by linarith+
    show "f + 8 \<le> ?a \<or> ?a + length ?e \<le> f" if "f \<in> set free" for f using away [OF that] inb block_bytes_bounds(1) by linarith
  qed
  moreover have "slot_at S (contents m') ?a x" using P e by (simp add: slot_at_def m'(3) window_overwrite_same)
  moreover have "slot_at S (contents m') (addr S dir q) y = slot_at S ?c (addr S dir q) y" if "q < N * slots_per_block S" "q \<noteq> p" for q y
  proof -
    have "addr S dir q + slot_size S \<le> ?a \<or> ?a + slot_size S \<le> addr S dir q" by (rule addr_apart [OF assms(2) that(1) assms(3) that(2)])
    then show ?thesis using P e encoded_length [of y] addr_bounds(2) [OF assms(2) that(1)]
      unfolding slot_at_def m'(3) by (subst window_overwrite_disjoint) auto
  qed
  ultimately show ?thesis using m'(1,2) by blast
qed

lemma virtual_index_law:
  assumes "ok m" "layout S (contents m) L H (N * slots_per_block S) B D N F dir free" "H < N * slots_per_block S" "i < N * slots_per_block S"
  shows "virtual_index M m i = Some ((H + i) mod (N * slots_per_block S))"
proof -
  have "add64 H i = H + i" using cap_bound(2) [OF assms(1,2)] assms(3,4) by (intro add64_exact) simp
  moreover have "N * slots_per_block S \<noteq> 0" using assms(3) by linarith
  ultimately show ?thesis using assms(1) layoutD(2,13,14) [OF assms(2)] by (simp add: virtual_index_def del: mult_eq_0_iff)
qed

lemma len_law: "ok m \<Longrightarrow> dq_ok S (contents m) xs \<Longrightarrow> deque_len M m = Some (length xs)"
proof -
  assume m: "ok m" and d: "dq_ok S (contents m) xs"
  show ?thesis by (rule dq_okE [OF d]) (use m layoutD(2,12) in simp)
qed

lemma routed_law:
  assumes "ok m" "dq_ok S (contents m) xs" "i < length xs"
  shows "\<exists>r a. virtual_index M m i = Some r \<and> slot_addr M S m r = Some a \<and> a + slot_size S \<le> length (contents m)
    \<and> slot_at S (contents m) a (xs ! i)"
proof -
  obtain H B D N F dir free where d: "layout S (contents m) (length xs) H (N * slots_per_block S) B D N F dir free" "length xs \<le> N * slots_per_block S"
    "xs = [] \<Longrightarrow> H = 0" "xs \<noteq> [] \<Longrightarrow> H < N * slots_per_block S" "elems S (contents m) dir (N * slots_per_block S) H xs"
    using dq_okE [OF assms(2)] by metis
  have "xs \<noteq> []" using assms(3) by auto
  then have H: "H < N * slots_per_block S" "i < N * slots_per_block S" using d(2) d(4) assms(3) by simp_all
  let ?r = "(H + i) mod (N * slots_per_block S)"
  have r: "?r < N * slots_per_block S" using H by (intro mod_less_divisor) linarith
  have "slot_at S (contents m) (addr S dir ?r) (xs ! i)" using d(5) assms(3) by (simp add: elems_def)
  then show ?thesis
    using virtual_index_law [OF assms(1) d(1) H] slot_addr_law [OF assms(1) d(1) r] addr_bounds(2) [OF d(1) r] by blast
qed

lemma get_law:
  assumes "ok m" "dq_ok S (contents m) xs"
  shows "deque_get M S m i = Some (if i < length xs then Some (xs ! i) else None)"
proof (cases "i < length xs")
  case True
  then show ?thesis using routed_law [OF assms True] read_slot_law [OF assms(1)] len_law [OF assms] by (auto simp: deque_get_def)
qed (use len_law [OF assms] in \<open>simp add: deque_get_def\<close>)

lemma set_law:
  assumes "ok m" "dq_ok S (contents m) xs"
  shows "i < length xs \<Longrightarrow> \<exists>m'. deque_set M S m i x = Some m' \<and> ok m' \<and> dq_ok S (contents m') (xs[i := x])"
    "\<not> i < length xs \<Longrightarrow> deque_set M S m i x = None"
proof -
  assume i: "i < length xs"
  obtain H B D N F dir free where d: "layout S (contents m) (length xs) H (N * slots_per_block S) B D N F dir free" "length xs \<le> N * slots_per_block S"
    "xs = [] \<Longrightarrow> H = 0" "xs \<noteq> [] \<Longrightarrow> H < N * slots_per_block S" "elems S (contents m) dir (N * slots_per_block S) H xs"
    using dq_okE [OF assms(2)] by metis
  let ?C = "N * slots_per_block S"
  have "xs \<noteq> []" using i by auto
  then have H: "H < ?C" "i < ?C" using d(2) d(4) i by simp_all
  have r: "(H + j) mod ?C < ?C" for j using H by (intro mod_less_divisor) linarith
  obtain m' where m': "write_slot M S m (addr S dir ((H + i) mod ?C)) x = Some (m', Inr ())" "ok m'"
    "layout S (contents m') (length xs) H ?C B D N F dir free" "slot_at S (contents m') (addr S dir ((H + i) mod ?C)) x"
    "\<forall>q<?C. q \<noteq> (H + i) mod ?C \<longrightarrow> (\<forall>y. slot_at S (contents m') (addr S dir q) y = slot_at S (contents m) (addr S dir q) y)"
    using write_elem_law [OF assms(1) d(1) r] by blast
  have "elems S (contents m') dir ?C H (xs[i := x])"
    unfolding elems_def
  proof (intro allI impI)
    fix j assume j: "j < length (xs[i := x])"
    show "slot_at S (contents m') (addr S dir ((H + j) mod ?C)) (xs[i := x] ! j)"
    proof (cases "j = i")
      case False
      then have "(H + j) mod ?C \<noteq> (H + i) mod ?C" using ring_inject [of H j ?C i] j H d(2) by auto
      then show ?thesis using m'(5) r [of j] False d(5) j by (simp add: elems_def)
    qed (use m'(4) j in simp)
  qed
  then have "dq_ok S (contents m') (xs[i := x])" using m'(3) d(2,3) H by (intro dq_okI [of _ "xs[i := x]" H N B D F dir free]) auto
  moreover have "deque_set M S m i x = Some m'"
    using len_law [OF assms] i virtual_index_law [OF assms(1) d(1) H] slot_addr_law [OF assms(1) d(1) r] m'(1) by (simp add: deque_set_def)
  ultimately show "\<exists>m'. deque_set M S m i x = Some m' \<and> ok m' \<and> dq_ok S (contents m') (xs[i := x])" using m'(2) by blast
qed (use len_law [OF assms] in \<open>simp add: deque_set_def\<close>)

section \<open>Pushing\<close>

text \<open>Both pushes write a slot outside the ring window and then move one end of the window over it.\<close>

lemma push_elem_law:
  assumes "ok m" "layout S (contents m) (length xs) H (N * slots_per_block S) B D N F dir free" "length xs < N * slots_per_block S"
    "elems S (contents m) dir (N * slots_per_block S) H xs" "p < N * slots_per_block S" "\<And>i. i < length xs \<Longrightarrow> (H + i) mod (N * slots_per_block S) \<noteq> p"
  shows "\<exists>m'. write_slot M S m (addr S dir p) x = Some (m', Inr ()) \<and> ok m' \<and> layout S (contents m') (length xs) H (N * slots_per_block S) B D N F dir free
    \<and> elems S (contents m') dir (N * slots_per_block S) H xs \<and> slot_at S (contents m') (addr S dir p) x"
proof -
  let ?C = "N * slots_per_block S"
  obtain m' where m': "write_slot M S m (addr S dir p) x = Some (m', Inr ())" "ok m'"
    "layout S (contents m') (length xs) H ?C B D N F dir free" "slot_at S (contents m') (addr S dir p) x"
    "\<forall>q<?C. q \<noteq> p \<longrightarrow> (\<forall>y. slot_at S (contents m') (addr S dir q) y = slot_at S (contents m) (addr S dir q) y)"
    using write_elem_law [OF assms(1,2,5)] by blast
  have "(H + i) mod ?C < ?C" for i using assms(5) by (intro mod_less_divisor) linarith
  then have "elems S (contents m') dir ?C H xs" using assms(4,6) m'(5) by (simp add: elems_def)
  then show ?thesis using m' by blast
qed

text \<open>After the optional growth there is a free position.\<close>

lemma prepared_law:
  assumes "ok m" "dq_ok S (contents m) xs"
  shows "\<exists>m' r. (if length xs = u64_at (contents m) 25 then grow_for_push M S m else Some (m, Inr ())) = Some (m', r) \<and> ok m'
    \<and> dq_ok S (contents m') xs \<and> (r = Inr () \<longrightarrow> length xs < u64_at (contents m') 25)"
proof (cases "length xs = u64_at (contents m) 25")
  case True
  then show ?thesis using grow_law [OF assms] by simp
next
  case False
  have "length xs \<le> u64_at (contents m) 25" by (rule dq_okE [OF assms(2)]) (use layoutD(14) in simp)
  then show ?thesis using False assms by auto
qed

lemma push_back_law:
  assumes "ok m" "dq_ok S (contents m) xs"
  shows "\<exists>m' r. push_back M S m x = Some (m', r) \<and> ok m' \<and> dq_ok S (contents m') (if r = Inr () then xs @ [x] else xs)
    \<and> (r = Inr () \<or> length xs = u64_at (contents m) 25 \<and> (\<exists>m1 e. grow_for_push M S m = Some (m1, Inl e)))"
proof -
  have c: "128 \<le> length (contents m)" by (rule dq_okE [OF assms(2)]) (use layoutD(2) in simp)
  have L: "u64_at (contents m) 4 = length xs" using len_law [OF assms] assms(1) c by simp
  obtain m1 r1 where g: "(if length xs = u64_at (contents m) 25 then grow_for_push M S m else Some (m, Inr ())) = Some (m1, r1)" "ok m1"
    "dq_ok S (contents m1) xs" "r1 = Inr () \<longrightarrow> length xs < u64_at (contents m1) 25"
    using prepared_law [OF assms] by blast
  show ?thesis
  proof (cases r1)
    case (Inl e)
    then have "length xs = u64_at (contents m) 25" "grow_for_push M S m = Some (m1, Inl e)" using g(1) by (simp_all split: if_splits)
    then show ?thesis using g assms(1) c L Inl by (simp add: push_back_def and_then_def)
  next
    case (Inr u)
    obtain H B D N F dir free where d: "layout S (contents m1) (length xs) H (N * slots_per_block S) B D N F dir free" "length xs \<le> N * slots_per_block S"
      "xs = [] \<Longrightarrow> H = 0" "xs \<noteq> [] \<Longrightarrow> H < N * slots_per_block S" "elems S (contents m1) dir (N * slots_per_block S) H xs"
      using dq_okE [OF g(3)] by metis
    let ?C = "N * slots_per_block S" and ?n = "length xs"
    note A = layoutD [OF d(1)]
    have n: "?n < ?C" using g(4) Inr A(14) by simp
    have H: "H < ?C" using d(3,4) n by (cases "xs = []") auto
    have C: "?C < 2 ^ 63" by (rule cap_bound(2) [OF g(2) d(1)])
    let ?p = "(H + ?n) mod ?C"
    have p: "?p < ?C" using H by (intro mod_less_divisor) linarith
    have fresh: "(H + i) mod ?C \<noteq> ?p" if i: "i < ?n" for i
    proof
      assume "(H + i) mod ?C = ?p"
      from ring_inject [OF this] show False using i n by simp
    qed
    obtain m2 where m2: "write_slot M S m1 (addr S dir ?p) x = Some (m2, Inr ())" "ok m2" "layout S (contents m2) ?n H ?C B D N F dir free"
      "elems S (contents m2) dir ?C H xs" "slot_at S (contents m2) (addr S dir ?p) x"
      using push_elem_law [OF g(2) d(1) n d(5) p fresh, of x] by blast
    let ?c = "overwrite (contents m2) 4 (to_le 8 (Suc ?n))"
    have c2: "128 \<le> length (contents m2)" by (rule layoutD(2) [OF m2(3)])
    have hs: "high_same (contents m2) ?c" using c2 by (intro high_overwrite) simp_all
    have l: "layout S ?c (Suc ?n) H ?C B D N F dir free" using n C by (intro layout_set(1) [OF m2(3)]) simp
    have "elems S (contents m2) dir ?C H (xs @ [x])" using m2(4,5) by (auto simp: elems_def nth_append less_Suc_eq)
    then have "elems S ?c dir ?C H (xs @ [x])" using elems_high [OF m2(3) hs, of "xs @ [x]"] n by simp
    then have "dq_ok S ?c (xs @ [x])" using l n H by (intro dq_okI [of _ "xs @ [x]" H N B D F dir free]) simp_all
    moreover have "push_back M S m x = Some (put m2 4 (to_le 8 (Suc ?n)), Inr ())"
    proof -
      have ar: "add64 H ?n = H + ?n" "add64 ?n 1 = Suc ?n" using C n H by (simp_all add: add64_exact)
      have nz: "?C \<noteq> 0" using n by linarith
      have "push_back M S m x = and_then (Some (m1, Inr ())) (\<lambda>m _. do {
           h \<leftarrow> head_off M m; cap \<leftarrow> virt_cap M m; guard (cap \<noteq> 0); a \<leftarrow> slot_addr M S m (add64 h ?n mod cap);
           and_then (write_slot M S m a x) (\<lambda>m _. do { m \<leftarrow> set_len M m (add64 ?n 1); Some (m, Inr ()) }) })"
        using g(1) Inr assms(1) c L by (simp add: push_back_def)
      then show ?thesis using g(2) A(2,13,14) nz ar slot_addr_law [OF g(2) d(1) p] m2(1,2) c2
        by (simp add: and_then_def del: mult_eq_0_iff)
    qed
    ultimately show ?thesis using m2(2) c2 by simp
  qed
qed

lemma push_front_law:
  assumes "ok m" "dq_ok S (contents m) xs"
  shows "\<exists>m' r. push_front M S m x = Some (m', r) \<and> ok m' \<and> dq_ok S (contents m') (if r = Inr () then x # xs else xs)"
proof -
  have c: "128 \<le> length (contents m)" by (rule dq_okE [OF assms(2)]) (use layoutD(2) in simp)
  have L: "u64_at (contents m) 4 = length xs" using len_law [OF assms] assms(1) c by simp
  obtain m1 r1 where g: "(if length xs = u64_at (contents m) 25 then grow_for_push M S m else Some (m, Inr ())) = Some (m1, r1)" "ok m1"
    "dq_ok S (contents m1) xs" "r1 = Inr () \<longrightarrow> length xs < u64_at (contents m1) 25"
    using prepared_law [OF assms] by blast
  show ?thesis
  proof (cases r1)
    case (Inl e)
    then show ?thesis using g assms(1) c L by (simp add: push_front_def and_then_def)
  next
    case (Inr u)
    obtain H B D N F dir free where d: "layout S (contents m1) (length xs) H (N * slots_per_block S) B D N F dir free" "length xs \<le> N * slots_per_block S"
      "xs = [] \<Longrightarrow> H = 0" "xs \<noteq> [] \<Longrightarrow> H < N * slots_per_block S" "elems S (contents m1) dir (N * slots_per_block S) H xs"
      using dq_okE [OF g(3)] by metis
    let ?C = "N * slots_per_block S" and ?n = "length xs"
    note A = layoutD [OF d(1)]
    have n: "?n < ?C" using g(4) Inr A(14) by simp
    have H: "H < ?C" using d(3,4) n by (cases "xs = []") auto
    have C: "?C < 2 ^ 63" by (rule cap_bound(2) [OF g(2) d(1)])
    let ?p = "(H + ?C - 1) mod ?C"
    have p: "?p < ?C" using H by (intro mod_less_divisor) linarith
    have step: "(?p + Suc i) mod ?C = (H + i) mod ?C" for i
    proof -
      have "(?p + Suc i) mod ?C = (H + ?C - 1 + Suc i) mod ?C" by (rule mod_add_left_eq)
      also have "H + ?C - 1 + Suc i = H + i + ?C" using n by simp
      finally show ?thesis by simp
    qed
    have fresh: "(H + i) mod ?C \<noteq> ?p" if i: "i < ?n" for i
    proof
      assume e: "(H + i) mod ?C = ?p"
      have "(?p + Suc i) mod ?C = (?p + 0) mod ?C" unfolding step e using p by simp
      moreover have "Suc i < ?C" "0 < ?C" using i n by linarith+
      ultimately show False using ring_inject [of ?p "Suc i" ?C 0] by blast
    qed
    obtain m2 where m2: "write_slot M S m1 (addr S dir ?p) x = Some (m2, Inr ())" "ok m2" "layout S (contents m2) ?n H ?C B D N F dir free"
      "elems S (contents m2) dir ?C H xs" "slot_at S (contents m2) (addr S dir ?p) x"
      using push_elem_law [OF g(2) d(1) n d(5) p fresh, of x] by blast
    let ?c3 = "overwrite (contents m2) 17 (to_le 8 ?p)"
    let ?c = "overwrite ?c3 4 (to_le 8 (Suc ?n))"
    have c2: "128 \<le> length (contents m2)" "128 \<le> length ?c3" using layoutD(2) [OF m2(3)] by simp_all
    have hs: "high_same (contents m2) ?c" using c2 by (intro high_trans [OF high_overwrite high_overwrite]) simp_all
    have "layout S ?c3 ?n ?p ?C B D N F dir free" using p C by (intro layout_set(2) [OF m2(3)]) simp
    then have l: "layout S ?c (Suc ?n) ?p ?C B D N F dir free" using n C by (intro layout_set(1)) simp_all
    have "elems S (contents m2) dir ?C ?p (x # xs)"
      unfolding elems_def
    proof (intro allI impI)
      fix i assume "i < length (x # xs)"
      then show "slot_at S (contents m2) (addr S dir ((?p + i) mod ?C)) ((x # xs) ! i)"
        using m2(4,5) p step by (cases i) (simp_all add: elems_def)
    qed
    then have "elems S ?c dir ?C ?p (x # xs)" using elems_high [OF m2(3) hs, of "x # xs"] n by simp
    then have "dq_ok S ?c (x # xs)" using l n p by (intro dq_okI [of _ "x # xs" ?p N B D F dir free]) simp_all
    moreover have "push_front M S m x = Some (put (put m2 17 (to_le 8 ?p)) 4 (to_le 8 (Suc ?n)), Inr ())"
    proof -
      have ar: "add64 H ?C = H + ?C" "sub64 (H + ?C) 1 = H + ?C - 1" "add64 ?n 1 = Suc ?n" using C n H by (simp_all add: add64_exact sub64_exact)
      have nz: "?C \<noteq> 0" using n by linarith
      have "push_front M S m x = and_then (Some (m1, Inr ())) (\<lambda>m _. do {
           cap \<leftarrow> virt_cap M m; h \<leftarrow> head_off M m; guard (cap \<noteq> 0); let h' = sub64 (add64 h cap) 1 mod cap; a \<leftarrow> slot_addr M S m h';
           and_then (write_slot M S m a x) (\<lambda>m _. do { m \<leftarrow> set_head_off M m h'; m \<leftarrow> set_len M m (add64 ?n 1); Some (m, Inr ()) }) })"
        using g(1) Inr assms(1) c L by (simp add: push_front_def)
      then show ?thesis using g(2) A(2,13,14) nz ar slot_addr_law [OF g(2) d(1) p] m2(1,2) c2
        by (simp add: and_then_def Let_def del: mult_eq_0_iff)
    qed
    ultimately show ?thesis using m2(2) c2 by simp
  qed
qed

section \<open>Popping\<close>

lemma slot_same:
  assumes "layout S c L H C B D N F dir free" "same_blocks (take N dir) c0 c" "length c = length c0" "p < N * slots_per_block S"
  shows "slot_at S c (addr S dir p) x = slot_at S c0 (addr S dir p) x"
proof -
  let ?b = "dir ! (p div slots_per_block S)"
  have "?b \<in> set (take N dir)"
    using pos_block [OF assms(4)] layoutD(3,4) [OF assms(1)] by (metis length_take min.absorb2 nth_mem nth_take)
  then have "window c ?b (block_bytes S) = window c0 ?b (block_bytes S)" using assms(2) by (simp add: same_blocks_def)
  then show ?thesis
    using slot_at_window [of c ?b c0 "addr S dir p"] live_block(3) [OF assms(1) pos_block [OF assms(4)]] assms(3) addr_in_block [of dir p] by simp
qed

text \<open>Retiring the top block of a window that lies below it.\<close>

lemma retire_elems_law:
  assumes "ok m" "layout S (contents m) (length ys) H (N * slots_per_block S) B D N F dir free" "0 < N"
    "elems S (contents m) dir (N * slots_per_block S) h ys" "h + length ys \<le> (N - 1) * slots_per_block S"
  shows "\<exists>m'. retire_top_block M m = Some m' \<and> ok m' \<and> 128 \<le> length (contents m')
    \<and> layout S (contents m') (length ys) H ((N - 1) * slots_per_block S) B D (N - 1) (dir ! (N - 1)) dir (dir ! (N - 1) # free)
    \<and> elems S (contents m') dir ((N - 1) * slots_per_block S) h ys"
proof -
  let ?C = "N * slots_per_block S" and ?C' = "(N - 1) * slots_per_block S"
  have "?C < 2 ^ 63" by (rule cap_bound(2) [OF assms(1,2)])
  then have C: "?C < 2 ^ 64" by simp
  have le: "?C' \<le> ?C" by (intro mult_le_mono1) simp
  obtain m' where m': "retire_top_block M m = Some m'" "ok m'"
    "layout S (contents m') (length ys) H ?C' B D (N - 1) (dir ! (N - 1)) dir (dir ! (N - 1) # free)"
    "same_blocks (take (N - 1) dir) (contents m) (contents m')" "length (contents m') = length (contents m)"
    using retire_law [OF assms(1,2,3) refl C] by blast
  have "elems S (contents m') dir ?C' h ys"
    unfolding elems_def
  proof (intro allI impI)
    fix i assume i: "i < length ys"
    have hi: "h + i < ?C'" "h + i < ?C" using assms(5) le i by linarith+
    have "slot_at S (contents m) (addr S dir ((h + i) mod ?C)) (ys ! i)" using assms(4) i by (simp add: elems_def)
    then show "slot_at S (contents m') (addr S dir ((h + i) mod ?C')) (ys ! i)"
      using slot_same [OF m'(3-5) hi(1)] hi by simp
  qed
  then show ?thesis using m' layoutD(2) [OF m'(3)] by blast
qed

text \<open>Both pops first shorten the length.\<close>

lemma shorten_law:
  assumes "ok m" "layout S (contents m) n H (N * slots_per_block S) B D N F dir free" "k < 2 ^ 64"
  shows "ok (put m 4 (to_le 8 k))" "layout S (contents (put m 4 (to_le 8 k))) k H (N * slots_per_block S) B D N F dir free"
    "128 \<le> length (contents (put m 4 (to_le 8 k)))"
    "length ys \<le> N * slots_per_block S \<Longrightarrow> elems S (contents (put m 4 (to_le 8 k))) dir (N * slots_per_block S) h ys
      = elems S (contents m) dir (N * slots_per_block S) h ys"
proof -
  have c: "128 \<le> length (contents m)" by (rule layoutD(2) [OF assms(2)])
  then show "ok (put m 4 (to_le 8 k))" "layout S (contents (put m 4 (to_le 8 k))) k H (N * slots_per_block S) B D N F dir free"
    "128 \<le> length (contents (put m 4 (to_le 8 k)))" using assms(1) layout_set(1) [OF assms(2,3)] by simp_all
  show "elems S (contents (put m 4 (to_le 8 k))) dir (N * slots_per_block S) h ys = elems S (contents m) dir (N * slots_per_block S) h ys"
    if "length ys \<le> N * slots_per_block S"
    using elems_high [OF assms(2) high_overwrite that, of 4 "to_le 8 k"] assms(1) c by simp
qed

lemma set_head_law:
  assumes "ok m" "layout S (contents m) (length ys) H (N * slots_per_block S) B D N F dir free" "length ys \<le> N * slots_per_block S"
    "elems S (contents m) dir (N * slots_per_block S) h ys" "ys = [] \<Longrightarrow> h = 0" "ys \<noteq> [] \<Longrightarrow> h < N * slots_per_block S"
  shows "set_head_off M m h = Some (put m 17 (to_le 8 h))" "ok (put m 17 (to_le 8 h))" "dq_ok S (contents (put m 17 (to_le 8 h))) ys"
proof -
  have c: "128 \<le> length (contents m)" by (rule layoutD(2) [OF assms(2)])
  have h: "h < 2 ^ 64" using assms(5,6) cap_bound(2) [OF assms(1,2)] by (cases "ys = []") auto
  let ?c = "overwrite (contents m) 17 (to_le 8 h)"
  have "layout S ?c (length ys) h (N * slots_per_block S) B D N F dir free" by (rule layout_set(2) [OF assms(2) h])
  moreover have "elems S ?c dir (N * slots_per_block S) h ys" using elems_high [OF assms(2) high_overwrite assms(3), of 17 "to_le 8 h"] c assms(4) by simp
  ultimately have "dq_ok S ?c ys" using assms(3,5,6) by (intro dq_okI)
  then show "set_head_off M m h = Some (put m 17 (to_le 8 h))" "ok (put m 17 (to_le 8 h))" "dq_ok S (contents (put m 17 (to_le 8 h))) ys"
    using assms(1) c by simp_all
qed

lemma pop_back_law:
  assumes "ok m" "dq_ok S (contents m) (ys @ [y])"
  shows "\<exists>m'. pop_back M S m = Some (Some y, m') \<and> ok m' \<and> dq_ok S (contents m') ys"
proof -
  let ?n = "length ys" and ?s = "slots_per_block S"
  obtain H B D N F dir free where d: "layout S (contents m) (length (ys @ [y])) H (N * ?s) B D N F dir free" "length (ys @ [y]) \<le> N * ?s"
    "ys @ [y] = [] \<Longrightarrow> H = 0" "ys @ [y] \<noteq> [] \<Longrightarrow> H < N * ?s" "elems S (contents m) dir (N * ?s) H (ys @ [y])"
    using dq_okE [OF assms(2)] by metis
  let ?C = "N * ?s"
  note A = layoutD [OF d(1)]
  have n: "?n < ?C" "H < ?C" "?C < 2 ^ 63" using d(2,4) cap_bound(2) [OF assms(1) d(1)] by simp_all
  have N: "0 < N" "N < 2 ^ 64" using n(1) A(17) u64_at_less [of "contents m" 49] by (cases N, simp_all)
  let ?p = "(H + ?n) mod ?C"
  have p: "?p < ?C" using n by (intro mod_less_divisor) linarith
  have el: "slot_at S (contents m) (addr S dir ((H + i) mod ?C)) ((ys @ [y]) ! i)" if "i < Suc ?n" for i using d(5) that by (simp add: elems_def)
  have val: "read_slot M S m (addr S dir ?p) = Some y" using el [of ?n] read_slot_law [OF assms(1) addr_bounds(2) [OF d(1) p]] by simp
  let ?m1 = "put m 4 (to_le 8 ?n)"
  have n64: "?n < 2 ^ 64" using n by simp
  note m1 = shorten_law [OF assms(1) d(1) n64]
  have e1: "elems S (contents ?m1) dir ?C H ys"
    unfolding m1(4) [OF less_imp_le [OF n(1)]] unfolding elems_def
  proof (intro allI impI)
    show "slot_at S (contents m) (addr S dir ((H + i) mod ?C)) (ys ! i)" if "i < ?n" for i using el [of i] that by (simp add: nth_append)
  qed
  have f1: "num_blocks M ?m1 = Some N" "head_off M ?m1 = Some H" using m1(1,3) layoutD(13,17) [OF m1(2)] by simp_all
  have ar: "add64 H (Suc ?n) = Suc (H + ?n)" "sub64 (Suc (H + ?n)) 1 = H + ?n" "sub64 N 1 = N - 1" "mul64 (N - 1) ?s = (N - 1) * ?s"
    "add64 H ?n = H + ?n" "add64 (?p div ?s) 1 = Suc (?p div ?s)"
  proof -
    have "(N - 1) * ?s \<le> ?C" by (intro mult_le_mono1) simp
    then have a: "(N - 1) * ?s < 2 ^ 63" using n(3) by linarith
    have "?p div ?s \<le> ?p" by (rule div_le_dividend)
    then have b: "?p div ?s < 2 ^ 63" using p n(3) by linarith
    show "add64 H (Suc ?n) = Suc (H + ?n)" "sub64 (Suc (H + ?n)) 1 = H + ?n" "sub64 N 1 = N - 1" "mul64 (N - 1) ?s = (N - 1) * ?s"
      "add64 H ?n = H + ?n" "add64 (?p div ?s) 1 = Suc (?p div ?s)"
      using n N mul64_exact [of "N - 1" ?s] a add64_exact [of "?p div ?s" 1] b by (simp_all add: add64_exact sub64_exact)
  qed
  let ?ret = "Suc (?p div ?s) = N \<and> (?n = 0 \<or> H + ?n \<le> (N - 1) * ?s)"
  have start: "pop_back M S m = do {
      m \<leftarrow> (if ?ret then retire_top_block M ?m1 else Some ?m1);
      m \<leftarrow> (if ?n = 0 then set_head_off M m 0 else Some m);
      Some (Some y, m) }"
  proof -
    have nz: "?C \<noteq> 0" using n by linarith
    then show ?thesis
      using assms(1) A(2,12-14,19) slot_addr_law [OF assms(1) d(1) p] val slots_per_block_pos f1 ar
      by (simp add: pop_back_def Let_def del: mult_eq_0_iff)
  qed
  show ?thesis
  proof (cases "?n = 0")
    case True
    have tail: "\<exists>m'. (do { m \<leftarrow> set_head_off M m2 0; Some (Some y, m) }) = Some (Some y, m') \<and> ok m' \<and> dq_ok S (contents m') ys"
      if m2: "ok m2" "layout S (contents m2) ?n H (N2 * ?s) B D N2 F2 dir free2" for m2 N2 F2 free2
      using set_head_law [OF m2(1), of ys H N2 B D F2 dir free2 0] m2(2) True by (simp add: elems_def)
    show ?thesis
    proof (cases ?ret)
      case ret: True
      obtain m2 where "retire_top_block M ?m1 = Some m2" "ok m2" "layout S (contents m2) ?n H ((N - 1) * ?s) B D (N - 1) (dir ! (N - 1)) dir (dir ! (N - 1) # free)"
        using retire_elems_law [OF m1(1,2) N(1), of 0] True by (auto simp: elems_def)
      then show ?thesis using start True ret tail by simp
    qed (use start True tail [OF m1(1,2)] in simp)
  next
    case False
    show ?thesis
    proof (cases ?ret)
      case ret: True
      then have le: "H + ?n \<le> (N - 1) * ?s" using False by blast
      obtain m2 where m2: "retire_top_block M ?m1 = Some m2" "ok m2"
        "layout S (contents m2) ?n H ((N - 1) * ?s) B D (N - 1) (dir ! (N - 1)) dir (dir ! (N - 1) # free)" "elems S (contents m2) dir ((N - 1) * ?s) H ys"
        using retire_elems_law [OF m1(1,2) N(1) e1 le] by blast
      have "H < (N - 1) * ?s" using le False by linarith
      then have "dq_ok S (contents m2) ys" using le False by (intro dq_okI [OF m2(3) _ _ _ m2(4)]) auto
      then show ?thesis using start False ret m2(1,2) by simp
    next
      case noret: False
      have "dq_ok S (contents ?m1) ys" using m1(2) e1 n False by (intro dq_okI) auto
      moreover have "pop_back M S m = Some (Some y, ?m1)" unfolding start if_not_P [OF noret] if_not_P [OF False] by simp
      ultimately show ?thesis using m1(1) by blast
    qed
  qed
qed

lemma pop_front_law:
  assumes "ok m" "dq_ok S (contents m) (y # ys)"
  shows "\<exists>m'. pop_front M S m = Some (Some y, m') \<and> ok m' \<and> dq_ok S (contents m') ys"
proof -
  let ?n = "length ys" and ?s = "slots_per_block S"
  obtain H B D N F dir free where d: "layout S (contents m) (length (y # ys)) H (N * ?s) B D N F dir free" "length (y # ys) \<le> N * ?s"
    "y # ys = [] \<Longrightarrow> H = 0" "y # ys \<noteq> [] \<Longrightarrow> H < N * ?s" "elems S (contents m) dir (N * ?s) H (y # ys)"
    using dq_okE [OF assms(2)] by metis
  let ?C = "N * ?s"
  note A = layoutD [OF d(1)]
  have n: "?n < ?C" "H < ?C" "?C < 2 ^ 63" using d(2,4) cap_bound(2) [OF assms(1) d(1)] by simp_all
  have N: "0 < N" "N < 2 ^ 64" using n(1) A(17) u64_at_less [of "contents m" 49] by (cases N, simp_all)
  have el: "slot_at S (contents m) (addr S dir ((H + i) mod ?C)) ((y # ys) ! i)" if "i < Suc ?n" for i using d(5) that by (simp add: elems_def)
  have val: "read_slot M S m (addr S dir H) = Some y" using el [of 0] n read_slot_law [OF assms(1) addr_bounds(2) [OF d(1) n(2)]] by simp
  let ?m1 = "put m 4 (to_le 8 ?n)"
  have n64: "?n < 2 ^ 64" using n by simp
  note m1 = shorten_law [OF assms(1) d(1) n64]
  let ?h = "if ?n = 0 then 0 else Suc H mod ?C"
  have e1: "elems S (contents ?m1) dir ?C ?h ys"
    unfolding m1(4) [OF less_imp_le [OF n(1)]] unfolding elems_def
  proof (intro allI impI)
    fix i assume i: "i < ?n"
    have "(?h + i) mod ?C = (Suc H mod ?C + i) mod ?C" using i by auto
    also have "\<dots> = (H + Suc i) mod ?C" by (simp add: mod_add_left_eq)
    finally show "slot_at S (contents m) (addr S dir ((?h + i) mod ?C)) (ys ! i)" using el [of "Suc i"] i by simp
  qed
  have f1: "num_blocks M ?m1 = Some N" using m1(1,3) layoutD(17) [OF m1(2)] by simp
  let ?drained = "?n = 0 \<or> (if Suc H = ?C then ?n + ?s \<le> ?C else Suc H mod ?s = 0)"
  have s63: "?s \<le> ?C" using N by simp
  have start: "pop_front M S m = do {
      m \<leftarrow> (if ?drained \<and> Suc (H div ?s) = N then retire_top_block M ?m1 else Some ?m1);
      m \<leftarrow> set_head_off M m ?h;
      Some (Some y, m) }"
  proof -
    have "H div ?s \<le> H" by (rule div_le_dividend)
    then have b: "H div ?s < 2 ^ 63" "?s < 2 ^ 63" using n s63 by linarith+
    have ar: "add64 H 1 = Suc H" "add64 ?n ?s = ?n + ?s" "add64 (H div ?s) 1 = Suc (H div ?s)"
      using n add64_exact [of "H div ?s" 1] add64_exact [of ?n ?s] b by (simp_all add: add64_exact)
    have nz: "?C \<noteq> 0" using n by linarith
    then show ?thesis
      using assms(1) A(2,12-14,19) slot_addr_law [OF assms(1) d(1) n(2)] val slots_per_block_pos f1 ar
      by (simp add: pop_front_def Let_def del: mult_eq_0_iff)
  qed
  show ?thesis
  proof (cases "?drained \<and> Suc (H div ?s) = N")
    case True
    have fits: "?h + ?n \<le> (N - 1) * ?s" "ys \<noteq> [] \<Longrightarrow> ?h < (N - 1) * ?s"
    proof -
      have "?h = 0 \<and> ?n \<le> (N - 1) * ?s" if "?n \<noteq> 0"
      proof -
        have "Suc H = ?C"
        proof (rule ccontr)
          assume "Suc H \<noteq> ?C"
          then have "Suc H mod ?s = 0" using True that by auto
          then have "Suc H = Suc H div ?s * ?s" by (metis add.right_neutral div_mult_mod_eq)
          moreover have "Suc H div ?s = Suc (H div ?s)" using \<open>Suc H mod ?s = 0\<close> by (simp add: div_Suc)
          ultimately show False using True \<open>Suc H \<noteq> ?C\<close> by simp
        qed
        moreover have "?n + ?s \<le> ?C" using True that calculation by auto
        moreover have "?C = (N - 1) * ?s + ?s" using N by (cases N) simp_all
        ultimately show ?thesis using that by simp
      qed
      then have "?n \<noteq> 0 \<Longrightarrow> ?h + ?n \<le> (N - 1) * ?s \<and> ?h < (N - 1) * ?s" by linarith
      then show "?h + ?n \<le> (N - 1) * ?s" "ys \<noteq> [] \<Longrightarrow> ?h < (N - 1) * ?s" by (cases "?n = 0", simp_all)
    qed
    obtain m2 where m2: "retire_top_block M ?m1 = Some m2" "ok m2"
      "layout S (contents m2) ?n H ((N - 1) * ?s) B D (N - 1) (dir ! (N - 1)) dir (dir ! (N - 1) # free)" "elems S (contents m2) dir ((N - 1) * ?s) ?h ys"
      using retire_elems_law [OF m1(1,2) N(1) e1 fits(1)] by blast
    then show ?thesis using set_head_law [OF m2(2,3) _ m2(4)] fits start True by simp
  next
    case False
    have C: "0 < ?C" using n(1) by linarith
    have "?h < ?C" using mod_less_divisor [OF C, of "Suc H"] C by (cases "?n = 0") simp_all
    moreover have "ys = [] \<Longrightarrow> ?h = 0" by simp
    ultimately have h: "set_head_off M ?m1 ?h = Some (put ?m1 17 (to_le 8 ?h))" "ok (put ?m1 17 (to_le 8 ?h))" "dq_ok S (contents (put ?m1 17 (to_le 8 ?h))) ys"
      using set_head_law [OF m1(1,2) less_imp_le [OF n(1)] e1] by blast+
    then show ?thesis unfolding start if_not_P [OF False] by auto
  qed
qed

lemma pop_empty:
  assumes "ok m" "dq_ok S (contents m) []"
  shows "pop_back M S m = Some (None, m)" "pop_front M S m = Some (None, m)"
  using len_law [OF assms] by (simp_all add: pop_back_def pop_front_def)

section \<open>Creating and reopening\<close>

text \<open>The bytes of a fresh header.\<close>

definition fresh_header :: "nat \<Rightarrow> bytes" where
  "fresh_header B = SVD_MAGIC @ [SVD_LAYOUT_VERSION] @ to_le 8 0 @ to_le 4 (st_max_size S) @ [if st_fixed S then 1 else 0]
     @ to_le 8 0 @ to_le 8 0 @ to_le 8 B @ to_le 8 16 @ to_le 8 0 @ to_le 8 (slots_per_block S) @ to_le 8 FREE_LIST_NIL"

lemma length_magic: "length SVD_MAGIC = 3"
  by (simp add: SVD_MAGIC_def)

lemma length_fresh: "length (fresh_header B) = 73"
  by (simp add: fresh_header_def length_magic)

lemma fresh_header_law:
  assumes "128 \<le> length c" "B < 2 ^ 64"
  shows "hdr S (overwrite c 0 (fresh_header B)) 0 0 0 B 16 0 FREE_LIST_NIL" "high_same c (overwrite c 0 (fresh_header B))"
proof -
  let ?f = "fresh_header B"
  have le: "0 + length ?f \<le> length c" using assms(1) by (simp add: length_fresh)
  have w: "window (overwrite c 0 ?f) a n = take n (drop a ?f)" if "a + n \<le> 73" for a n
    using window_window [of a n "length ?f" 0 "overwrite c 0 ?f"] window_overwrite_same [OF le] that le by (simp add: length_fresh window_def)
  have mx: "from_le (to_le 4 (st_max_size S)) = st_max_size S" using max_law by (intro from_le_to_le_id) simp
  have ss: "from_le (to_le 8 (slots_per_block S)) = slots_per_block S" using block_bytes_bounds(3) by (intro from_le_to_le_id) simp
  have nums: "from_le (to_le 8 B) = B" "from_le (to_le 8 0) = 0" "from_le (to_le 8 16) = 16" "from_le (to_le 8 FREE_LIST_NIL) = FREE_LIST_NIL"
    using assms(2) by (simp_all add: from_le_to_le_id FREE_LIST_NIL_def del: to_le.simps from_le.simps)
  have t: "take 3 ?f = SVD_MAGIC" "take 1 (drop 3 ?f) = [SVD_LAYOUT_VERSION]" "take 8 (drop 4 ?f) = to_le 8 0" "take 4 (drop 12 ?f) = to_le 4 (st_max_size S)"
    "take 1 (drop 16 ?f) = [if st_fixed S then 1 else 0]" "take 8 (drop 17 ?f) = to_le 8 0" "take 8 (drop 25 ?f) = to_le 8 0"
    "take 8 (drop 33 ?f) = to_le 8 B" "take 8 (drop 41 ?f) = to_le 8 16" "take 8 (drop 49 ?f) = to_le 8 0"
    "take 8 (drop 57 ?f) = to_le 8 (slots_per_block S)" "take 8 (drop 65 ?f) = to_le 8 FREE_LIST_NIL"
    by (simp_all add: fresh_header_def length_magic drop_Cons' del: to_le.simps)
  show "hdr S (overwrite c 0 ?f) 0 0 0 B 16 0 FREE_LIST_NIL"
    unfolding hdr_def u64_at_def using assms(1) le by (simp add: w t t(2,5) [unfolded One_nat_def] mx ss nums del: to_le.simps from_le.simps)
  show "high_same c (overwrite c 0 ?f)" using assms(1) by (intro high_overwrite) (simp_all add: length_fresh)
qed

text \<open>A memory with room for the header; keeping this opaque keeps sequences of writes cheap.\<close>

definition roomy :: "'m \<Rightarrow> bool" where
  "roomy m \<longleftrightarrow> ok m \<and> 128 \<le> length (contents m)"

lemma roomy_laws:
  assumes "roomy m"
  shows "a + length b \<le> 128 \<Longrightarrow> roomy (put m a b)" "a + length b \<le> 128 \<Longrightarrow> contents (put m a b) = overwrite (contents m) a b"
    "a + length b \<le> 128 \<Longrightarrow> mem_write M m a b = Some (put m a b)" "a + length b \<le> 128 \<Longrightarrow> safe_write M m a b = Some (put m a b, Inr ())"
    "a \<le> 120 \<Longrightarrow> mem_write_u64 M m a x = Some (put m a (to_le 8 x))" "a \<le> 120 \<Longrightarrow> mem_write_u32 M m a x = Some (put m a (to_le 4 x))"
  using assms by (simp_all add: roomy_def)

lemma overwrite_next: "length p = n \<Longrightarrow> n + length d \<le> length c \<Longrightarrow> overwrite (overwrite c 0 p) n d = overwrite c 0 (p @ d)"
  using overwrite_adjacent [of 0 p d c] by simp

lemma write_header_law:
  assumes "ok m" "128 \<le> length (contents m)"
  shows "\<exists>m'. write_deque_header M m \<lparr>h_magic = SVD_MAGIC, h_version = SVD_LAYOUT_VERSION, h_len = 0, h_max_size = st_max_size S,
         h_is_fixed_size = st_fixed S, h_head_off = 0, h_virt_cap = 0, h_dir_base = B, h_dir_slots = INITIAL_DIR_SLOTS,
         h_num_blocks = 0, h_block_slots = slots_per_block S, h_free_head = FREE_LIST_NIL\<rparr> = Some (m', Inr ())
    \<and> ok m' \<and> contents m' = overwrite (contents m) 0 (fresh_header B)"
proof -
  let ?m1 = "put m 0 SVD_MAGIC" let ?m2 = "put ?m1 3 [SVD_LAYOUT_VERSION]" let ?m3 = "put ?m2 4 (to_le 8 0)"
  let ?m4 = "put ?m3 12 (to_le 4 (st_max_size S))" let ?m5 = "put ?m4 16 [if st_fixed S then 1 else 0]"
  let ?m6 = "put ?m5 17 (to_le 8 0)" let ?m7 = "put ?m6 25 (to_le 8 0)" let ?m8 = "put ?m7 33 (to_le 8 B)"
  let ?m9 = "put ?m8 41 (to_le 8 16)" let ?m10 = "put ?m9 49 (to_le 8 0)" let ?m11 = "put ?m10 57 (to_le 8 (slots_per_block S))"
  let ?m12 = "put ?m11 65 (to_le 8 FREE_LIST_NIL)"
  have "roomy m" using assms by (simp add: roomy_def)
  note R = roomy_laws [OF this] roomy_laws
  have "roomy ?m12" by (simp add: R length_magic \<open>roomy m\<close> del: put_law write_laws safe_write_law to_le.simps)
  then have "ok ?m12" by (simp add: roomy_def del: put_law)
  moreover have "contents ?m12 = overwrite (contents m) 0 (fresh_header B)"
    using assms(2) by (simp add: R length_magic \<open>roomy m\<close> overwrite_next fresh_header_def del: put_law write_laws safe_write_law to_le.simps)
  moreover have "write_deque_header M m \<lparr>h_magic = SVD_MAGIC, h_version = SVD_LAYOUT_VERSION, h_len = 0, h_max_size = st_max_size S,
         h_is_fixed_size = st_fixed S, h_head_off = 0, h_virt_cap = 0, h_dir_base = B, h_dir_slots = INITIAL_DIR_SLOTS,
         h_num_blocks = 0, h_block_slots = slots_per_block S, h_free_head = FREE_LIST_NIL\<rparr> = Some (?m12, Inr ())"
    by (simp add: write_deque_header_def and_then_def svd_offsets INITIAL_DIR_SLOTS_def R length_magic \<open>roomy m\<close>
        del: put_law write_laws safe_write_law to_le.simps)
  ultimately show ?thesis by blast
qed

lemma new_law:
  assumes "ok m"
  shows "\<exists>m' r. deque_new M S m = Some (m', r) \<and> ok m' \<and> (r = Inr () \<longrightarrow> dq_ok S (contents m') [])"
proof -
  have u: "div_ceil 128 65536 = 1" by (simp add: div_ceil_def)
  have two: "DATA_OFFSET = 128" "INITIAL_DIR_SLOTS * 8 = 128" by (simp_all add: DATA_OFFSET_def INITIAL_DIR_SLOTS_def)
  consider (fail1) e where "alloc_at_end M m 128 = Some (m, Inl e)"
    | (got1) m1 where "alloc_at_end M m 128 = Some (m1, Inr (length (contents m)))" "ok m1" "contents m1 = contents m @ replicate 65536 0"
    using alloc_law [OF assms, of 128] u by auto
  then show ?thesis
  proof cases
    case fail1
    then show ?thesis using assms by (simp add: deque_new_def and_then_def two)
  next
    case got1
    consider (fail2) e where "alloc_at_end M m1 128 = Some (m1, Inl e)"
      | (got2) m2 where "alloc_at_end M m1 128 = Some (m2, Inr (length (contents m1)))" "ok m2" "contents m2 = contents m1 @ replicate 65536 0"
      using alloc_law [OF got1(2), of 128] u by auto
    then show ?thesis
    proof cases
      case fail2
      then show ?thesis using got1 by (simp add: deque_new_def and_then_def two)
    next
      case got2
      let ?B = "length (contents m1)" and ?c = "contents m2"
      have B: "65536 \<le> ?B" "?B + 65536 = length ?c" "?B < 2 ^ 64" using got1(3) got2(3) size_bound [OF got1(2)] by simp_all
      obtain m' where m': "write_deque_header M m2 \<lparr>h_magic = SVD_MAGIC, h_version = SVD_LAYOUT_VERSION, h_len = 0, h_max_size = st_max_size S,
         h_is_fixed_size = st_fixed S, h_head_off = 0, h_virt_cap = 0, h_dir_base = ?B, h_dir_slots = INITIAL_DIR_SLOTS,
         h_num_blocks = 0, h_block_slots = slots_per_block S, h_free_head = FREE_LIST_NIL\<rparr> = Some (m', Inr ())"
         "ok m'" "contents m' = overwrite ?c 0 (fresh_header ?B)"
        using write_header_law [OF got2(2), of ?B] B by auto
      have c: "128 \<le> length ?c" using B by linarith
      note h = fresh_header_law [OF c B(3)]
      have len: "length (contents m') = length ?c" using h(2) m'(3) by (simp add: high_same_def)
      have "u64_at (contents m') (?B + 8 * k) = 0" if "k < 16" for k
        using high_same_u64 [OF h(2), of "?B + 8 * k"] m'(3) B(1) got2(3) by (simp add: u64_at_append_right u64_at_zero)
      moreover have "is_power_of_two 16" by (simp add: is_power_of_two.simps)
      moreover have "room (block_bytes S) (length (contents m')) ?B 16 []" using B len by (simp add: room_def)
      ultimately have "layout S (contents m') 0 0 (0 * slots_per_block S) ?B 16 0 FREE_LIST_NIL (replicate 16 0) []"
        using h(1) m'(3) unfolding layout_def by simp
      then have "dq_ok S (contents m') []" by (intro dq_okI [of _ "[]" 0 0]) (simp_all add: elems_def)
      then show ?thesis using got1(1) got2(1) m'(1,2) block_slots_for_eq by (simp add: deque_new_def and_then_def two)
    qed
  qed
qed

lemma read_header_law:
  assumes "ok m" "hdr S (contents m) L H C B D N F"
  shows "read_deque_header M m = Some \<lparr>h_magic = SVD_MAGIC, h_version = SVD_LAYOUT_VERSION, h_len = L, h_max_size = st_max_size S,
      h_is_fixed_size = st_fixed S, h_head_off = H, h_virt_cap = C, h_dir_base = B, h_dir_slots = D,
      h_num_blocks = N, h_block_slots = slots_per_block S, h_free_head = F\<rparr>"
  using assms by (auto simp: read_deque_header_def hdr_def svd_offsets mem_read_u32_def read_law index_def)

lemma check_directory_law:
  assumes "ok m" "layout S (contents m) L H C B D N F dir free" "h_dir_base h = B" "h_num_blocks h = N" "k + n = D"
  shows "check_directory M m h (block_bytes S) (length (contents m)) k n = Some (Inr ())"
  using assms(5)
proof (induction n arbitrary: k)
  case (Suc n)
  note A = layoutD [OF assms(2)]
  have k: "k < D" using Suc.prems by simp
  have b: "B + 8 * D < 2 ^ 63" using A(6) size_bound [OF assms(1)] by linarith
  have ad: "add64 B (mul64 k 8) = B + 8 * k" using b k by (simp add: mul64_exact add64_exact mult.commute)
  have rd: "mem_read_u64 M m (B + 8 * k) = Some (dir ! k)" using assms(1) A(6,10) k by simp
  have "dir ! k \<le> length (contents m)" using A(3,11) k by simp
  moreover have "checked_add64 (dir ! k) (block_bytes S) = Some (dir ! k + block_bytes S)" "dir ! k + block_bytes S \<le> length (contents m)" if "k < N"
    using live_block(3) [OF assms(2) that] size_bound [OF assms(1)] by (simp_all add: checked_add64_def)
  ultimately show ?case using Suc.IH [of "Suc k"] Suc.prems ad rd assms(3,4) by (cases "k < N") auto
qed simp

lemma init_reopens:
  assumes "ok m" "dq_ok S (contents m) xs"
  shows "deque_init M S m = Some (m, Inr ())"
proof -
  let ?s = "slots_per_block S" and ?c = "contents m"
  obtain H B D N F dir free where d: "layout S ?c (length xs) H (N * ?s) B D N F dir free" "length xs \<le> N * ?s"
    "xs = [] \<Longrightarrow> H = 0" "xs \<noteq> [] \<Longrightarrow> H < N * ?s" "elems S ?c dir (N * ?s) H xs"
    using dq_okE [OF assms(2)] by metis
  note A = layoutD [OF d(1)]
  have sz: "length ?c < 2 ^ 63" by (rule size_bound [OF assms(1)])
  have ms: "mem_size M m \<noteq> 0" "sat_mul64 (mem_size M m) WASM_PAGE_SIZE = length ?c"
    using size_law [OF assms(1)] A(2) sz by (auto simp: sat_mul64_def WASM_PAGE_SIZE_def)
  have cap: "sat_mul64 N ?s = N * ?s" using cap_bound(2) [OF assms(1) d(1)] by (simp add: sat_mul64_def)
  have dir: "checked_add64 B (mul64 D 8) = Some (B + 8 * D)" using A(6) sz by (simp add: checked_add64_def mul64_exact)
  have blk: "checked_mul64 ?s (slot_size S) = Some (block_bytes S)"
    using block_bytes_bounds(2) by (simp add: checked_mul64_def block_bytes_def)
  have free: "F = FREE_LIST_NIL \<or> F < length ?c"
  proof (cases free)
    case (Cons b bs)
    then show ?thesis using A(8) room_in(2) [OF A(7), of b] block_bytes_bounds(1) by simp
  qed (use A(8) in simp)
  have hd: "if length xs = 0 then H = 0 else H < N * ?s" using d(3,4) by auto
  have chk: "check_directory M m h (block_bytes S) (length ?c) 0 D = Some (Inr ())" if "h_dir_base h = B" "h_num_blocks h = N" for h
    by (rule check_directory_law [OF assms(1) d(1) that]) simp
  have D: "0 < D" by (rule power_of_two_pos [OF A(9)])
  have spb: "?s \<noteq> 0" using slots_per_block_pos by simp
  let ?h = "\<lparr>h_magic = SVD_MAGIC, h_version = SVD_LAYOUT_VERSION, h_len = length xs, h_max_size = st_max_size S,
      h_is_fixed_size = st_fixed S, h_head_off = H, h_virt_cap = N * ?s, h_dir_base = B, h_dir_slots = D,
      h_num_blocks = N, h_block_slots = ?s, h_free_head = F\<rparr>"
  have "check_layout M S m ?h = check_directory M m ?h (block_bytes S) (length ?c) 0 D"
    unfolding check_layout_def using block_slots_for_eq spb D A(4-6,9) cap d(2) hd ms(2) free dir blk
    by (auto simp: Let_def DATA_OFFSET_def split: if_splits)
  then show ?thesis using ms(1) read_header_law [OF assms(1) A(1)] chk [of ?h] by (simp add: deque_init_def)
qed

section \<open>Iteration\<close>

lemma length_bound:
  assumes "ok m" "dq_ok S (contents m) xs"
  shows "length xs < 2 ^ 63"
proof (rule dq_okE [OF assms(2)])
  fix H B D N F dir free
  assume "layout S (contents m) (length xs) H (N * slots_per_block S) B D N F dir free" "length xs \<le> N * slots_per_block S"
  with cap_bound(2) [OF assms(1)] show ?thesis by (meson le_less_trans)
qed

lemma read_index_law:
  assumes "ok m" "dq_ok S (contents m) xs" "i < length xs"
  shows "deque_read_entry M S m i = Some (st_to_bytes S (xs ! i))"
  using routed_law [OF assms] read_entry_law [OF assms(1)] by (auto simp: deque_read_entry_def)

lemma iter_next_law:
  assumes "ok m" "dq_ok S (contents m) xs"
  shows "iter_next M S m it = Some (if it_start it < it_end it \<and> it_start it < length xs
    then (Some (xs ! it_start it), it\<lparr>it_start := it_start it + 1\<rparr>) else (None, it))"
proof -
  have "sat_add64 (it_start it) 1 = it_start it + 1" if "it_start it < length xs"
    using length_bound [OF assms] that by (simp add: sat_add64_def)
  then show ?thesis using len_law [OF assms] read_index_law [OF assms] from_to by (auto simp: iter_next_def)
qed

lemma iter_next_back_law:
  assumes "ok m" "dq_ok S (contents m) xs"
  shows "iter_next_back M S m it = Some (if it_start it < it_end it \<and> it_end it \<le> length xs
    then (Some (xs ! (it_end it - 1)), it\<lparr>it_end := it_end it - 1\<rparr>) else (None, it))"
  using len_law [OF assms] read_index_law [OF assms] from_to by (auto simp: iter_next_back_def)

lemma collect_law:
  assumes "ok m" "dq_ok S (contents m) xs" "i \<le> length xs"
  shows "iter_collect M S m \<lparr>it_start = i, it_end = length xs\<rparr> = Some (drop i xs)"
  using assms(3)
proof (induction "length xs - i" arbitrary: i)
  case 0
  then show ?case by (subst iter_collect.simps) (simp add: iter_next_law [OF assms(1,2)])
next
  case (Suc n)
  then have "i < length xs" "n = length xs - Suc i" by simp_all
  then show ?case using Suc.hyps(1) [of "Suc i"] by (subst iter_collect.simps) (simp add: iter_next_law [OF assms(1,2)] Cons_nth_drop_Suc)
qed

lemma to_vec_law:
  assumes "ok m" "dq_ok S (contents m) xs"
  shows "to_vec M S m = Some xs"
  using collect_law [OF assms, of 0] len_law [OF assms] by (simp add: to_vec_def deque_iter_def)

end

end
