(* ===== verification/Blob_Arena.thy ===== *)
theory Blob_Arena
  imports Vec_Deque
begin

text \<open>
  The blob arena of the text canister: byte strings of any length in fixed chunks of a stable vector,
  addressed by sixteen-byte locators. The stable vector of \<open>ic-stable-structures\<close> is a record of
  operations with its documented behaviour as a locale.
\<close>

section \<open>The stable vector\<close>

record 'v vec_ops =
  vec_len :: "'v \<Rightarrow> nat"
  vec_get :: "'v \<Rightarrow> nat \<Rightarrow> bytes option"
  vec_set :: "'v \<Rightarrow> nat \<Rightarrow> bytes \<Rightarrow> 'v option"
  vec_push :: "'v \<Rightarrow> bytes \<Rightarrow> 'v option"

text \<open>\<open>set\<close> panics out of range, and \<open>push\<close> when the memory cannot grow.\<close>

locale stable_vec =
  fixes V :: "'v vec_ops" and vok :: "'v \<Rightarrow> bool" and items :: "'v \<Rightarrow> bytes list"
  assumes len_law: "vok v \<Longrightarrow> vec_len V v = length (items v)"
    and len_bound: "vok v \<Longrightarrow> length (items v) < 2 ^ 63"
    and get_law: "vok v \<Longrightarrow> vec_get V v i = (if i < length (items v) then Some (items v ! i) else None)"
    and set_law: "vok v \<Longrightarrow> i < length (items v) \<Longrightarrow> \<exists>v'. vec_set V v i x = Some v' \<and> vok v' \<and> items v' = (items v)[i := x]"
    and push_law: "vok v \<Longrightarrow> vec_push V v x = Some v' \<Longrightarrow> vok v' \<and> items v' = items v @ [x]"

section \<open>Locators\<close>

definition ARENA_CHUNK_BYTES :: nat where
  "ARENA_CHUNK_BYTES = 4096"

record blob_ref =
  br_chunk_start :: u64
  br_chunk_count :: u32
  br_byte_len :: u32

definition EMPTY :: blob_ref where
  "EMPTY = \<lparr>br_chunk_start = 0, br_chunk_count = 0, br_byte_len = 0\<rparr>"

definition br_is_empty :: "blob_ref \<Rightarrow> bool" where
  "br_is_empty r \<longleftrightarrow> br_chunk_count r = 0"

definition chunk_count_for :: "nat \<Rightarrow> u32" where
  "chunk_count_for byte_len = word_of_nat (div_ceil byte_len ARENA_CHUNK_BYTES)"

definition slot_of_blob_ref :: "blob_ref \<Rightarrow> bytes" where
  "slot_of_blob_ref r = u64_to_le (br_chunk_start r) @ u32_to_le (br_byte_len r) @ u32_to_le (br_chunk_count r)"

definition blob_ref_of_slot :: "bytes \<Rightarrow> blob_ref" where
  "blob_ref_of_slot b = \<lparr>br_chunk_start = u64_from_le (take 8 b), br_chunk_count = u32_from_le (take 4 (drop 12 b)),
     br_byte_len = u32_from_le (take 4 (drop 8 b))\<rparr>"

text \<open>The \<open>Storable\<close> instance of the slot, together with the conversions at its two ends.\<close>

definition blob_ref_storable :: "blob_ref storable" where
  "blob_ref_storable = \<lparr>st_to_bytes = slot_of_blob_ref,
     st_from_bytes = (\<lambda>b. if length b = 16 then Some (blob_ref_of_slot b) else None), st_max_size = 16, st_fixed = True\<rparr>"

section \<open>The arena\<close>

definition pad_chunk :: "bytes \<Rightarrow> bytes" where
  "pad_chunk b = b @ replicate (ARENA_CHUNK_BYTES - length b) 0"

function chunks_of :: "bytes \<Rightarrow> bytes list" where
  "chunks_of b = (if b = [] then [] else pad_chunk (take ARENA_CHUNK_BYTES b) # chunks_of (drop ARENA_CHUNK_BYTES b))"
  by pat_completeness auto

termination
  by (relation "measure length") (auto simp: ARENA_CHUNK_BYTES_def)

declare chunks_of.simps [simp del]

fun push_chunks :: "'v vec_ops \<Rightarrow> 'v \<Rightarrow> bytes list \<Rightarrow> 'v option" where
  "push_chunks V v [] = Some v"
| "push_chunks V v (c # cs) = do { v' \<leftarrow> vec_push V v c; push_chunks V v' cs }"

fun set_chunks :: "'v vec_ops \<Rightarrow> 'v \<Rightarrow> nat \<Rightarrow> bytes list \<Rightarrow> 'v option" where
  "set_chunks V v i [] = Some v"
| "set_chunks V v i (c # cs) = do { v' \<leftarrow> vec_set V v i c; set_chunks V v' (Suc i) cs }"

definition arena_put :: "'v vec_ops \<Rightarrow> 'v \<Rightarrow> bytes \<Rightarrow> (blob_ref \<times> 'v) option" where
  "arena_put V v bytes =
     (if bytes = [] then Some (EMPTY, v)
      else do {
        let chunk_start = vec_len V v;
        v' \<leftarrow> push_chunks V v (chunks_of bytes);
        Some (\<lparr>br_chunk_start = word_of_nat chunk_start, br_chunk_count = chunk_count_for (length bytes),
          br_byte_len = word_of_nat (length bytes)\<rparr>, v') })"

definition arena_write_over :: "'v vec_ops \<Rightarrow> 'v \<Rightarrow> blob_ref \<Rightarrow> bytes \<Rightarrow> (blob_ref \<times> 'v) option" where
  "arena_write_over V v old bytes =
     (let needed = chunk_count_for (length bytes) in
      if 0 < needed \<and> needed = br_chunk_count old \<and> unat (br_chunk_start old + ucast needed) \<le> vec_len V v
      then do {
        v' \<leftarrow> set_chunks V v (unat (br_chunk_start old)) (chunks_of bytes);
        Some (\<lparr>br_chunk_start = br_chunk_start old, br_chunk_count = needed, br_byte_len = word_of_nat (length bytes)\<rparr>, v') }
      else arena_put V v bytes)"

text \<open>The loop of \<open>read\<close>, from chunk \<open>i\<close> with \<open>n\<close> chunks left.\<close>

fun read_chunks :: "'v vec_ops \<Rightarrow> 'v \<Rightarrow> nat \<Rightarrow> nat \<Rightarrow> nat \<Rightarrow> bytes \<Rightarrow> bytes option" where
  "read_chunks V v byte_len i 0 out = Some out"
| "read_chunks V v byte_len i (Suc n) out = do {
     chunk \<leftarrow> vec_get V v i;
     part \<leftarrow> subslice chunk 0 (min (byte_len - length out) ARENA_CHUNK_BYTES);
     read_chunks V v byte_len (Suc i) n (out @ part) }"

definition arena_read :: "'v vec_ops \<Rightarrow> 'v \<Rightarrow> blob_ref \<Rightarrow> bytes option" where
  "arena_read V v r =
     (if br_is_empty r then Some []
      else do {
        let stop = unat (br_chunk_start r + ucast (br_chunk_count r));
        guard (stop \<le> vec_len V v);
        read_chunks V v (unat (br_byte_len r)) (unat (br_chunk_start r)) (stop - unat (br_chunk_start r)) [] })"

section \<open>Lemmas\<close>

lemma slot_round_trip: "blob_ref_of_slot (slot_of_blob_ref r) = r" "length (slot_of_blob_ref r) = 16"
  by (simp_all add: blob_ref_of_slot_def slot_of_blob_ref_def)

lemma div_ceil_step: "0 < n \<Longrightarrow> div_ceil n 4096 = Suc (div_ceil (n - 4096) 4096)"
proof (cases "n < 4096")
  case False
  then obtain m where "n = m + 4096" by (metis add.commute le_Suc_ex not_less)
  then show ?thesis by (simp add: div_ceil_def)
qed (simp add: div_ceil_def)

lemma chunks_of_props:
  "length (chunks_of b) = div_ceil (length b) 4096 \<and> (\<forall>c\<in>set (chunks_of b). length c = 4096) \<and> take (length b) (concat (chunks_of b)) = b"
proof (induction b rule: chunks_of.induct)
  case (1 b)
  show ?case
  proof (cases "b = []")
    case False
    note IH = "1.IH" [OF False, unfolded ARENA_CHUNK_BYTES_def]
    have c: "chunks_of b = pad_chunk (take 4096 b) # chunks_of (drop 4096 b)"
      using False by (subst chunks_of.simps) (simp add: ARENA_CHUNK_BYTES_def)
    have l: "length (pad_chunk (take 4096 b)) = 4096" by (simp add: pad_chunk_def ARENA_CHUNK_BYTES_def)
    have d: "div_ceil (length b) 4096 = Suc (div_ceil (length b - 4096) 4096)" using False by (intro div_ceil_step) simp
    have "take (length b) (concat (chunks_of b)) = b"
    proof (cases "4096 \<le> length b")
      case True
      then have "pad_chunk (take 4096 b) = take 4096 b" by (simp add: pad_chunk_def ARENA_CHUNK_BYTES_def)
      then have "take (length b) (concat (chunks_of b)) = take 4096 b @ take (length b - 4096) (concat (chunks_of (drop 4096 b)))"
        unfolding c using True by simp
      also have "take (length b - 4096) (concat (chunks_of (drop 4096 b))) = drop 4096 b" using IH by (metis length_drop)
      finally show ?thesis by simp
    next
      case short: False
      then show ?thesis unfolding c by (simp add: pad_chunk_def)
    qed
    moreover have "length (chunks_of b) = div_ceil (length b) 4096" using conjunct1 [OF IH] d unfolding c by simp
    moreover have "\<forall>x\<in>set (chunks_of b). length x = 4096" using conjunct1 [OF conjunct2 [OF IH]] l unfolding c by (metis set_ConsD)
    ultimately show ?thesis by blast
  qed (simp add: chunks_of.simps div_ceil_def)
qed

text \<open>A locator \<open>r\<close> addresses \<open>b\<close> in the chunks \<open>E\<close>.\<close>

definition run :: "blob_ref \<Rightarrow> nat set" where
  "run r = {unat (br_chunk_start r)..<unat (br_chunk_start r) + unat (br_chunk_count r)}"

definition addresses :: "bytes list \<Rightarrow> blob_ref \<Rightarrow> bytes \<Rightarrow> bool" where
  "addresses E r b \<longleftrightarrow> unat (br_chunk_count r) = div_ceil (length b) 4096
     \<and> (b \<noteq> [] \<longrightarrow> unat (br_byte_len r) = length b \<and> unat (br_chunk_start r) + unat (br_chunk_count r) \<le> length E
         \<and> (\<forall>i\<in>run r. length (E ! i) = 4096)
         \<and> take (length b) (concat (map ((!) E) [unat (br_chunk_start r)..<unat (br_chunk_start r) + unat (br_chunk_count r)])) = b)"

lemma addresses_cong:
  assumes "addresses E r b" "length E \<le> length E'" "\<And>i. i \<in> run r \<Longrightarrow> E' ! i = E ! i"
  shows "addresses E' r b"
proof -
  have "map ((!) E') [unat (br_chunk_start r)..<unat (br_chunk_start r) + unat (br_chunk_count r)]
    = map ((!) E) [unat (br_chunk_start r)..<unat (br_chunk_start r) + unat (br_chunk_count r)]"
    using assms(3) by (simp add: run_def)
  moreover have "(\<forall>i\<in>run r. length (E' ! i) = 4096) = (\<forall>i\<in>run r. length (E ! i) = 4096)" using assms(3) by simp
  ultimately show ?thesis using assms(1,2) unfolding addresses_def by (metis order.trans)
qed

lemma div_ceil_pos: "b \<noteq> [] \<Longrightarrow> 0 < div_ceil (length b) 4096"
  using div_ceil_mult [of 4096 "length b"] by (cases "div_ceil (length b) 4096") auto

context stable_vec
begin

lemma push_chunks_law:
  "vok v \<Longrightarrow> push_chunks V v cs = Some v' \<Longrightarrow> vok v' \<and> items v' = items v @ cs"
  by (induction cs arbitrary: v) (auto dest: push_law elim!: bind_eq_SomeE)

lemma set_chunks_law:
  assumes "vok v" "i + length cs \<le> length (items v)"
  shows "\<exists>v'. set_chunks V v i cs = Some v' \<and> vok v' \<and> items v' = take i (items v) @ cs @ drop (i + length cs) (items v)"
  using assms
proof (induction cs arbitrary: v i)
  case (Cons c cs)
  obtain v1 where v1: "vec_set V v i c = Some v1" "vok v1" "items v1 = (items v)[i := c]" using set_law [of v i c] Cons.prems by auto
  obtain v' where v': "set_chunks V v1 (Suc i) cs = Some v'" "vok v'"
    "items v' = take (Suc i) (items v1) @ cs @ drop (Suc i + length cs) (items v1)"
    using Cons.IH [of v1 "Suc i"] v1 Cons.prems(2) by auto
  have "take (Suc i) (items v1) = take i (items v) @ [c]" using Cons.prems(2) v1(3) by (simp add: take_Suc_conv_app_nth)
  then show ?case using v1 v' by simp
qed simp

lemma read_chunks_law:
  assumes "vok v" "i + n \<le> length (items v)" "\<forall>j. i \<le> j \<and> j < i + n \<longrightarrow> length (items v ! j) = 4096" "length out \<le> k"
  shows "read_chunks V v k i n out = Some (out @ take (k - length out) (concat (map ((!) (items v)) [i..<i + n])))"
  using assms(2-4)
proof (induction n arbitrary: i out)
  case (Suc n)
  have c: "length (items v ! i) = 4096" "i < length (items v)" using Suc.prems by auto
  let ?t = "min (k - length out) 4096"
  let ?part = "take ?t (items v ! i)"
  have lp: "length ?part = ?t" using c by simp
  have "read_chunks V v k (Suc i) n (out @ ?part) = Some ((out @ ?part) @ take (k - length (out @ ?part)) (concat (map ((!) (items v)) [Suc i..<Suc i + n])))"
    using Suc.prems lp by (intro Suc.IH) auto
  moreover have "?part = take (k - length out) (items v ! i)" using c by (cases "k - length out \<le> 4096") (simp_all add: min_def)
  moreover have "k - length (out @ ?part) = k - length out - length (items v ! i)" using lp c by (simp add: min_def)
  moreover have "[i..<i + Suc n] = i # [Suc i..<Suc i + n]" by (simp add: upt_rec)
  ultimately show ?case using c get_law [OF assms(1), of i] by (simp add: subslice_def ARENA_CHUNK_BYTES_def)
qed simp

lemma arena_read_law:
  assumes "vok v" "addresses (items v) r b"
  shows "arena_read V v r = Some b"
proof (cases "b = []")
  case True
  then have "unat (br_chunk_count r) = 0" using assms(2) by (simp add: addresses_def div_ceil_def)
  then have "br_chunk_count r = 0" by (simp add: unat_eq_0)
  then show ?thesis using True by (simp add: arena_read_def br_is_empty_def)
next
  case False
  let ?s = "unat (br_chunk_start r)" and ?n = "unat (br_chunk_count r)"
  have a: "?n = div_ceil (length b) 4096" "unat (br_byte_len r) = length b" "?s + ?n \<le> length (items v)" "\<forall>i\<in>run r. length (items v ! i) = 4096"
    "take (length b) (concat (map ((!) (items v)) [?s..<?s + ?n])) = b"
    using assms(2) False unfolding addresses_def by blast+
  have "?n \<noteq> 0" using a(1) div_ceil_pos [OF False] by simp
  then have ne: "\<not> br_is_empty r" by (auto simp: br_is_empty_def)
  have u: "unat (ucast (br_chunk_count r) :: u64) = ?n" 
    using unat_u32_less [of "br_chunk_count r"] by (simp add: unsigned_ucast_eq take_bit_nat_eq_self)
  have "?s + ?n < 2 ^ 64" using a(3) len_bound [OF assms(1)] by simp
  then have st: "unat (br_chunk_start r + ucast (br_chunk_count r)) = ?s + ?n" using u unat_add_lem [of "br_chunk_start r" "ucast (br_chunk_count r)"] by simp
  show ?thesis
    using ne a len_law [OF assms(1)] read_chunks_law [OF assms(1), of ?s ?n "[]" "length b"] by (simp add: arena_read_def st run_def)
qed

lemma arena_put_law:
  assumes "vok v" "arena_put V v b = Some (r, v')" "length b < 2 ^ 32"
  shows "vok v'" "items v' = items v @ chunks_of b" "addresses (items v') r b" "run r \<inter> {..<length (items v)} = {}"
proof -
  let ?E = "items v" and ?n = "div_ceil (length b) 4096"
  note C = chunks_of_props [of b]
  have "vok v' \<and> items v' = ?E @ chunks_of b \<and> addresses (items v') r b \<and> run r \<inter> {..<length ?E} = {}"
  proof (cases "b = []")
    case True
    then show ?thesis using assms(1,2) by (auto simp: arena_put_def EMPTY_def addresses_def div_ceil_def chunks_of.simps run_def)
  next
    case False
    then have p: "push_chunks V v (chunks_of b) = Some v'"
      "r = \<lparr>br_chunk_start = word_of_nat (length ?E), br_chunk_count = chunk_count_for (length b), br_byte_len = word_of_nat (length b)\<rparr>"
      using assms(1,2) len_law [OF assms(1)] by (auto simp: arena_put_def Let_def elim!: bind_eq_SomeE)
    have v': "vok v'" "items v' = ?E @ chunks_of b" using push_chunks_law [OF assms(1) p(1)] by auto
    have "length b div 4096 < 1048576" using assms(3) by (intro less_mult_imp_div_less) simp
    then have n32: "?n < 2 ^ 32" by (simp add: div_ceil_def)
    have u: "unat (br_chunk_start r) = length ?E" "unat (br_chunk_count r) = ?n" "unat (br_byte_len r) = length b"
      using p(2) assms(3) n32 len_bound [OF assms(1)] by (simp_all add: chunk_count_for_def ARENA_CHUNK_BYTES_def unsigned_of_nat take_bit_nat_eq_self)
    have "map ((!) (items v')) [length ?E..<length ?E + ?n] = chunks_of b"
      using C v'(2) by (intro nth_equalityI) (simp_all add: nth_append)
    moreover have "length (items v' ! i) = 4096" if "length ?E \<le> i" "i < length ?E + ?n" for i
      using C v'(2) that by (simp add: nth_append)
    ultimately show ?thesis using v' u C by (auto simp: addresses_def run_def)
  qed
  then show "vok v'" "items v' = items v @ chunks_of b" "addresses (items v') r b" "run r \<inter> {..<length (items v)} = {}" by auto
qed

lemma arena_overwrite_law:
  assumes "vok v" "arena_write_over V v old b = Some (r, v')" "length b < 2 ^ 32" "run old \<subseteq> {..<length (items v)}"
  shows "vok v'" "addresses (items v') r b" "length (items v) \<le> length (items v')"
    "\<And>i. i < length (items v) \<Longrightarrow> i \<notin> run old \<Longrightarrow> items v' ! i = items v ! i"
proof -
  let ?E = "items v" and ?n = "div_ceil (length b) 4096" and ?s = "unat (br_chunk_start old)"
  note C = chunks_of_props [of b]
  have "vok v' \<and> addresses (items v') r b \<and> length ?E \<le> length (items v') \<and> (\<forall>i<length ?E. i \<notin> run old \<longrightarrow> items v' ! i = ?E ! i)"
  proof (cases "0 < chunk_count_for (length b) \<and> chunk_count_for (length b) = br_chunk_count old
      \<and> unat (br_chunk_start old + ucast (chunk_count_for (length b))) \<le> vec_len V v")
    case False
    then have p: "arena_put V v b = Some (r, v')" using assms(2) unfolding arena_write_over_def Let_def if_not_P [OF False] by simp
    show ?thesis using arena_put_law [OF assms(1) p assms(3)] by (simp add: nth_append)
  next
    case True
    have "length b div 4096 < 1048576" using assms(3) by (intro less_mult_imp_div_less) simp
    then have n32: "?n < 2 ^ 32" by (simp add: div_ceil_def)
    then have u: "unat (chunk_count_for (length b)) = ?n" by (simp add: chunk_count_for_def ARENA_CHUNK_BYTES_def unsigned_of_nat take_bit_nat_eq_self)
    then have n: "unat (br_chunk_count old) = ?n" "0 < ?n" using True by (auto simp: word_less_nat_alt)
    have le: "?s + ?n \<le> length ?E" using assms(4) n by (auto simp: run_def subset_iff dest!: spec [of _ "?s + ?n - 1"])
    have p: "set_chunks V v ?s (chunks_of b) = Some v'" "r = \<lparr>br_chunk_start = br_chunk_start old, br_chunk_count = br_chunk_count old, br_byte_len = word_of_nat (length b)\<rparr>"
      using assms(2) True unfolding arena_write_over_def Let_def if_P [OF True] by (auto elim!: bind_eq_SomeE)
    have v': "vok v'" "items v' = take ?s ?E @ chunks_of b @ drop (?s + ?n) ?E"
      using set_chunks_law [OF assms(1), of ?s "chunks_of b"] p(1) C le by auto
    have ne: "b \<noteq> []" using n(2) by (auto simp: div_ceil_def)
    have len: "length (items v') = length ?E" using v'(2) C le by simp
    have in_run: "items v' ! (?s + j) = chunks_of b ! j" if "j < ?n" for j using v'(2) C le that by (simp add: nth_append)
    have mp: "map ((!) (items v')) [?s..<?s + ?n] = chunks_of b" using C in_run by (intro nth_equalityI) simp_all
    have "length (items v' ! i) = 4096" if "?s \<le> i" "i < ?s + ?n" for i
      using in_run [of "i - ?s"] that C by simp
    then have "addresses (items v') r b"
      using p(2) n mp C le len assms(3) ne by (auto simp: addresses_def run_def unsigned_of_nat take_bit_nat_eq_self)
    moreover have "items v' ! i = ?E ! i" if "i < length ?E" "i \<notin> run old" for i
      using that v'(2) C le n by (auto simp: nth_append run_def not_less)
    ultimately show ?thesis using v'(1) len by simp
  qed
  then show "vok v'" "addresses (items v') r b" "length ?E \<le> length (items v')"
    "\<And>i. i < length ?E \<Longrightarrow> i \<notin> run old \<Longrightarrow> items v' ! i = ?E ! i" by auto
qed

end

section \<open>A vector held as a list\<close>

definition list_vec :: "bytes list vec_ops" where
  "list_vec = \<lparr>vec_len = length, vec_get = (\<lambda>v i. if i < length v then Some (v ! i) else None),
     vec_set = (\<lambda>v i x. if i < length v then Some (v[i := x]) else None),
     vec_push = (\<lambda>v x. if length v + 1 < 2 ^ 63 then Some (v @ [x]) else None)\<rparr>"

definition list_vec_ok :: "bytes list \<Rightarrow> bool" where
  "list_vec_ok v \<longleftrightarrow> length v < 2 ^ 63"

interpretation lv: stable_vec list_vec list_vec_ok "\<lambda>v. v"
  by unfold_locales (auto simp: list_vec_def list_vec_ok_def split: if_splits)

end
