(* ===== verification/Memory_Manager.thy ===== *)
theory Memory_Manager
  imports Stable_Memory
begin

text \<open>
  The stable-memory manager with a bucket size per virtual memory
  (\<open>crates/ic-stable-variable-memory-manager/src/lib.rs\<close>): the persistent header and extent owners,
  growth, the bucket cache of a handle, and segmented reads and writes. A panic is \<open>None\<close>; \<open>u64\<close>
  arithmetic is natural-number arithmetic with the checks and the wrap-around of the code.
\<close>

section \<open>Layout constants\<close>

definition VMM_MAGIC :: bytes where
  "VMM_MAGIC = [86, 77, 77]"

definition LAYOUT_VERSION :: u8 where
  "LAYOUT_VERSION = 1"

definition MAX_MEMORY_IDS :: nat where
  "MAX_MEMORY_IDS = 255"

definition MAX_EXTENTS :: nat where
  "MAX_EXTENTS = 65536"

definition UNALLOCATED :: u8 where
  "UNALLOCATED = 255"

definition DATA_OFFSET_PAGES :: nat where
  "DATA_OFFSET_PAGES = 2"

definition HEADER_SIZE :: nat where
  "HEADER_SIZE = 3 + 1 + 4 + 2 + MAX_MEMORY_IDS * 8 + MAX_MEMORY_IDS * 2"

definition ALLOCATED_EXTENTS_OFFSET :: nat where
  "ALLOCATED_EXTENTS_OFFSET = 4"

definition DEFAULT_BUCKET_SIZE_OFFSET :: nat where
  "DEFAULT_BUCKET_SIZE_OFFSET = 8"

definition MEMORY_SIZES_OFFSET :: nat where
  "MEMORY_SIZES_OFFSET = 10"

definition MEMORY_POLICIES_OFFSET :: nat where
  "MEMORY_POLICIES_OFFSET = MEMORY_SIZES_OFFSET + MAX_MEMORY_IDS * 8"

definition DEFAULT_BUCKET_SIZE_IN_PAGES :: nat where
  "DEFAULT_BUCKET_SIZE_IN_PAGES = 128"

lemmas layout_defs = VMM_MAGIC_def LAYOUT_VERSION_def MAX_MEMORY_IDS_def MAX_EXTENTS_def UNALLOCATED_def
  DATA_OFFSET_PAGES_def HEADER_SIZE_def ALLOCATED_EXTENTS_OFFSET_def DEFAULT_BUCKET_SIZE_OFFSET_def
  MEMORY_SIZES_OFFSET_def MEMORY_POLICIES_OFFSET_def WASM_PAGE_SIZE_def

section \<open>State\<close>

text \<open>\<open>owner_buffer\<close> is a scratch buffer that every use refills; it carries no state.\<close>

record 'm inner =
  in_memory :: 'm
  in_header :: bytes
  in_default_bucket :: nat
  in_allocated :: nat
  in_sizes :: "nat list"
  in_policies :: "nat list"
  in_next_address :: nat
  in_extents :: "nat list list"

record bucket_cache =
  bc_start :: nat
  bc_length :: nat
  bc_real :: nat
  bc_bucket :: nat

section \<open>Header bytes\<close>

definition put_le :: "nat \<Rightarrow> bytes \<Rightarrow> nat \<Rightarrow> nat \<Rightarrow> bytes option" where
  "put_le n header offset v = (if offset + n \<le> length header then Some (overwrite header offset (to_le n v)) else None)"

definition get_le :: "nat \<Rightarrow> bytes \<Rightarrow> nat \<Rightarrow> nat option" where
  "get_le n header offset = map_option from_le (subslice header offset (offset + n))"

definition empty_extent_index :: "nat list list" where
  "empty_extent_index = replicate MAX_MEMORY_IDS []"

definition memory_index :: "nat \<Rightarrow> nat option" where
  "memory_index mid = find (\<lambda>i. i = mid) [0..<MAX_MEMORY_IDS]"

section \<open>Inner: creation and reload\<close>

definition save_header :: "'m memory_ops \<Rightarrow> 'm inner \<Rightarrow> 'm inner option" where
  "save_header M s = do { m \<leftarrow> mem_write M (in_memory s) 0 (in_header s); Some (s\<lparr>in_memory := m\<rparr>) }"

definition inner_new :: "'m memory_ops \<Rightarrow> 'm \<Rightarrow> nat \<Rightarrow> 'm inner option" where
  "inner_new M m default_bucket = do {
     header \<leftarrow> put_le 2 (overwrite (overwrite (replicate HEADER_SIZE 0) 0 VMM_MAGIC) 3 [LAYOUT_VERSION])
       DEFAULT_BUCKET_SIZE_OFFSET default_bucket;
     s \<leftarrow> save_header M \<lparr>in_memory = m, in_header = header, in_default_bucket = default_bucket, in_allocated = 0,
       in_sizes = replicate MAX_MEMORY_IDS 0, in_policies = replicate MAX_MEMORY_IDS 0,
       in_next_address = DATA_OFFSET_PAGES * WASM_PAGE_SIZE, in_extents = empty_extent_index\<rparr>;
     m' \<leftarrow> mem_write M (in_memory s) HEADER_SIZE (replicate MAX_EXTENTS UNALLOCATED);
     Some (s\<lparr>in_memory := m'\<rparr>) }"

text \<open>
  The validation pass that \<open>load\<close> runs over the owners when there are many of them only counts and
  asserts; \<open>rebuild\<close> makes the same assertions on every owner.
\<close>

fun rebuild :: "nat list \<Rightarrow> nat list \<Rightarrow> nat \<Rightarrow> nat list list \<Rightarrow> (nat list list \<times> nat) option" where
  "rebuild policies [] address extents = Some (extents, address)"
| "rebuild policies (owner # owners) address extents = do {
     guard (owner < MAX_MEMORY_IDS);
     bucket \<leftarrow> index policies owner;
     guard (bucket \<noteq> 0);
     next_address \<leftarrow> checked_add64 address (bucket * WASM_PAGE_SIZE);
     rebuild policies owners next_address (extents[owner := extents ! owner @ [address]]) }"

definition inner_load :: "'m memory_ops \<Rightarrow> 'm \<Rightarrow> nat \<Rightarrow> 'm inner option" where
  "inner_load M m default_bucket = do {
     header \<leftarrow> mem_read M m 0 HEADER_SIZE;
     magic \<leftarrow> subslice header 0 3;
     guard (magic = VMM_MAGIC);
     version \<leftarrow> index header 3;
     guard (version = LAYOUT_VERSION);
     allocated \<leftarrow> get_le 4 header ALLOCATED_EXTENTS_OFFSET;
     persisted_default \<leftarrow> get_le 2 header DEFAULT_BUCKET_SIZE_OFFSET;
     sizes \<leftarrow> those (map (\<lambda>i. get_le 8 header (MEMORY_SIZES_OFFSET + i * 8)) [0..<MAX_MEMORY_IDS]);
     policies \<leftarrow> those (map (\<lambda>i. get_le 2 header (MEMORY_POLICIES_OFFSET + i * 2)) [0..<MAX_MEMORY_IDS]);
     guard (persisted_default = default_bucket);
     guard (allocated \<le> MAX_EXTENTS);
     owners \<leftarrow> mem_read M m HEADER_SIZE allocated;
     (extents, address) \<leftarrow> rebuild policies (map unat owners) (DATA_OFFSET_PAGES * WASM_PAGE_SIZE) empty_extent_index;
     Some \<lparr>in_memory = m, in_header = header, in_default_bucket = persisted_default, in_allocated = allocated,
       in_sizes = sizes, in_policies = policies, in_next_address = address, in_extents = extents\<rparr> }"

definition ensure_policy :: "'m inner \<Rightarrow> nat \<Rightarrow> nat \<Rightarrow> (bool \<times> 'm inner) option" where
  "ensure_policy s mid bucket_size = do {
     i \<leftarrow> memory_index mid;
     slot \<leftarrow> index (in_policies s) i;
     if slot = 0 then do {
       header \<leftarrow> put_le 2 (in_header s) (MEMORY_POLICIES_OFFSET + i * 2) bucket_size;
       Some (True, s\<lparr>in_policies := (in_policies s)[i := bucket_size], in_header := header\<rparr>) }
     else do { guard (slot = bucket_size); Some (False, s) } }"

definition policy :: "'m inner \<Rightarrow> nat \<Rightarrow> nat option option" where
  "policy s mid = do {
     i \<leftarrow> memory_index mid;
     p \<leftarrow> index (in_policies s) i;
     Some (if p \<noteq> 0 then Some p else None) }"

definition save_range :: "'m memory_ops \<Rightarrow> 'm inner \<Rightarrow> nat \<Rightarrow> nat \<Rightarrow> 'm inner option" where
  "save_range M s offset n = do {
     field \<leftarrow> subslice (in_header s) offset (offset + n);
     m \<leftarrow> mem_write M (in_memory s) offset field;
     Some (s\<lparr>in_memory := m\<rparr>) }"

definition save_policy :: "'m memory_ops \<Rightarrow> 'm inner \<Rightarrow> nat \<Rightarrow> 'm inner option" where
  "save_policy M s i = save_range M s (MEMORY_POLICIES_OFFSET + i * 2) 2"

definition save_grow_header :: "'m memory_ops \<Rightarrow> 'm inner \<Rightarrow> nat \<Rightarrow> 'm inner option" where
  "save_grow_header M s i = do {
     s' \<leftarrow> save_range M s ALLOCATED_EXTENTS_OFFSET 4;
     save_range M s' (MEMORY_SIZES_OFFSET + i * 8) 8 }"

section \<open>Inner: growth\<close>

definition required_pages :: "nat \<Rightarrow> nat \<Rightarrow> nat \<Rightarrow> nat option" where
  "required_pages next_address additional bucket_pages =
     (let added_bytes = Option.bind (checked_mul64 additional bucket_pages) (\<lambda>p. checked_mul64 p WASM_PAGE_SIZE)
      in map_option (\<lambda>b. div_ceil b WASM_PAGE_SIZE)
           (checked_add64 next_address (case added_bytes of Some b \<Rightarrow> b | None \<Rightarrow> u64_max)))"

definition reserve :: "'m memory_ops \<Rightarrow> 'm \<Rightarrow> nat \<Rightarrow> 'm option" where
  "reserve M m required = (if mem_size M m < required then
       (case mem_grow M m (required - mem_size M m) of (r, m') \<Rightarrow> if r = -1 then None else Some m')
     else Some m)"

definition claim_extents :: "'m memory_ops \<Rightarrow> 'm inner \<Rightarrow> nat \<Rightarrow> nat \<Rightarrow> nat \<Rightarrow> nat \<Rightarrow> 'm inner option" where
  "claim_extents M s i additional bucket_pages new_size = do {
     m \<leftarrow> (if 0 < additional then mem_write M (in_memory s) (HEADER_SIZE + in_allocated s) (replicate additional (word_of_nat i))
       else Some (in_memory s));
     let size_in_bytes = bucket_pages * WASM_PAGE_SIZE;
     let allocated = in_allocated s + additional;
     header \<leftarrow> put_le 4 (in_header s) ALLOCATED_EXTENTS_OFFSET allocated;
     header' \<leftarrow> put_le 8 header (MEMORY_SIZES_OFFSET + i * 8) new_size;
     save_grow_header M (s\<lparr>in_memory := m, in_header := header', in_allocated := allocated,
       in_sizes := (in_sizes s)[i := new_size],
       in_next_address := in_next_address s + additional * size_in_bytes,
       in_extents := (in_extents s)[i := in_extents s ! i
         @ map (\<lambda>k. in_next_address s + k * size_in_bytes) [0..<additional]]\<rparr>) i }"

definition inner_grow :: "'m memory_ops \<Rightarrow> 'm inner \<Rightarrow> nat \<Rightarrow> nat \<Rightarrow> (int \<times> 'm inner) option" where
  "inner_grow M s i pages = do {
     old_size \<leftarrow> index (in_sizes s) i;
     case checked_add64 old_size pages of
       None \<Rightarrow> Some (-1, s)
     | Some new_size \<Rightarrow> do {
         bucket_pages \<leftarrow> index (in_policies s) i;
         guard (bucket_pages \<noteq> 0);
         let additional = div_ceil new_size bucket_pages - div_ceil old_size bucket_pages;
         if MAX_EXTENTS < add64 (in_allocated s) additional then Some (-1, s)
         else case required_pages (in_next_address s) additional bucket_pages of
           None \<Rightarrow> Some (-1, s)
         | Some required \<Rightarrow>
             (case reserve M (in_memory s) required of
                None \<Rightarrow> Some (-1, s)
              | Some m \<Rightarrow> do {
                  s' \<leftarrow> claim_extents M (s\<lparr>in_memory := m\<rparr>) i additional bucket_pages new_size;
                  Some (int old_size, s') }) } }"

section \<open>Bucket cache and segmented access\<close>

definition cache_new :: "nat \<Rightarrow> bucket_cache" where
  "cache_new bucket = \<lparr>bc_start = 0, bc_length = 0, bc_real = 0, bc_bucket = bucket\<rparr>"

definition cache_get :: "bucket_cache \<Rightarrow> nat \<Rightarrow> nat \<Rightarrow> nat option" where
  "cache_get c start n = (if bc_start c \<le> start then do {
       e \<leftarrow> checked_add64 start n;
       if e \<le> bc_start c + bc_length c then Some (bc_real c + start - bc_start c) else None }
     else None)"

definition cache_store :: "bucket_cache \<Rightarrow> nat \<Rightarrow> nat \<Rightarrow> nat \<Rightarrow> bucket_cache" where
  "cache_store c start n r = c\<lparr>bc_start := start, bc_length := n, bc_real := r\<rparr>"

text \<open>
  The loop of \<open>for_each_segment\<close>: the real address, length and progress of every segment it hands to
  its callback, and the cache it leaves. The callbacks touch neither the extents nor the cache.
\<close>

function segments :: "nat list \<Rightarrow> nat \<Rightarrow> nat \<Rightarrow> nat \<Rightarrow> bucket_cache \<Rightarrow> ((nat \<times> nat \<times> nat) list \<times> bucket_cache) option" where
  "segments extents voff copied count c =
     (if copied < count then
        (if bc_bucket c = 0 then None
         else do {
           address \<leftarrow> index extents (voff div bc_bucket c);
           let within = voff mod bc_bucket c;
           let n = min (bc_bucket c - within) (count - copied);
           (segs, c') \<leftarrow> segments extents (voff + n) (copied + n) count
             (cache_store c (voff - within) (bc_bucket c) address);
           Some ((address + within, n, copied) # segs, c') })
      else Some ([], c))"
  by pat_completeness auto

termination
proof (relation "measure (\<lambda>(_, _, copied, count, _). count - copied)", goal_cases)
  case (2 extents voff copied count c address within n)
  have "0 < n" "copied < count" using 2 by simp_all
  then have "count - (copied + n) < count - copied" by linarith
  then show ?case by simp
qed simp

declare segments.simps [simp del]

definition for_each_segment :: "'m inner \<Rightarrow> nat \<Rightarrow> nat \<Rightarrow> nat \<Rightarrow> bucket_cache \<Rightarrow> ((nat \<times> nat \<times> nat) list \<times> bucket_cache) option" where
  "for_each_segment s i offset count c = do {
     pages \<leftarrow> index (in_sizes s) i;
     size \<leftarrow> checked_mul64 pages WASM_PAGE_SIZE;
     e \<leftarrow> checked_add64 offset count;
     guard (e \<le> size);
     if count = 0 then Some ([], c)
     else do { extents \<leftarrow> index (in_extents s) i; segments extents offset 0 count c } }"

definition inner_read :: "'m memory_ops \<Rightarrow> 'm inner \<Rightarrow> nat \<Rightarrow> nat \<Rightarrow> nat \<Rightarrow> bucket_cache \<Rightarrow> (bytes \<times> bucket_cache) option" where
  "inner_read M s i offset count c = (case cache_get c offset count of
       Some real_address \<Rightarrow> map_option (\<lambda>b. (b, c)) (mem_read M (in_memory s) real_address count)
     | None \<Rightarrow> do {
         (segs, c') \<leftarrow> for_each_segment s i offset count c;
         bs \<leftarrow> those (map (\<lambda>(address, n, _). mem_read M (in_memory s) address n) segs);
         Some (concat bs, c') })"

fun write_segments :: "'m memory_ops \<Rightarrow> bytes \<Rightarrow> (nat \<times> nat \<times> nat) list \<Rightarrow> 'm \<Rightarrow> 'm option" where
  "write_segments M src [] m = Some m"
| "write_segments M src ((address, n, copied) # segs) m = do {
     part \<leftarrow> subslice src copied (copied + n);
     m' \<leftarrow> mem_write M m address part;
     write_segments M src segs m' }"

definition inner_write :: "'m memory_ops \<Rightarrow> 'm inner \<Rightarrow> nat \<Rightarrow> nat \<Rightarrow> bytes \<Rightarrow> bucket_cache \<Rightarrow> ('m inner \<times> bucket_cache) option" where
  "inner_write M s i offset src c = (case cache_get c offset (length src) of
       Some real_address \<Rightarrow> map_option (\<lambda>m. (s\<lparr>in_memory := m\<rparr>, c)) (mem_write M (in_memory s) real_address src)
     | None \<Rightarrow> do {
         (segs, c') \<leftarrow> for_each_segment s i offset (length src) c;
         m \<leftarrow> write_segments M src segs (in_memory s);
         Some (s\<lparr>in_memory := m\<rparr>, c') })"

section \<open>MemoryManager and VirtualMemory\<close>

text \<open>A manager shares its \<open>Inner\<close> with the virtual memories it hands out; a handle is its memory index and cache.\<close>

record 'm manager =
  mg_inner :: "'m inner"
  mg_handles :: "(nat \<times> bucket_cache) list"

definition init_with_default_bucket_size :: "'m memory_ops \<Rightarrow> 'm \<Rightarrow> nat \<Rightarrow> 'm manager option" where
  "init_with_default_bucket_size M m bucket = do {
     guard (0 < bucket);
     s \<leftarrow> (if mem_size M m = 0 then
         (case mem_grow M m DATA_OFFSET_PAGES of (r, m') \<Rightarrow> do { guard (r \<noteq> -1); inner_new M m' bucket })
       else inner_load M m bucket);
     Some \<lparr>mg_inner = s, mg_handles = []\<rparr> }"

definition manager_init :: "'m memory_ops \<Rightarrow> 'm \<Rightarrow> 'm manager option" where
  "manager_init M m = init_with_default_bucket_size M m DEFAULT_BUCKET_SIZE_IN_PAGES"

fun ensure_policies :: "'m inner \<Rightarrow> (nat \<times> nat) list \<Rightarrow> bool \<Rightarrow> (bool \<times> 'm inner) option" where
  "ensure_policies s [] changed = Some (changed, s)"
| "ensure_policies s ((mid, bucket) # policies) changed = do {
     (new, s') \<leftarrow> ensure_policy s mid bucket;
     ensure_policies s' policies (changed \<or> new) }"

definition init_with_policies :: "'m memory_ops \<Rightarrow> 'm \<Rightarrow> nat \<Rightarrow> (nat \<times> nat) list \<Rightarrow> 'm manager option" where
  "init_with_policies M m bucket policies = do {
     mg \<leftarrow> init_with_default_bucket_size M m bucket;
     (changed, s) \<leftarrow> ensure_policies (mg_inner mg) policies False;
     s' \<leftarrow> (if changed then save_header M s else Some s);
     Some (mg\<lparr>mg_inner := s'\<rparr>) }"

definition get_with_bucket_size :: "'m memory_ops \<Rightarrow> 'm manager \<Rightarrow> nat \<Rightarrow> nat \<Rightarrow> 'm manager option" where
  "get_with_bucket_size M mg mid bucket = do {
     guard (0 < bucket);
     (new, s) \<leftarrow> ensure_policy (mg_inner mg) mid bucket;
     i \<leftarrow> memory_index mid;
     s' \<leftarrow> (if new then save_policy M s i else Some s);
     Some (mg\<lparr>mg_inner := s', mg_handles := mg_handles mg @ [(i, cache_new (bucket * WASM_PAGE_SIZE))]\<rparr>) }"

definition manager_get :: "'m memory_ops \<Rightarrow> 'm manager \<Rightarrow> nat \<Rightarrow> 'm manager option" where
  "manager_get M mg mid = do {
     p \<leftarrow> policy (mg_inner mg) mid;
     get_with_bucket_size M mg mid (case p of Some b \<Rightarrow> b | None \<Rightarrow> in_default_bucket (mg_inner mg)) }"

definition virtual_size :: "'m manager \<Rightarrow> nat \<Rightarrow> nat option" where
  "virtual_size mg h = do { (i, _) \<leftarrow> index (mg_handles mg) h; index (in_sizes (mg_inner mg)) i }"

definition virtual_grow :: "'m memory_ops \<Rightarrow> 'm manager \<Rightarrow> nat \<Rightarrow> nat \<Rightarrow> (int \<times> 'm manager) option" where
  "virtual_grow M mg h pages = do {
     (i, _) \<leftarrow> index (mg_handles mg) h;
     (r, s) \<leftarrow> inner_grow M (mg_inner mg) i pages;
     Some (r, mg\<lparr>mg_inner := s\<rparr>) }"

definition virtual_read :: "'m memory_ops \<Rightarrow> 'm manager \<Rightarrow> nat \<Rightarrow> nat \<Rightarrow> nat \<Rightarrow> (bytes \<times> 'm manager) option" where
  "virtual_read M mg h offset count = do {
     (i, c) \<leftarrow> index (mg_handles mg) h;
     (b, c') \<leftarrow> inner_read M (mg_inner mg) i offset count c;
     Some (b, mg\<lparr>mg_handles := (mg_handles mg)[h := (i, c')]\<rparr>) }"

definition virtual_write :: "'m memory_ops \<Rightarrow> 'm manager \<Rightarrow> nat \<Rightarrow> nat \<Rightarrow> bytes \<Rightarrow> 'm manager option" where
  "virtual_write M mg h offset src = do {
     (i, c) \<leftarrow> index (mg_handles mg) h;
     (s, c') \<leftarrow> inner_write M (mg_inner mg) i offset src c;
     Some (mg\<lparr>mg_inner := s, mg_handles := (mg_handles mg)[h := (i, c')]\<rparr>) }"

text \<open>An upgrade drops the handles and opens the memory again.\<close>

definition reopen :: "'m memory_ops \<Rightarrow> 'm manager \<Rightarrow> 'm manager option" where
  "reopen M mg = init_with_default_bucket_size M (in_memory (mg_inner mg)) (in_default_bucket (mg_inner mg))"

section \<open>Lemmas: where the bytes of a virtual memory are\<close>

definition bucket_bytes :: "'m inner \<Rightarrow> nat \<Rightarrow> nat" where
  "bucket_bytes s i = in_policies s ! i * 65536"

definition real :: "'m inner \<Rightarrow> nat \<Rightarrow> nat \<Rightarrow> nat" where
  "real s i v = in_extents s ! i ! (v div bucket_bytes s i) + v mod bucket_bytes s i"

definition capacity :: "'m inner \<Rightarrow> nat \<Rightarrow> nat" where
  "capacity s i = length (in_extents s ! i) * bucket_bytes s i"

definition vbytes :: "'m inner \<Rightarrow> nat \<Rightarrow> nat" where
  "vbytes s i = in_sizes s ! i * 65536"

text \<open>The extents of all memories are disjoint intervals between the metadata and the next address.\<close>

definition extents_ok :: "'m inner \<Rightarrow> bool" where
  "extents_ok s \<longleftrightarrow> length (in_extents s) = 255 \<and> length (in_sizes s) = 255 \<and> length (in_policies s) = 255
     \<and> 131072 \<le> in_next_address s \<and> in_next_address s < 2 ^ 64 \<and> 65536 dvd in_next_address s
     \<and> (\<forall>i<255. \<forall>e<length (in_extents s ! i).
          131072 \<le> in_extents s ! i ! e \<and> in_extents s ! i ! e + bucket_bytes s i \<le> in_next_address s)
     \<and> (\<forall>i<255. \<forall>j<255. \<forall>e<length (in_extents s ! i). \<forall>f<length (in_extents s ! j). (i, e) \<noteq> (j, f) \<longrightarrow>
          in_extents s ! i ! e + bucket_bytes s i \<le> in_extents s ! j ! f
          \<or> in_extents s ! j ! f + bucket_bytes s j \<le> in_extents s ! i ! e)
     \<and> (\<forall>i<255. in_policies s ! i < 65536
          \<and> (if in_policies s ! i = 0 then in_sizes s ! i = 0 \<and> in_extents s ! i = []
             else length (in_extents s ! i) = div_ceil (in_sizes s ! i) (in_policies s ! i)))"

lemma next_bound: "extents_ok s \<Longrightarrow> in_next_address s \<le> u64_max"
  unfolding extents_ok_def by (elim conjE) simp

lemma real_bounds:
  assumes "extents_ok s" "i < 255" "v < capacity s i"
  shows "131072 \<le> real s i v" "real s i v < in_next_address s" "0 < bucket_bytes s i"
    "v div bucket_bytes s i < length (in_extents s ! i)"
proof -
  show b: "0 < bucket_bytes s i" using assms(3) by (cases "bucket_bytes s i") (simp_all add: capacity_def)
  show e: "v div bucket_bytes s i < length (in_extents s ! i)"
    using assms(3) by (intro less_mult_imp_div_less) (simp add: capacity_def)
  let ?a = "in_extents s ! i ! (v div bucket_bytes s i)"
  have a: "131072 \<le> ?a" "?a + bucket_bytes s i \<le> in_next_address s"
    using assms(1,2) e unfolding extents_ok_def by blast+
  have "v mod bucket_bytes s i < bucket_bytes s i" using b by simp
  with a show "131072 \<le> real s i v" "real s i v < in_next_address s" by (simp_all add: real_def)
qed

lemma real_inject:
  assumes s: "extents_ok s" and i: "i < 255" "v < capacity s i" and j: "j < 255" "w < capacity s j"
    and eq: "real s i v = real s j w"
  shows "i = j \<and> v = w"
proof -
  let ?e = "v div bucket_bytes s i" and ?f = "w div bucket_bytes s j"
  note I = real_bounds [OF s i] and J = real_bounds [OF s j]
  have m: "v mod bucket_bytes s i < bucket_bytes s i" "w mod bucket_bytes s j < bucket_bytes s j" using I(3) J(3) by simp_all
  have "(i, ?e) = (j, ?f)"
  proof (rule ccontr)
    assume ne: "(i, ?e) \<noteq> (j, ?f)"
    then have "in_extents s ! i ! ?e + bucket_bytes s i \<le> in_extents s ! j ! ?f
        \<or> in_extents s ! j ! ?f + bucket_bytes s j \<le> in_extents s ! i ! ?e"
      using s i(1) j(1) I(4) J(4) unfolding extents_ok_def by blast
    with m eq show False unfolding real_def by linarith
  qed
  then have "i = j \<and> ?e = ?f" by blast
  then have ij: "i = j" "?e = ?f" by blast+
  moreover have "v mod bucket_bytes s i = w mod bucket_bytes s j" using eq ij by (simp add: real_def)
  ultimately show ?thesis by (metis div_mult_mod_eq)
qed

lemma vbytes_capacity: "extents_ok s \<Longrightarrow> i < 255 \<Longrightarrow> vbytes s i \<le> capacity s i"
proof (cases "in_policies s ! i = 0")
  case True
  assume "extents_ok s" "i < 255"
  with True show ?thesis by (simp add: extents_ok_def vbytes_def)
next
  case False
  assume s: "extents_ok s" "i < 255"
  then have "length (in_extents s ! i) = div_ceil (in_sizes s ! i) (in_policies s ! i)" using False by (simp add: extents_ok_def)
  with div_ceil_mult [of "in_policies s ! i" "in_sizes s ! i"] False show ?thesis
    by (simp add: vbytes_def capacity_def bucket_bytes_def mult.assoc [symmetric])
qed

lemma capacity_next:
  assumes "extents_ok s" "i < 255"
  shows "capacity s i \<le> in_next_address s"
proof -
  have "real s i ` {..<capacity s i} \<subseteq> {..<in_next_address s}" using real_bounds [OF assms] by auto
  moreover have "inj_on (real s i) {..<capacity s i}" using real_inject [OF assms(1)] assms(2) by (auto simp: inj_on_def)
  ultimately have "card {..<capacity s i} \<le> card {..<in_next_address s}" by (intro card_inj_on_le) auto
  then show ?thesis by simp
qed

lemma layout_frame [simp]:
  "bucket_bytes (s\<lparr>in_memory := x\<rparr>) = bucket_bytes s" "bucket_bytes (s\<lparr>in_header := h\<rparr>) = bucket_bytes s"
  "real (s\<lparr>in_memory := x\<rparr>) = real s" "real (s\<lparr>in_header := h\<rparr>) = real s"
  "capacity (s\<lparr>in_memory := x\<rparr>) = capacity s" "capacity (s\<lparr>in_header := h\<rparr>) = capacity s"
  "vbytes (s\<lparr>in_memory := x\<rparr>) = vbytes s" "vbytes (s\<lparr>in_header := h\<rparr>) = vbytes s"
  by (simp_all add: fun_eq_iff bucket_bytes_def real_def capacity_def vbytes_def)

lemma extents_ok_frame [simp]:
  "extents_ok (s\<lparr>in_memory := x\<rparr>) = extents_ok s" "extents_ok (s\<lparr>in_header := h\<rparr>) = extents_ok s"
  by (simp_all add: extents_ok_def)

section \<open>Lemmas: segments\<close>

text \<open>A cache is empty or holds one extent of its memory.\<close>

definition cache_ok :: "'m inner \<Rightarrow> nat \<Rightarrow> bucket_cache \<Rightarrow> bool" where
  "cache_ok s i c \<longleftrightarrow> bc_bucket c = bucket_bytes s i
     \<and> (bc_length c = 0 \<and> bc_start c = 0 \<and> bc_real c = 0
        \<or> (\<exists>e<length (in_extents s ! i). bc_start c = e * bucket_bytes s i \<and> bc_length c = bucket_bytes s i
             \<and> bc_real c = in_extents s ! i ! e))"

text \<open>Consecutive pieces of the virtual range, each inside one extent.\<close>

fun seg_chain :: "'m inner \<Rightarrow> nat \<Rightarrow> nat \<Rightarrow> nat \<Rightarrow> nat \<Rightarrow> (nat \<times> nat \<times> nat) list \<Rightarrow> bool" where
  "seg_chain s i off c n [] \<longleftrightarrow> c = n"
| "seg_chain s i off c n ((a, l, k) # segs) \<longleftrightarrow> k = c \<and> c + l \<le> n \<and> a + l \<le> in_next_address s
     \<and> (\<forall>t<l. real s i (off + c + t) = a + t) \<and> seg_chain s i off (c + l) n segs"

lemma real_run:
  assumes "extents_ok s" "i < 255" "v < capacity s i" "l \<le> bucket_bytes s i - v mod bucket_bytes s i"
  shows "\<forall>t<l. real s i (v + t) = real s i v + t" "real s i v + l \<le> in_next_address s"
proof -
  let ?b = "bucket_bytes s i"
  note B = real_bounds [OF assms(1-3)]
  have m: "v mod ?b < ?b" using B(3) by simp
  show "\<forall>t<l. real s i (v + t) = real s i v + t"
  proof (intro allI impI)
    fix t assume "t < l"
    then have lt: "v mod ?b + t < ?b" using assms(4) m by linarith
    have "v + t = v div ?b * ?b + (v mod ?b + t)" using div_mult_mod_eq [of v ?b] by linarith
    then have "(v + t) div ?b = v div ?b" "(v + t) mod ?b = v mod ?b + t"
      using lt B(3) by (metis div_mult_self3 div_less add_0 add.commute mult.commute less_imp_neq, metis lt mod_less mod_mult_self3)
    then show "real s i (v + t) = real s i v + t" by (simp add: real_def)
  qed
  have "in_extents s ! i ! (v div ?b) + ?b \<le> in_next_address s"
    using assms(1,2) B(4) unfolding extents_ok_def by blast
  then show "real s i v + l \<le> in_next_address s" using assms(4) m unfolding real_def by linarith
qed

lemma segments_law:
  assumes "extents_ok s" "i < 255" "cache_ok s i c" "off + n \<le> capacity s i" "copied \<le> n" "v = off + copied"
  shows "\<exists>segs c'. segments (in_extents s ! i) v copied n c = Some (segs, c') \<and> cache_ok s i c' \<and> seg_chain s i off copied n segs"
  using assms(3,5,6)
proof (induction "n - copied" arbitrary: v copied c rule: less_induct)
  case less
  show ?case
  proof (cases "copied < n")
    case False
    then show ?thesis using less.prems by (subst segments.simps) simp
  next
    case True
    let ?b = "bucket_bytes s i"
    have v: "v < capacity s i" using True assms(4) less.prems(3) by simp
    note B = real_bounds [OF assms(1,2) v]
    have cb: "bc_bucket c = ?b" using less.prems(1) by (simp add: cache_ok_def)
    define l where "l = min (?b - v mod ?b) (n - copied)"
    define a where "a = in_extents s ! i ! (v div ?b)"
    have "v mod ?b < ?b" using B(3) by simp
    then have l: "0 < l" "l \<le> ?b - v mod ?b" "copied + l \<le> n" using True by (auto simp: l_def)
    let ?c = "cache_store c (v - v mod ?b) ?b a"
    have c': "cache_ok s i ?c"
      unfolding cache_ok_def using cb B(4) minus_mod_eq_div_mult [of v ?b] by (auto simp: cache_store_def a_def)
    have dec: "n - (copied + l) < n - copied" using l(1,3) by linarith
    have veq: "v + l = off + (copied + l)" using less.prems(3) by simp
    obtain segs c'' where IH: "segments (in_extents s ! i) (v + l) (copied + l) n ?c = Some (segs, c'')" "cache_ok s i c''"
      "seg_chain s i off (copied + l) n segs"
      using less.hyps [OF dec c' l(3) veq] by blast
    have r: "real s i v = a + v mod ?b" by (simp add: real_def a_def)
    have "segments (in_extents s ! i) v copied n c = Some ((a + v mod ?b, l, copied) # segs, c'')"
      using True B(3,4) IH(1) by (subst segments.simps) (simp add: cb index_def Let_def l_def [symmetric] a_def [symmetric])
    moreover have "seg_chain s i off copied n ((a + v mod ?b, l, copied) # segs)"
      using real_run [OF assms(1,2) v l(2)] IH(3) l(3) unfolding r [symmetric] unfolding less.prems(3) by simp
    ultimately show ?thesis using IH(2) by blast
  qed
qed

lemma cached_chain:
  assumes "extents_ok s" "i < 255" "cache_ok s i c" "cache_get c off n = Some a"
  shows "seg_chain s i off 0 n [(a, n, 0)]" "a \<le> in_next_address s"
proof -
  have g: "bc_start c \<le> off" "off + n \<le> bc_start c + bc_length c" "a = bc_real c + off - bc_start c"
    using assms(4) by (auto simp: cache_get_def checked_add64_def split: if_splits)
  have "a + n \<le> in_next_address s \<and> (\<forall>t<n. real s i (off + t) = a + t)"
  proof (cases "bc_length c = 0")
    case True
    then have "n = 0" "off = bc_start c" "bc_real c = bc_start c \<or> bucket_bytes s i = 0" using g assms(3) by (auto simp: cache_ok_def)
    moreover have "bc_real c \<le> in_next_address s"
    proof (cases "bc_real c = 0")
      case False
      with assms(3) obtain e where "e < length (in_extents s ! i)" "bc_real c = in_extents s ! i ! e" by (auto simp: cache_ok_def)
      with assms(1,2) show ?thesis unfolding extents_ok_def by (metis add_leE)
    qed simp
    ultimately show ?thesis using g(3) by auto
  next
    case False
    let ?b = "bucket_bytes s i"
    obtain e where e: "e < length (in_extents s ! i)" "bc_start c = e * ?b" "bc_length c = ?b" "bc_real c = in_extents s ! i ! e"
      using assms(3) False by (auto simp: cache_ok_def)
    have b: "0 < ?b" using False e(3) by simp
    have a: "a = in_extents s ! i ! e + (off - e * ?b)" using g(1,3) e(2,4) by simp
    have ext: "in_extents s ! i ! e + ?b \<le> in_next_address s" using assms(1,2) e(1) unfolding extents_ok_def by blast
    have "real s i (off + t) = a + t" if "t < n" for t
    proof -
      have lt: "off + t - e * ?b < ?b" using g(1,2) e(2,3) that by linarith
      have "off + t = e * ?b + (off + t - e * ?b)" using g(1) e(2) by simp
      then have "(off + t) div ?b = e" "(off + t) mod ?b = off + t - e * ?b"
        using lt b by (metis add.commute add_0 div_less div_mult_self3 less_imp_neq, metis lt mod_less mod_mult_self3)
      then show ?thesis using g(1) e(2) a by (simp add: real_def)
    qed
    moreover have "a + n \<le> in_next_address s" using a ext g(1,2) e(2,3) by linarith
    ultimately show ?thesis by blast
  qed
  then show "seg_chain s i off 0 n [(a, n, 0)]" "a \<le> in_next_address s" by simp_all
qed

lemma access_law:
  assumes "extents_ok s" "i < 255" "cache_ok s i c" "off + n \<le> vbytes s i"
  shows "(\<exists>a. cache_get c off n = Some a \<and> seg_chain s i off 0 n [(a, n, 0)])
    \<or> cache_get c off n = None \<and> (\<exists>segs c'. for_each_segment s i off n c = Some (segs, c') \<and> cache_ok s i c' \<and> seg_chain s i off 0 n segs)"
proof (cases "cache_get c off n")
  case None
  have le: "vbytes s i \<le> u64_max"
    using vbytes_capacity [OF assms(1,2)] capacity_next [OF assms(1,2)] next_bound [OF assms(1)] by linarith
  have ix: "index (in_sizes s) i = Some (in_sizes s ! i)" "index (in_extents s) i = Some (in_extents s ! i)"
    using assms(1,2) by (simp_all add: extents_ok_def index_def)
  have sz: "checked_mul64 (in_sizes s ! i) WASM_PAGE_SIZE = Some (vbytes s i)"
    using le by (simp add: checked_mul64_def WASM_PAGE_SIZE_def vbytes_def)
  have e: "checked_add64 off n = Some (off + n)" using le assms(4) by (simp add: checked_add64_def)
  have cap: "off + n \<le> capacity s i" using vbytes_capacity [OF assms(1,2)] assms(4) by simp
  obtain segs c' where "segments (in_extents s ! i) off 0 n c = Some (segs, c')" "cache_ok s i c'" "seg_chain s i off 0 n segs"
    using segments_law [OF assms(1-3) cap, of 0 off] by auto
  then show ?thesis using None assms(3,4) by (auto simp: for_each_segment_def ix sz e)
qed (use cached_chain [OF assms(1-3)] in blast)

section \<open>Lemmas: reading and writing\<close>

text \<open>The bytes of virtual memory \<open>i\<close>, read through its extents.\<close>

definition virtual_contents :: "('m \<Rightarrow> bytes) \<Rightarrow> 'm inner \<Rightarrow> nat \<Rightarrow> bytes" where
  "virtual_contents contents s i = map (\<lambda>v. contents (in_memory s) ! real s i v) [0..<vbytes s i]"

context stable_memory
begin

abbreviation vcontents :: "'m inner \<Rightarrow> nat \<Rightarrow> bytes" where
  "vcontents \<equiv> virtual_contents contents"

text \<open>Space no virtual memory has reached yet is zero.\<close>

definition fresh_zero :: "'m inner \<Rightarrow> bool" where
  "fresh_zero s \<longleftrightarrow> (\<forall>x. 131072 \<le> x \<and> x < length (contents (in_memory s)) \<and> (\<forall>i<255. \<forall>v<vbytes s i. real s i v \<noteq> x)
     \<longrightarrow> contents (in_memory s) ! x = 0)"

definition space_ok :: "'m inner \<Rightarrow> bool" where
  "space_ok s \<longleftrightarrow> extents_ok s \<and> ok (in_memory s) \<and> in_next_address s \<le> length (contents (in_memory s)) \<and> fresh_zero s"

lemma length_vcontents [simp]: "length (vcontents s i) = vbytes s i"
  by (simp add: virtual_contents_def)

lemma nth_vcontents: "v < vbytes s i \<Longrightarrow> vcontents s i ! v = contents (in_memory s) ! real s i v"
  by (simp add: virtual_contents_def)

lemma read_segments:
  assumes "ok m" "in_next_address s \<le> length (contents m)" "seg_chain s i off c n segs"
  shows "\<exists>bs. those (map (\<lambda>(a, l, _). mem_read M m a l) segs) = Some bs
    \<and> concat bs = map (\<lambda>v. contents m ! real s i v) [off + c..<off + n]"
  using assms(3)
proof (induction segs arbitrary: c)
  case (Cons x segs)
  obtain a l k where x: "x = (a, l, k)" by (cases x)
  note C = Cons.prems [unfolded x seg_chain.simps]
  obtain bs where bs: "those (map (\<lambda>(a, l, _). mem_read M m a l) segs) = Some bs"
    "concat bs = map (\<lambda>v. contents m ! real s i v) [off + (c + l)..<off + n]"
    using Cons.IH C by blast
  have r: "mem_read M m a l = Some (window (contents m) a l)" using C assms(2) by (intro read_law [OF assms(1)]) simp
  have "window (contents m) a l = map (\<lambda>v. contents m ! real s i v) [off + c..<off + c + l]"
    using C assms(2) by (intro nth_equalityI) (simp_all add: nth_window)
  moreover have "[off + c..<off + n] = [off + c..<off + c + l] @ [off + (c + l)..<off + n]"
    using C upt_add_eq_append [of "off + c" "off + c + l" "n - (c + l)"] by (simp add: add.assoc)
  ultimately show ?case using r bs by (simp add: x)
qed simp

lemma inner_read_law:
  assumes "space_ok s" "i < 255" "cache_ok s i c" "off + n \<le> vbytes s i"
  shows "\<exists>c'. inner_read M s i off n c = Some (window (vcontents s i) off n, c') \<and> cache_ok s i c'"
proof -
  have E: "extents_ok s" "ok (in_memory s)" "in_next_address s \<le> length (contents (in_memory s))"
    using assms(1) by (simp_all add: space_ok_def)
  have w: "window (vcontents s i) off n = map (\<lambda>v. contents (in_memory s) ! real s i v) [off..<off + n]"
    using assms(4) by (intro nth_equalityI) (simp_all add: nth_window nth_vcontents)
  from access_law [OF E(1) assms(2-4)] show ?thesis
  proof (elim disjE exE conjE)
    fix a assume a: "cache_get c off n = Some a" "seg_chain s i off 0 n [(a, n, 0)]"
    from read_segments [OF E(2,3) a(2)] show ?thesis using a(1) assms(3)
      by (auto simp: inner_read_def w split: option.splits)
  next
    fix segs c' assume g: "cache_get c off n = None" "for_each_segment s i off n c = Some (segs, c')" "cache_ok s i c'"
      "seg_chain s i off 0 n segs"
    from read_segments [OF E(2,3) g(4)] show ?thesis using g(1-3) by (auto simp: inner_read_def w)
  qed
qed

lemma cache_ok_memory [simp]: "cache_ok (s\<lparr>in_memory := x\<rparr>) i c = cache_ok s i c"
  by (simp add: cache_ok_def)

lemma write_segments_law:
  assumes s: "extents_ok s" "i < 255" "off + n \<le> capacity s i" "length src = n"
    and m: "ok m" "in_next_address s \<le> length (contents m)" "seg_chain s i off c n segs"
  shows "\<exists>m'. write_segments M src segs m = Some m' \<and> ok m' \<and> length (contents m') = length (contents m)
    \<and> (\<forall>v. off + c \<le> v \<and> v < off + n \<longrightarrow> contents m' ! real s i v = src ! (v - off))
    \<and> (\<forall>x<length (contents m). (\<forall>v. off + c \<le> v \<and> v < off + n \<longrightarrow> real s i v \<noteq> x) \<longrightarrow> contents m' ! x = contents m ! x)"
  using m
proof (induction segs arbitrary: c m)
  case Nil
  then show ?case by auto
next
  case (Cons x segs)
  obtain a l k where x: "x = (a, l, k)" by (cases x)
  note C = Cons.prems(3) [unfolded x seg_chain.simps]
  let ?part = "take l (drop c src)"
  have part: "subslice src k (k + l) = Some ?part" "length ?part = l" using C s(4) by (auto simp: subslice_def min_def)
  have al: "a + l \<le> length (contents m)" using C Cons.prems(2) by linarith
  obtain m1 where m1: "mem_write M m a ?part = Some m1" "ok m1" "contents m1 = overwrite (contents m) a ?part"
    using write_law [OF Cons.prems(1), of a ?part] al part(2) by auto
  have len: "length (contents m1) = length (contents m)" using m1(3) al part(2) by simp
  obtain m' where m': "write_segments M src segs m1 = Some m'" "ok m'" "length (contents m') = length (contents m1)"
    "\<forall>v. off + (c + l) \<le> v \<and> v < off + n \<longrightarrow> contents m' ! real s i v = src ! (v - off)"
    "\<forall>x<length (contents m1). (\<forall>v. off + (c + l) \<le> v \<and> v < off + n \<longrightarrow> real s i v \<noteq> x) \<longrightarrow> contents m' ! x = contents m1 ! x"
    using Cons.IH [OF m1(2), of "c + l"] Cons.prems(2) C len by auto
  have run: "real s i (off + c + t) = a + t" if "t < l" for t using C that by blast
  have "contents m' ! real s i v = src ! (v - off)" if v: "off + c \<le> v" "v < off + n" for v
  proof (cases "v < off + c + l")
    case True
    define t where "t = v - (off + c)"
    have t: "t < l" "v = off + c + t" using v True by (auto simp: t_def)
    have r: "real s i v = a + t" using run [OF t(1)] t(2) by simp
    have "real s i w \<noteq> real s i v" if "off + (c + l) \<le> w" "w < off + n" for w
      using real_inject [OF s(1,2) _ s(2), of w v] that v True s(3) by auto
    then have "contents m' ! (a + t) = contents m1 ! (a + t)" using m'(5) r al t(1) len by auto
    also have "\<dots> = src ! (c + t)" using m1(3) al part(2) t(1) C s(4) by (simp add: nth_overwrite)
    finally show ?thesis using r t(2) by simp
  qed (use m'(4) v in simp)
  moreover have "contents m' ! y = contents m ! y"
    if y: "y < length (contents m)" "\<forall>v. off + c \<le> v \<and> v < off + n \<longrightarrow> real s i v \<noteq> y" for y
  proof -
    have "\<not> (a \<le> y \<and> y < a + l)"
    proof
      assume "a \<le> y \<and> y < a + l"
      then have "real s i (off + c + (y - a)) = y" using run [of "y - a"] by auto
      moreover have "off + c + (y - a) < off + n" using \<open>a \<le> y \<and> y < a + l\<close> C by linarith
      ultimately show False using y(2) by auto
    qed
    then have "contents m1 ! y = contents m ! y" using m1(3) al part(2) y(1) by (auto simp: nth_overwrite)
    then show ?thesis using m'(5) y len by auto
  qed
  ultimately show ?case using part(1) m1(1) m'(1-3) len by (simp add: x)
qed

lemma inner_write_law:
  assumes "space_ok s" "i < 255" "cache_ok s i c" "off + length src \<le> vbytes s i"
  shows "\<exists>m c'. inner_write M s i off src c = Some (s\<lparr>in_memory := m\<rparr>, c') \<and> cache_ok s i c' \<and> space_ok (s\<lparr>in_memory := m\<rparr>)
    \<and> vcontents (s\<lparr>in_memory := m\<rparr>) i = overwrite (vcontents s i) off src
    \<and> (\<forall>j<255. j \<noteq> i \<longrightarrow> vcontents (s\<lparr>in_memory := m\<rparr>) j = vcontents s j)
    \<and> window (contents m) 0 131072 = window (contents (in_memory s)) 0 131072"
proof -
  let ?C = "contents (in_memory s)" and ?n = "length src"
  have E: "extents_ok s" "ok (in_memory s)" "in_next_address s \<le> length ?C" "fresh_zero s"
    using assms(1) by (simp_all add: space_ok_def)
  have cap: "off + ?n \<le> capacity s i" using vbytes_capacity [OF E(1) assms(2)] assms(4) by simp
  have "\<exists>m c'. inner_write M s i off src c = Some (s\<lparr>in_memory := m\<rparr>, c') \<and> cache_ok s i c' \<and> ok m \<and> length (contents m) = length ?C
      \<and> (\<forall>v. off \<le> v \<and> v < off + ?n \<longrightarrow> contents m ! real s i v = src ! (v - off))
      \<and> (\<forall>x<length ?C. (\<forall>v. off \<le> v \<and> v < off + ?n \<longrightarrow> real s i v \<noteq> x) \<longrightarrow> contents m ! x = ?C ! x)"
    using access_law [OF E(1) assms(2-4)]
  proof (elim disjE exE conjE)
    fix a assume a: "cache_get c off ?n = Some a" "seg_chain s i off 0 ?n [(a, ?n, 0)]"
    have one: "write_segments M src [(a, ?n, 0)] (in_memory s) = mem_write M (in_memory s) a src"
      by (cases "mem_write M (in_memory s) a src") (simp_all add: subslice_def)
    from write_segments_law [OF E(1) assms(2) cap refl E(2,3) a(2)] a(1) assms(3) show ?thesis
      unfolding one by (auto simp: inner_write_def)
  next
    fix segs c' assume g: "cache_get c off ?n = None" "for_each_segment s i off ?n c = Some (segs, c')" "cache_ok s i c'"
      "seg_chain s i off 0 ?n segs"
    from write_segments_law [OF E(1) assms(2) cap refl E(2,3) g(4)] g(1-3) show ?thesis by (auto simp: inner_write_def)
  qed
  then obtain m c' where w: "inner_write M s i off src c = Some (s\<lparr>in_memory := m\<rparr>, c')" "cache_ok s i c'" "ok m" "length (contents m) = length ?C"
    "\<forall>v. off \<le> v \<and> v < off + ?n \<longrightarrow> contents m ! real s i v = src ! (v - off)"
    "\<forall>x<length ?C. (\<forall>v. off \<le> v \<and> v < off + ?n \<longrightarrow> real s i v \<noteq> x) \<longrightarrow> contents m ! x = ?C ! x" by blast
  let ?s = "s\<lparr>in_memory := m\<rparr>"
  have other: "contents m ! real s j v = ?C ! real s j v" if "j < 255" "v < vbytes s j" "j \<noteq> i \<or> \<not> (off \<le> v \<and> v < off + ?n)" for j v
  proof -
    have v: "v < capacity s j" using vbytes_capacity [OF E(1) that(1)] that(2) by simp
    have "real s j v < length ?C" using real_bounds(2) [OF E(1) that(1) v] E(3) by simp
    moreover have "real s i w \<noteq> real s j v" if "off \<le> w" "w < off + ?n" for w
      using real_inject [OF E(1) assms(2) _ \<open>j < 255\<close> v, of w] that cap \<open>j \<noteq> i \<or> \<not> (off \<le> v \<and> v < off + ?n)\<close> by auto
    ultimately show ?thesis using w(6) by blast
  qed
  have "vcontents ?s i = overwrite (vcontents s i) off src"
  proof (rule nth_equalityI)
    fix v assume "v < length (vcontents ?s i)"
    then have v: "v < vbytes s i" by simp
    show "vcontents ?s i ! v = overwrite (vcontents s i) off src ! v"
      using v w(5) other [OF assms(2) v] assms(4) by (auto simp: nth_overwrite nth_vcontents)
  qed (use assms(4) in simp)
  moreover have "vcontents ?s j = vcontents s j" if "j < 255" "j \<noteq> i" for j
    using other [OF that(1)] that(2) by (simp add: virtual_contents_def)
  moreover have low: "contents m ! x = ?C ! x" if "x < length ?C" "\<forall>v<capacity s i. real s i v \<noteq> x" for x
    using w(6) that cap by auto
  have "window (contents m) 0 131072 = window ?C 0 131072"
  proof (rule window_eqI)
    show "0 + 131072 \<le> length (contents m)" "0 + 131072 \<le> length ?C" using E(1,3) w(4) by (simp_all add: extents_ok_def)
    fix x :: nat assume x: "x < 0 + 131072"
    then have "\<forall>v<capacity s i. real s i v \<noteq> x" using real_bounds(1) [OF E(1) assms(2)] by fastforce
    then show "contents m ! x = ?C ! x" using x low E(1,3) by (simp add: extents_ok_def)
  qed
  moreover have "fresh_zero ?s"
  proof (unfold fresh_zero_def, intro allI impI, elim conjE)
    fix x assume x: "131072 \<le> x" "x < length (contents (in_memory ?s))" "\<forall>i<255. \<forall>v<vbytes ?s i. real ?s i v \<noteq> x"
    have "contents m ! x = ?C ! x" using w(4,6) x assms(2,4) by auto
    then show "contents (in_memory ?s) ! x = 0" using E(4) x w(4) by (simp add: fresh_zero_def)
  qed
  ultimately show ?thesis using w(1-4) E(1,3) by (auto simp: space_ok_def)
qed

end

section \<open>Lemmas: the persistent header\<close>

definition header_bytes :: "nat \<Rightarrow> nat \<Rightarrow> nat list \<Rightarrow> nat list \<Rightarrow> bytes" where
  "header_bytes allocated default_bucket sizes policies =
     VMM_MAGIC @ [LAYOUT_VERSION] @ to_le 4 allocated @ to_le 2 default_bucket @ concat (map (to_le 8) sizes) @ concat (map (to_le 2) policies)"

lemma overwrite_mid: "length pre = n \<Longrightarrow> length y = length x \<Longrightarrow> overwrite (pre @ x @ post) n y = pre @ y @ post"
  by (simp add: overwrite_def)

lemma overwrite_field:
  assumes "i < length xs" "\<And>x. length (f x) = w" "n = length pre"
  shows "overwrite (pre @ concat (map f xs) @ post) (n + i * w) (f y) = pre @ concat (map f (xs[i := y])) @ post"
proof -
  let ?A = "pre @ concat (map f (take i xs))" and ?D = "concat (map f (drop (Suc i) xs)) @ post"
  have len: "length ?A = n + i * w" using assms length_concat_const [of "take i xs" f w] by simp
  have "pre @ concat (map f xs) @ post = ?A @ f (xs ! i) @ ?D" using concat_split [OF assms(1), of f] by simp
  moreover have "pre @ concat (map f (xs[i := y])) @ post = ?A @ f y @ ?D"
    using assms(1) by (simp add: upd_conv_take_nth_drop)
  ultimately show ?thesis using overwrite_mid [OF len] assms(2) by simp
qed

lemma length_header:
  assumes "length sizes = 255" "length policies = 255"
  shows "length (header_bytes a d sizes policies) = 2560"
  using assms length_concat_const [of sizes "to_le 8" 8] length_concat_const [of policies "to_le 2" 2]
  by (simp add: header_bytes_def layout_defs)

lemma put_header:
  assumes "length sizes = 255" "length policies = 255"
  shows "put_le 4 (header_bytes a d sizes policies) 4 a' = Some (header_bytes a' d sizes policies)"
    and "i < 255 \<Longrightarrow> put_le 8 (header_bytes a d sizes policies) (10 + i * 8) v = Some (header_bytes a d (sizes[i := v]) policies)"
    and "i < 255 \<Longrightarrow> put_le 2 (header_bytes a d sizes policies) (2050 + i * 2) v = Some (header_bytes a d sizes (policies[i := v]))"
proof -
  note L = length_header [OF assms]
  show "put_le 4 (header_bytes a d sizes policies) 4 a' = Some (header_bytes a' d sizes policies)"
    using overwrite_mid [of "VMM_MAGIC @ [LAYOUT_VERSION]" 4 "to_le 4 a'" "to_le 4 a"] L
    by (simp add: put_le_def header_bytes_def layout_defs)
  show "put_le 8 (header_bytes a d sizes policies) (10 + i * 8) v = Some (header_bytes a d (sizes[i := v]) policies)" if "i < 255"
    using overwrite_field [of i sizes "to_le 8" 8 10 "VMM_MAGIC @ [LAYOUT_VERSION] @ to_le 4 a @ to_le 2 d"] L that assms
    by (simp add: put_le_def header_bytes_def layout_defs)
  show "put_le 2 (header_bytes a d sizes policies) (2050 + i * 2) v = Some (header_bytes a d sizes (policies[i := v]))" if "i < 255"
    using overwrite_field [of i policies "to_le 2" 2 2050 "VMM_MAGIC @ [LAYOUT_VERSION] @ to_le 4 a @ to_le 2 d @ concat (map (to_le 8) sizes)" "[]"]
      L that assms length_concat_const [of sizes "to_le 8" 8]
    by (simp add: put_le_def header_bytes_def layout_defs)
qed

lemma get_field:
  assumes "i < length xs" "x = xs ! i" "x < 256 ^ w" "n = length pre"
  shows "get_le w (pre @ concat (map (to_le w) xs) @ post) (n + i * w) = Some x"
  using subslice_field [of i xs "to_le w" w w pre post 0] assms by (simp add: get_le_def subslice_def from_le_to_le_id)

lemma get_header:
  assumes "length sizes = 255" "length policies = 255" "a < 2 ^ 32" "d < 2 ^ 16"
    "\<forall>i<255. sizes ! i < 2 ^ 64" "\<forall>i<255. policies ! i < 2 ^ 16"
  shows "get_le 4 (header_bytes a d sizes policies) 4 = Some a" "get_le 2 (header_bytes a d sizes policies) 8 = Some d"
    and "i < 255 \<Longrightarrow> get_le 8 (header_bytes a d sizes policies) (10 + i * 8) = Some (sizes ! i)"
    and "i < 255 \<Longrightarrow> get_le 2 (header_bytes a d sizes policies) (2050 + i * 2) = Some (policies ! i)"
proof -
  show "get_le 4 (header_bytes a d sizes policies) 4 = Some a"
    using subslice_append [of "VMM_MAGIC @ [LAYOUT_VERSION]" 4 "to_le 4 a" 4 8] assms(3)
    by (simp add: get_le_def header_bytes_def layout_defs from_le_to_le_id)
  show "get_le 2 (header_bytes a d sizes policies) 8 = Some d"
    using subslice_append [of "VMM_MAGIC @ [LAYOUT_VERSION] @ to_le 4 a" 8 "to_le 2 d" 2 10] assms(4)
    by (simp add: get_le_def header_bytes_def layout_defs from_le_to_le_id)
  show "get_le 8 (header_bytes a d sizes policies) (10 + i * 8) = Some (sizes ! i)" if "i < 255"
    using get_field [of i sizes "sizes ! i" 8 10 "VMM_MAGIC @ [LAYOUT_VERSION] @ to_le 4 a @ to_le 2 d"] that assms
    by (simp add: header_bytes_def layout_defs)
  show "get_le 2 (header_bytes a d sizes policies) (2050 + i * 2) = Some (policies ! i)" if "i < 255"
    using get_field [of i policies "policies ! i" 2 2050 "VMM_MAGIC @ [LAYOUT_VERSION] @ to_le 4 a @ to_le 2 d @ concat (map (to_le 8) sizes)" "[]"]
      that assms length_concat_const [of sizes "to_le 8" 8]
    by (simp add: header_bytes_def layout_defs)
qed

section \<open>Lemmas: rebuilding the extents\<close>

lemma rebuild_policy:
  "rebuild policies owners a E = Some R \<Longrightarrow> policies ! i = 0 \<Longrightarrow> rebuild (policies[i := b]) owners a E = Some R"
proof (induction owners arbitrary: a E)
  case (Cons w owners)
  have "w \<noteq> i" using Cons.prems by (auto elim!: bind_eq_SomeE simp: index_def split: if_splits)
  with Cons show ?case by (auto elim!: bind_eq_SomeE simp: index_def split: if_splits)
qed simp

lemma rebuild_append:
  "rebuild policies (owners @ owners') a E = Option.bind (rebuild policies owners a E) (\<lambda>(E', a'). rebuild policies owners' a' E')"
  by (induction owners arbitrary: a E) auto

lemma rebuild_replicate:
  assumes "i < 255" "length policies = 255" "policies ! i = bp" "bp \<noteq> 0"
  shows "a + n * (bp * 65536) \<le> u64_max \<Longrightarrow> length E = 255 \<Longrightarrow>
    rebuild policies (replicate n i) a E = Some (E[i := E ! i @ map (\<lambda>k. a + k * (bp * 65536)) [0..<n]], a + n * (bp * 65536))"
proof (induction n arbitrary: a E)
  case (Suc n)
  let ?b = "bp * 65536"
  have "a + ?b \<le> u64_max" using Suc.prems by simp
  then have "checked_add64 a ?b = Some (a + ?b)" by (rule checked_add64_Some)
  moreover have "rebuild policies (replicate n i) (a + ?b) (E[i := E ! i @ [a]])
      = Some (E[i := (E ! i @ [a]) @ map (\<lambda>k. a + ?b + k * ?b) [0..<n]], a + ?b + n * ?b)"
    using Suc.IH [of "a + ?b" "E[i := E ! i @ [a]]"] Suc.prems assms(1) by simp
  moreover have "map (\<lambda>k. a + k * ?b) [0..<Suc n] = a # map (\<lambda>k. a + ?b + k * ?b) [0..<n]"
    by (simp add: map_upt_Suc add.assoc del: upt_Suc)
  ultimately show ?case using assms by (simp add: index_def layout_defs add.assoc del: upt_Suc)
qed simp

end
