(* ===== verification/Manager_Invariant.thy ===== *)
theory Manager_Invariant
  imports Memory_Manager
begin

text \<open>
  The invariant of the memory manager: its extents are disjoint and cover the sizes, its state is what
  the stable header and owner table say, and unused space is zero. Creation establishes it, every
  operation keeps it, and reloading gives the same state back. The properties are stated for every
  state a sequence of calls can reach, over any memory that meets the trait's contract.
\<close>

section \<open>Growth of the extent index\<close>

definition grown :: "'m inner \<Rightarrow> nat \<Rightarrow> nat \<Rightarrow> nat \<Rightarrow> 'm inner" where
  "grown s i additional new_size = s\<lparr>in_sizes := (in_sizes s)[i := new_size],
     in_next_address := in_next_address s + additional * bucket_bytes s i,
     in_extents := (in_extents s)[i := in_extents s ! i
       @ map (\<lambda>k. in_next_address s + k * bucket_bytes s i) [0..<additional]]\<rparr>"

lemma grown_simps [simp]:
  "bucket_bytes (grown s i n v) = bucket_bytes s" "in_policies (grown s i n v) = in_policies s"
  "in_sizes (grown s i n v) = (in_sizes s)[i := v]" "in_memory (grown s i n v) = in_memory s"
  "in_next_address (grown s i n v) = in_next_address s + n * bucket_bytes s i" "in_header (grown s i n v) = in_header s"
  "in_allocated (grown s i n v) = in_allocated s" "in_default_bucket (grown s i n v) = in_default_bucket s"
  by (simp_all add: grown_def fun_eq_iff bucket_bytes_def)

lemma grown_extents:
  assumes "length (in_extents s) = 255" "i < 255" "j < 255"
  shows "length (in_extents (grown s i n v) ! j) = length (in_extents s ! j) + (if j = i then n else 0)"
    and "e < length (in_extents (grown s i n v) ! j) \<Longrightarrow> in_extents (grown s i n v) ! j ! e
      = (if e < length (in_extents s ! j) then in_extents s ! j ! e else in_next_address s + (e - length (in_extents s ! j)) * bucket_bytes s i)"
  using assms by (auto simp: grown_def nth_append nth_list_update)

lemma grown_real:
  assumes "extents_ok s" "i < 255" "j < 255" "w < capacity s j"
  shows "real (grown s i n v) j w = real s j w"
  using grown_extents(2) [of s i j "w div bucket_bytes s j" n v] grown_extents(1) [of s i j n v] assms real_bounds(4) [OF assms(1,3,4)]
  by (auto simp: real_def extents_ok_def)

lemma grown_ok:
  assumes s: "extents_ok s" and i: "i < 255" "in_policies s ! i \<noteq> 0" and v: "in_sizes s ! i \<le> v"
    and n: "n = div_ceil v (in_policies s ! i) - div_ceil (in_sizes s ! i) (in_policies s ! i)"
    and nxt: "in_next_address s + n * bucket_bytes s i < 2 ^ 64"
  shows "extents_ok (grown s i n v)"
proof -
  let ?g = "grown s i n v" and ?b = "bucket_bytes s"
  have len: "length (in_extents s) = 255" "length (in_sizes s) = 255" "length (in_policies s) = 255"
    and nx: "131072 \<le> in_next_address s" "65536 dvd in_next_address s"
    and A: "\<And>j e. j < 255 \<Longrightarrow> e < length (in_extents s ! j) \<Longrightarrow> 131072 \<le> in_extents s ! j ! e \<and> in_extents s ! j ! e + ?b j \<le> in_next_address s"
    and B: "\<And>j k e f. j < 255 \<Longrightarrow> k < 255 \<Longrightarrow> e < length (in_extents s ! j) \<Longrightarrow> f < length (in_extents s ! k) \<Longrightarrow> (j, e) \<noteq> (k, f) \<Longrightarrow>
        in_extents s ! j ! e + ?b j \<le> in_extents s ! k ! f \<or> in_extents s ! k ! f + ?b k \<le> in_extents s ! j ! e"
    and D: "\<And>j. j < 255 \<Longrightarrow> in_policies s ! j < 65536 \<and> (if in_policies s ! j = 0 then in_sizes s ! j = 0 \<and> in_extents s ! j = []
        else length (in_extents s ! j) = div_ceil (in_sizes s ! j) (in_policies s ! j))"
    using s unfolding extents_ok_def by blast+
  note G = grown_extents [OF len(1) i(1), where n = n and v = v]
  have new: "j = i \<and> (\<exists>k<n. e = length (in_extents s ! i) + k)" if "j < 255" "e < length (in_extents ?g ! j)" "\<not> e < length (in_extents s ! j)" for j e
    using that G(1) [of j] by (auto split: if_splits intro!: exI [of _ "e - length (in_extents s ! i)"])
  have start: "in_extents ?g ! i ! (length (in_extents s ! i) + k) = in_next_address s + k * ?b i" if "k < n" for k
    using G(1) [OF i(1)] G(2) [OF i(1), of "length (in_extents s ! i) + k"] that by simp
  have old: "in_extents ?g ! j ! e = in_extents s ! j ! e" if "j < 255" "e < length (in_extents s ! j)" for j e
    using G(1) [OF that(1)] G(2) [OF that(1), of e] that(2) by simp
  have mono: "k * ?b i + ?b i \<le> k' * ?b i" if "k < k'" for k k'
    using mult_le_mono1 [of "Suc k" k' "?b i"] that by simp
  have A': "131072 \<le> in_extents ?g ! j ! e \<and> in_extents ?g ! j ! e + ?b j \<le> in_next_address s + n * ?b i"
    if h: "j < 255" "e < length (in_extents ?g ! j)" for j e
  proof (cases "e < length (in_extents s ! j)")
    case True
    with A [OF h(1) True] old [OF h(1) True] show ?thesis by linarith
  next
    case False
    then obtain k where k: "j = i" "k < n" "e = length (in_extents s ! i) + k" using new h by blast
    then show ?thesis using start [OF k(2)] mono [OF k(2)] nx(1) by simp
  qed
  have B': "in_extents ?g ! j ! e + ?b j \<le> in_extents ?g ! k ! f \<or> in_extents ?g ! k ! f + ?b k \<le> in_extents ?g ! j ! e"
    if h: "j < 255" "k < 255" "e < length (in_extents ?g ! j)" "f < length (in_extents ?g ! k)" "(j, e) \<noteq> (k, f)" for j k e f
  proof (cases "e < length (in_extents s ! j)"; cases "f < length (in_extents s ! k)")
    assume o: "e < length (in_extents s ! j)" "f < length (in_extents s ! k)"
    show ?thesis using B [OF h(1,2) o h(5)] old [OF h(1) o(1)] old [OF h(2) o(2)] by simp
  next
    assume o: "e < length (in_extents s ! j)" "\<not> f < length (in_extents s ! k)"
    then obtain q where q: "k = i" "q < n" "f = length (in_extents s ! i) + q" using new h by blast
    show ?thesis using A [OF h(1) o(1)] old [OF h(1) o(1)] start [OF q(2)] q by simp
  next
    assume o: "\<not> e < length (in_extents s ! j)" "f < length (in_extents s ! k)"
    then obtain q where q: "j = i" "q < n" "e = length (in_extents s ! i) + q" using new h by blast
    show ?thesis using A [OF h(2) o(2)] old [OF h(2) o(2)] start [OF q(2)] q by simp
  next
    assume o: "\<not> e < length (in_extents s ! j)" "\<not> f < length (in_extents s ! k)"
    obtain q where q: "j = i" "q < n" "e = length (in_extents s ! i) + q" using new h o by blast
    obtain r where r: "k = i" "r < n" "f = length (in_extents s ! i) + r" using new h o by blast
    have "q < r \<or> r < q" using h(5) q r by auto
    then show ?thesis using mono [of q r] mono [of r q] start [OF q(2)] start [OF r(2)] q r by auto
  qed
  have "length (in_extents ?g ! i) = div_ceil v (in_policies s ! i)"
    using G(1) [OF i(1)] D [OF i(1)] i(2) n div_ceil_mono [of "in_policies s ! i" "in_sizes s ! i" v] v by simp
  then have D': "in_policies s ! j < 65536 \<and> (if in_policies s ! j = 0 then (in_sizes s)[i := v] ! j = 0 \<and> in_extents ?g ! j = []
        else length (in_extents ?g ! j) = div_ceil ((in_sizes s)[i := v] ! j) (in_policies s ! j))" if "j < 255" for j
    using D [OF that] G(1) [OF that] i len that by (cases "j = i") auto
  have nx': "65536 dvd in_next_address s + n * ?b i" using nx(2) by (simp add: bucket_bytes_def)
  have lens: "length (in_extents ?g) = 255" using len by (simp add: grown_def)
  have 1: "\<forall>j<255. \<forall>e<length (in_extents ?g ! j). 131072 \<le> in_extents ?g ! j ! e \<and> in_extents ?g ! j ! e + ?b j \<le> in_next_address s + n * ?b i"
    using A' by blast
  have 2: "\<forall>j<255. \<forall>k<255. \<forall>e<length (in_extents ?g ! j). \<forall>f<length (in_extents ?g ! k). (j, e) \<noteq> (k, f) \<longrightarrow>
      in_extents ?g ! j ! e + ?b j \<le> in_extents ?g ! k ! f \<or> in_extents ?g ! k ! f + ?b k \<le> in_extents ?g ! j ! e"
    using B' by blast
  have 3: "131072 \<le> in_next_address s + n * ?b i" using nx(1) by simp
  show ?thesis unfolding extents_ok_def grown_simps length_list_update
    by (intro conjI 1 2 3 lens len nx' nxt) (use D' in blast)
qed

lemma grown_cache:
  assumes "extents_ok s" "i < 255" "j < 255" "cache_ok s j c"
  shows "cache_ok (grown s i n v) j c"
proof -
  have L: "length (in_extents s) = 255" using assms(1) by (simp add: extents_ok_def)
  have "e < length (in_extents (grown s i n v) ! j) \<and> in_extents (grown s i n v) ! j ! e = in_extents s ! j ! e"
    if "e < length (in_extents s ! j)" for e
    using grown_extents(1) [OF L assms(2,3), of n v] grown_extents(2) [OF L assms(2,3), of e n v] that by simp
  with assms(4) show ?thesis unfolding cache_ok_def grown_simps by metis
qed

lemma window_extended:
  "a + k + length b \<le> length xs \<Longrightarrow> window (overwrite xs (a + k) b) a (k + length b) = window xs a k @ b"
  by (rule nth_equalityI) (auto simp: nth_window nth_overwrite nth_append)

lemma memory_index_Some: "i < 255 \<Longrightarrow> memory_index i = Some i"
proof -
  assume i: "i < 255"
  have n: "[0..<255] ! j = j" if "j < 255" for j using nth_upt [of 0 j 255] that by simp
  show ?thesis unfolding memory_index_def MAX_MEMORY_IDS_def find_Some_iff
    using i n by (intro exI [of _ i]) (simp del: upt_Suc)
qed

lemma memory_index_bound: "memory_index i = Some j \<Longrightarrow> i < 255"
  by (auto simp: memory_index_def MAX_MEMORY_IDS_def find_Some_iff)

lemma ensure_policies_changed: "ensure_policies s ps True = Some (c, s') \<Longrightarrow> c"
  by (induction ps arbitrary: s) (auto elim!: bind_eq_SomeE)

section \<open>The invariant\<close>

context stable_memory
begin

definition described :: "'m inner \<Rightarrow> bool" where
  "described s \<longleftrightarrow> in_header s = header_bytes (in_allocated s) (in_default_bucket s) (in_sizes s) (in_policies s)
     \<and> in_allocated s \<le> 65536 \<and> in_default_bucket s < 2 ^ 16 \<and> (\<forall>i<255. in_sizes s ! i < 2 ^ 64)
     \<and> rebuild (in_policies s) (map unat (window (contents (in_memory s)) 2560 (in_allocated s))) 131072 (replicate 255 [])
        = Some (in_extents s, in_next_address s)"

definition persisted :: "'m inner \<Rightarrow> bool" where
  "persisted s \<longleftrightarrow> described s \<and> window (contents (in_memory s)) 0 2560 = in_header s"

definition inner_ok :: "'m inner \<Rightarrow> bool" where
  "inner_ok s \<longleftrightarrow> space_ok s \<and> persisted s"

lemma inner_okD:
  assumes "inner_ok s"
  shows "extents_ok s" "ok (in_memory s)" "in_next_address s \<le> length (contents (in_memory s))" "131072 \<le> length (contents (in_memory s))"
    "length (in_sizes s) = 255" "length (in_policies s) = 255" "length (in_extents s) = 255" "length (in_header s) = 2560"
proof -
  show "extents_ok s" "ok (in_memory s)" "in_next_address s \<le> length (contents (in_memory s))"
    using assms by (simp_all add: inner_ok_def space_ok_def)
  then show "131072 \<le> length (contents (in_memory s))" "length (in_sizes s) = 255" "length (in_policies s) = 255" "length (in_extents s) = 255"
    by (simp_all add: extents_ok_def)
  then show "length (in_header s) = 2560" using assms by (simp add: inner_ok_def persisted_def described_def length_header)
qed

text \<open>Nothing above the metadata changes.\<close>

lemma space_above:
  assumes s: "space_ok s" and m: "ok m" "length (contents m) = length (contents (in_memory s))"
    "\<forall>x. 131072 \<le> x \<and> x < length (contents m) \<longrightarrow> contents m ! x = contents (in_memory s) ! x"
  shows "space_ok (s\<lparr>in_memory := m\<rparr>)" "i < 255 \<Longrightarrow> vcontents (s\<lparr>in_memory := m\<rparr>) i = vcontents s i"
proof -
  have E: "extents_ok s" "in_next_address s \<le> length (contents (in_memory s))" using s by (simp_all add: space_ok_def)
  show "space_ok (s\<lparr>in_memory := m\<rparr>)" using s m by (auto simp: space_ok_def fresh_zero_def)
  show "vcontents (s\<lparr>in_memory := m\<rparr>) i = vcontents s i" if "i < 255"
  proof (rule nth_equalityI)
    fix v assume "v < length (vcontents (s\<lparr>in_memory := m\<rparr>) i)"
    then have v: "v < vbytes s i" "v < capacity s i" using vbytes_capacity [OF E(1) that] by simp_all
    have "131072 \<le> real s i v" "real s i v < length (contents m)" using real_bounds [OF E(1) that v(2)] E(2) m(2) by simp_all
    then show "vcontents (s\<lparr>in_memory := m\<rparr>) i ! v = vcontents s i ! v" using m(3) v(1) by (simp add: nth_vcontents)
  qed simp
qed

lemma low_write:
  assumes "space_ok s" "a + length b \<le> 131072"
  shows "\<exists>m. mem_write M (in_memory s) a b = Some m \<and> ok m \<and> contents m = overwrite (contents (in_memory s)) a b
    \<and> space_ok (s\<lparr>in_memory := m\<rparr>) \<and> (\<forall>i<255. vcontents (s\<lparr>in_memory := m\<rparr>) i = vcontents s i)"
proof -
  let ?C = "contents (in_memory s)"
  have E: "ok (in_memory s)" "131072 \<le> length ?C" using assms(1) by (auto simp: space_ok_def extents_ok_def)
  obtain m where m: "mem_write M (in_memory s) a b = Some m" "ok m" "contents m = overwrite ?C a b"
    using write_law [OF E(1), of a b] E(2) assms(2) by auto
  have "length (contents m) = length ?C" "\<forall>x. 131072 \<le> x \<and> x < length (contents m) \<longrightarrow> contents m ! x = ?C ! x"
    using m(3) E(2) assms(2) by (auto simp: nth_overwrite)
  with space_above [OF assms(1) m(2)] m show ?thesis by blast
qed

lemma header_saved:
  assumes "window C 0 2560 = h0" "length C1 = length C" "131072 \<le> length C"
    and "C1 = overwrite C (2560 + k) own" "C2 = overwrite C1 4 (window h 4 4)" "C3 = overwrite C2 (10 + i * 8) (window h (10 + i * 8) 8)"
    and "2560 + k + length own \<le> 131072" "i < 255" "length h = 2560" "length h0 = 2560"
    and "h = overwrite (overwrite h0 4 b1) (10 + i * 8) b2" "length b1 = 4" "length b2 = 8"
  shows "window C3 0 2560 = h"
proof -
  have w: "window h 4 4 = b1" "window h (10 + i * 8) 8 = b2"
  proof -
    show "window h (10 + i * 8) 8 = b2"
      using window_overwrite_same [of "10 + i * 8" b2 "overwrite h0 4 b1"] assms(8,10-13) by simp
    have "window h 4 4 = window (overwrite h0 4 b1) 4 4"
      unfolding assms(11) using assms(8,10,12,13) by (intro window_overwrite_disjoint) simp_all
    then show "window h 4 4 = b1" using window_overwrite_same [of 4 b1 h0] assms(10,12) by simp
  qed
  have "window C1 0 2560 = h0"
    unfolding assms(4) using assms(1,3,7) by (simp add: window_overwrite_disjoint)
  then have "window C2 0 2560 = overwrite h0 4 b1"
    unfolding assms(5) w using overwrite_window_inner [of 0 2560 C1 4 b1] assms(2,3,12) by simp
  moreover have "length C2 = length C" unfolding assms(5) w(1) using assms(2,3,12) by simp
  then have "window C3 0 2560 = overwrite (window C2 0 2560) (10 + i * 8) b2"
    unfolding assms(6) w(2) using overwrite_window_inner [of 0 2560 C2 "10 + i * 8" b2] assms(3,8,13) by simp
  ultimately show ?thesis using assms(11) by simp
qed

lemma save_range_law:
  assumes "space_ok s" "length (in_header s) = 2560" "a + n \<le> 2560"
  shows "\<exists>m. save_range M s a n = Some (s\<lparr>in_memory := m\<rparr>) \<and> ok m \<and> contents m = overwrite (contents (in_memory s)) a (window (in_header s) a n)
    \<and> space_ok (s\<lparr>in_memory := m\<rparr>) \<and> (\<forall>i<255. vcontents (s\<lparr>in_memory := m\<rparr>) i = vcontents s i)"
proof -
  have "subslice (in_header s) a (a + n) = Some (window (in_header s) a n)" "length (window (in_header s) a n) = n"
    using assms(2,3) by (simp_all add: subslice_def window_def)
  then show ?thesis using low_write [OF assms(1), of a "window (in_header s) a n"] assms(3) by (auto simp: save_range_def)
qed

lemma reserve_law:
  assumes s: "space_ok s" and r: "reserve M (in_memory s) req = Some m"
  shows "ok m" "req * 65536 \<le> length (contents m)" "space_ok (s\<lparr>in_memory := m\<rparr>)" "i < 255 \<Longrightarrow> vcontents (s\<lparr>in_memory := m\<rparr>) i = vcontents s i"
    "\<exists>k. contents m = contents (in_memory s) @ replicate k 0"
proof -
  let ?C = "contents (in_memory s)" and ?z = "mem_size M (in_memory s)"
  have E: "extents_ok s" "ok (in_memory s)" "in_next_address s \<le> length ?C" using s by (simp_all add: space_ok_def)
  have L: "length ?C = ?z * 65536" by (rule size_law [OF E(2)])
  have "ok m \<and> (\<exists>k. contents m = ?C @ replicate k 0) \<and> req * 65536 \<le> length (contents m)"
  proof (cases "?z < req")
    case True
    then have "mem_grow M (in_memory s) (req - ?z) \<noteq> (-1, in_memory s)" using r by (auto simp: reserve_def)
    then obtain m' where m': "mem_grow M (in_memory s) (req - ?z) = (int ?z, m')" "ok m'" "contents m' = ?C @ replicate ((req - ?z) * 65536) 0"
      using grow_law [OF E(2), of "req - ?z"] by blast
    moreover have "m' = m" using r True m'(1) by (simp add: reserve_def split: if_splits)
    ultimately show ?thesis using L True by (auto simp: add_mult_distrib [symmetric])
  next
    case False
    then have "m = in_memory s" using r by (simp add: reserve_def)
    then show ?thesis using False E(2) L by (auto intro: exI [of _ 0])
  qed
  then obtain k where m: "ok m" "contents m = ?C @ replicate k 0" "req * 65536 \<le> length (contents m)" by blast
  show "ok m" "req * 65536 \<le> length (contents m)" "\<exists>k. contents m = ?C @ replicate k 0" using m by blast+
  have at: "contents m ! real s i v = ?C ! real s i v" if "i < 255" "v < vbytes s i" for i v
  proof -
    have "v < capacity s i" using vbytes_capacity [OF E(1) that(1)] that(2) by simp
    then have "real s i v < length ?C" using real_bounds(2) [OF E(1) that(1)] E(3) by (meson less_le_trans)
    then show ?thesis by (simp add: m(2) nth_append)
  qed
  have "contents m ! x = 0" if "131072 \<le> x" "x < length (contents m)" "\<forall>i<255. \<forall>v<vbytes s i. real s i v \<noteq> x" for x
    using s that by (cases "x < length ?C") (simp_all add: space_ok_def fresh_zero_def m(2) nth_append)
  then show "space_ok (s\<lparr>in_memory := m\<rparr>)" using E m by (simp add: space_ok_def fresh_zero_def)
  show "vcontents (s\<lparr>in_memory := m\<rparr>) i = vcontents s i" if "i < 255" using at [OF that] by (simp add: virtual_contents_def)
qed

lemma grown_space:
  assumes s: "space_ok s" and g: "extents_ok (grown s i n v)" "in_next_address (grown s i n v) \<le> length (contents (in_memory s))"
    and i: "i < 255" "in_sizes s ! i \<le> v"
  shows "space_ok (grown s i n v)" "vcontents (grown s i n v) i = vcontents s i @ replicate ((v - in_sizes s ! i) * 65536) 0"
    "j < 255 \<Longrightarrow> j \<noteq> i \<Longrightarrow> vcontents (grown s i n v) j = vcontents s j"
proof -
  let ?g = "grown s i n v" and ?C = "contents (in_memory s)"
  have E: "extents_ok s" "length (in_sizes s) = 255" using s by (simp_all add: space_ok_def extents_ok_def)
  have vb: "vbytes ?g i = v * 65536" "j \<noteq> i \<Longrightarrow> vbytes ?g j = vbytes s j" for j using i E(2) by (simp_all add: vbytes_def)
  have mono: "vbytes s j \<le> vbytes ?g j" for j using vb i(2) by (cases "j = i") (simp_all add: vbytes_def)
  have old: "real ?g j w = real s j w" if "j < 255" "w < vbytes s j" for j w
    using grown_real [OF E(1) i(1) that(1)] vbytes_capacity [OF E(1) that(1)] that(2) by simp
  have zero: "?C ! real ?g i w = 0" if w: "vbytes s i \<le> w" "w < vbytes ?g i" for w
  proof -
    have c: "w < capacity ?g i" using w(2) vbytes_capacity [OF g(1) i(1)] by simp
    have "real ?g i w \<noteq> real s j u" if "j < 255" "u < vbytes s j" for j u
    proof
      assume "real ?g i w = real s j u"
      then have "real ?g i w = real ?g j u" using old [OF that] by simp
      moreover have "u < capacity ?g j" using that mono [of j] vbytes_capacity [OF g(1) that(1)] by simp
      ultimately have "i = j \<and> w = u" using real_inject [OF g(1) i(1) c that(1)] by blast
      with w(1) that(2) show False by simp
    qed
    moreover have "131072 \<le> real ?g i w" "real ?g i w < length ?C" using real_bounds(1,2) [OF g(1) i(1) c] g(2) by simp_all
    ultimately show ?thesis using s unfolding space_ok_def fresh_zero_def by metis
  qed
  have "?C ! x = 0" if "131072 \<le> x" "x < length ?C" "\<forall>j<255. \<forall>u<vbytes ?g j. real ?g j u \<noteq> x" for x
  proof -
    have "\<forall>j<255. \<forall>u<vbytes s j. real s j u \<noteq> x" using that(3) old mono by (metis less_le_trans)
    with s that(1,2) show ?thesis by (simp add: space_ok_def fresh_zero_def)
  qed
  then show "space_ok ?g" using s g by (simp add: space_ok_def fresh_zero_def)
  have len: "vbytes ?g i = vbytes s i + (v - in_sizes s ! i) * 65536" using vb(1) i(2) by (simp add: vbytes_def diff_mult_distrib)
  show "vcontents ?g i = vcontents s i @ replicate ((v - in_sizes s ! i) * 65536) 0"
  proof (rule nth_equalityI)
    fix w assume "w < length (vcontents ?g i)"
    then have w: "w < vbytes ?g i" by simp
    show "vcontents ?g i ! w = (vcontents s i @ replicate ((v - in_sizes s ! i) * 65536) 0) ! w"
      using w zero [of w] old [OF i(1), of w] len by (cases "w < vbytes s i") (simp_all add: nth_append nth_vcontents)
  qed (simp add: len)
  show "vcontents ?g j = vcontents s j" if "j < 255" "j \<noteq> i" using vb(2) [OF that(2)] old [OF that(1)] by (simp add: virtual_contents_def)
qed

lemma space_meta [simp]:
  "space_ok (s\<lparr>in_header := h\<rparr>) = space_ok s" "space_ok (s\<lparr>in_allocated := a\<rparr>) = space_ok s"
  "vcontents (s\<lparr>in_header := h\<rparr>) i = vcontents s i" "vcontents (s\<lparr>in_allocated := a\<rparr>) i = vcontents s i"
  by (simp_all add: space_ok_def extents_ok_def fresh_zero_def virtual_contents_def real_def vbytes_def bucket_bytes_def)

lemma claim_law:
  assumes s: "inner_ok s" and i: "i < 255" "in_policies s ! i \<noteq> 0" "in_sizes s ! i \<le> v" "v < 2 ^ 64"
    and n: "n = div_ceil v (in_policies s ! i) - div_ceil (in_sizes s ! i) (in_policies s ! i)" "in_allocated s + n \<le> 65536"
    and nxt: "in_next_address s + n * bucket_bytes s i < 2 ^ 64" "in_next_address s + n * bucket_bytes s i \<le> length (contents (in_memory s))"
  shows "\<exists>s'. claim_extents M s i n (in_policies s ! i) v = Some s' \<and> inner_ok s'
    \<and> vcontents s' i = vcontents s i @ replicate ((v - in_sizes s ! i) * 65536) 0
    \<and> (\<forall>j<255. j \<noteq> i \<longrightarrow> vcontents s' j = vcontents s j) \<and> (\<forall>j c. j < 255 \<longrightarrow> cache_ok s j c \<longrightarrow> cache_ok s' j c)
    \<and> in_sizes s' = (in_sizes s)[i := v] \<and> in_policies s' = in_policies s \<and> in_default_bucket s' = in_default_bucket s"
proof -
  note O = inner_okD [OF s]
  have S: "space_ok s" and P: "persisted s" using s by (simp_all add: inner_ok_def)
  let ?C = "contents (in_memory s)" and ?b = "bucket_bytes s i" and ?a = "in_allocated s + n"
  let ?own = "replicate n (word_of_nat i) :: bytes"
  let ?h = "header_bytes ?a (in_default_bucket s) ((in_sizes s)[i := v]) (in_policies s)"
  have h: "in_header s = header_bytes (in_allocated s) (in_default_bucket s) (in_sizes s) (in_policies s)" "window ?C 0 2560 = in_header s"
    using P by (simp_all add: persisted_def described_def)
  obtain m1 where m1: "(if 0 < n then mem_write M (in_memory s) (HEADER_SIZE + in_allocated s) ?own else Some (in_memory s)) = Some m1"
    "ok m1" "contents m1 = overwrite ?C (2560 + in_allocated s) ?own" "space_ok (s\<lparr>in_memory := m1\<rparr>)"
    "\<forall>j<255. vcontents (s\<lparr>in_memory := m1\<rparr>) j = vcontents s j"
  proof (cases "0 < n")
    case True
    then show ?thesis using low_write [OF S, of "2560 + in_allocated s" ?own] n(2) that by (auto simp: layout_defs)
  next
    case False
    then show ?thesis using that [of "in_memory s"] S O(2) by (simp add: overwrite_def)
  qed
  let ?g = "grown (s\<lparr>in_memory := m1\<rparr>) i n v"
  let ?s2 = "?g\<lparr>in_header := ?h, in_allocated := ?a\<rparr>"
  have len1: "length (contents m1) = length ?C" using m1(3) n(2) O(4) by simp
  have G: "extents_ok ?g" using O(1) i n(1) nxt(1) by (intro grown_ok) simp_all
  have gn: "in_next_address ?g \<le> length (contents (in_memory (s\<lparr>in_memory := m1\<rparr>)))" using nxt(2) len1 by simp
  note GS = grown_space [OF m1(4) G gn i(1)]
  have S2: "space_ok ?s2" using GS(1) i(3) by simp
  have hl: "length ?h = 2560" using O(5,6) by (simp add: length_header)
  obtain m2 where m2: "save_range M ?s2 4 4 = Some (?s2\<lparr>in_memory := m2\<rparr>)" "ok m2" "contents m2 = overwrite (contents m1) 4 (window ?h 4 4)"
    "space_ok (?s2\<lparr>in_memory := m2\<rparr>)" "\<forall>j<255. vcontents (?s2\<lparr>in_memory := m2\<rparr>) j = vcontents ?s2 j"
    using save_range_law [OF S2, of 4 4] hl by auto
  have i8: "10 + i * 8 + 8 \<le> 2560" using i(1) by simp
  obtain m3 where m3: "save_range M (?s2\<lparr>in_memory := m2\<rparr>) (10 + i * 8) 8 = Some (?s2\<lparr>in_memory := m3\<rparr>)" "ok m3"
    "contents m3 = overwrite (contents m2) (10 + i * 8) (window ?h (10 + i * 8) 8)" "space_ok (?s2\<lparr>in_memory := m3\<rparr>)"
    "\<forall>j<255. vcontents (?s2\<lparr>in_memory := m3\<rparr>) j = vcontents ?s2 j"
    using save_range_law [OF m2(4), of "10 + i * 8" 8] hl i8 m2(5) by auto
  let ?s' = "?s2\<lparr>in_memory := m3\<rparr>"
  have put: "put_le 4 (in_header s) ALLOCATED_EXTENTS_OFFSET ?a = Some (header_bytes ?a (in_default_bucket s) (in_sizes s) (in_policies s))"
    "put_le 8 (header_bytes ?a (in_default_bucket s) (in_sizes s) (in_policies s)) (MEMORY_SIZES_OFFSET + i * 8) v = Some ?h"
    using put_header [OF O(5,6)] i(1) unfolding h(1) by (simp_all add: layout_defs)
  have "claim_extents M s i n (in_policies s ! i) v = save_grow_header M ?s2 i"
    unfolding claim_extents_def m1(1) bind.simps Let_def put WASM_PAGE_SIZE_def
    by (rule arg_cong [where f = "\<lambda>x. save_grow_header M x i"]) (simp add: grown_def bucket_bytes_def)
  also have "\<dots> = Some ?s'" using m2(1) m3(1) by (simp add: save_grow_header_def layout_defs)
  finally have claim: "claim_extents M s i n (in_policies s ! i) v = Some ?s'" .
  have hw: "window (contents m3) 0 2560 = ?h"
  proof (rule header_saved [OF h(2) len1 O(4) m1(3) m2(3) m3(3) _ i(1) hl O(8)])
    show "2560 + in_allocated s + length ?own \<le> 131072" using n(2) by simp
    show "?h = overwrite (overwrite (in_header s) 4 (to_le 4 ?a)) (10 + i * 8) (to_le 8 v)"
      using put by (simp add: put_le_def layout_defs split: if_splits)
  qed simp_all
  have "window (contents m3) 2560 ?a = window (contents m1) 2560 ?a"
    using hl len1 O(4) n(2) i8 unfolding m3(3) m2(3) by (simp add: window_overwrite_disjoint)
  also have "\<dots> = window ?C 2560 (in_allocated s) @ ?own"
    unfolding m1(3) using window_extended [of 2560 "in_allocated s" ?own ?C] n(2) O(4) by simp
  finally have ow: "map unat (window (contents m3) 2560 ?a) = map unat (window ?C 2560 (in_allocated s)) @ replicate n i"
    using i(1) by (simp add: unat_of_nat)
  have nb: "in_next_address s + n * (in_policies s ! i * 65536) \<le> u64_max" using nxt(1) by (simp add: bucket_bytes_def)
  have "rebuild (in_policies s) (map unat (window (contents m3) 2560 ?a)) 131072 (replicate 255 []) = Some (in_extents ?g, in_next_address ?g)"
    unfolding ow rebuild_append
    using P rebuild_replicate [OF i(1) O(6) refl i(2) nb O(7)] by (simp add: persisted_def described_def grown_def bucket_bytes_def)
  then have "persisted ?s'" using hw P n(2) i O(5) by (auto simp: persisted_def described_def nth_list_update)
  then have "inner_ok ?s'" using m3(4) by (simp add: inner_ok_def)
  moreover have "cache_ok ?s' j c" if "j < 255" "cache_ok s j c" for j c
  proof -
    have "cache_ok ?g j c" using grown_cache [of "s\<lparr>in_memory := m1\<rparr>" i j c n v] O(1) i(1) that by simp
    then show ?thesis by (simp add: cache_ok_def bucket_bytes_def)
  qed
  moreover have "vcontents ?s' j = vcontents ?g j" if "j < 255" for j using m3(5) that by simp
  ultimately show ?thesis using claim GS(2,3) i m1(5) by simp
qed

lemma persisted_reserve:
  assumes "inner_ok s" "ok m" "contents m = contents (in_memory s) @ replicate k 0" "space_ok (s\<lparr>in_memory := m\<rparr>)"
  shows "inner_ok (s\<lparr>in_memory := m\<rparr>)"
  using assms inner_okD(4) [OF assms(1)] by (auto simp: inner_ok_def persisted_def described_def window_append)

lemma inner_grow_law:
  assumes s: "inner_ok s" and i: "i < 255" "in_policies s ! i \<noteq> 0"
  shows "inner_grow M s i pages = Some (-1, s) \<or> (\<exists>s'. inner_grow M s i pages = Some (int (in_sizes s ! i), s') \<and> inner_ok s'
    \<and> vcontents s' i = vcontents s i @ replicate (pages * 65536) 0
    \<and> (\<forall>j<255. j \<noteq> i \<longrightarrow> vcontents s' j = vcontents s j) \<and> (\<forall>j c. j < 255 \<longrightarrow> cache_ok s j c \<longrightarrow> cache_ok s' j c)
    \<and> in_policies s' = in_policies s \<and> in_default_bucket s' = in_default_bucket s)"
proof -
  note O = inner_okD [OF s]
  let ?old = "in_sizes s ! i" and ?p = "in_policies s ! i"
  let ?new = "?old + pages"
  define n where "n = div_ceil ?new ?p - div_ceil ?old ?p"
  have ix: "index (in_sizes s) i = Some ?old" "index (in_policies s) i = Some ?p" using O i(1) by (simp_all add: index_def)
  show ?thesis
  proof (cases "?new \<le> u64_max \<and> \<not> MAX_EXTENTS < add64 (in_allocated s) n")
    case False
    then show ?thesis using i(2) by (auto simp: inner_grow_def ix checked_add64_def Let_def n_def)
  next
    case fits: True
    then have new: "checked_add64 ?old pages = Some ?new" by (simp add: checked_add64_def)
    show ?thesis
    proof (cases "required_pages (in_next_address s) n ?p")
      case None
      then show ?thesis using fits new i(2) by (simp add: inner_grow_def ix Let_def n_def)
    next
      case (Some req)
      have nx: "in_next_address s + n * bucket_bytes s i \<le> u64_max \<and> req = div_ceil (in_next_address s + n * bucket_bytes s i) 65536"
        using Some O(1) by (auto simp: required_pages_def Let_def checked_mul64_def checked_add64_def WASM_PAGE_SIZE_def bucket_bytes_def
          extents_ok_def mult.assoc split: if_splits)
      have "n * 65536 \<le> n * bucket_bytes s i" using i(2) by (simp add: bucket_bytes_def)
      then have "n * 65536 \<le> u64_max" using nx by linarith
      moreover have "in_allocated s \<le> 65536" using s by (simp add: inner_ok_def persisted_def described_def)
      ultimately have "add64 (in_allocated s) n = in_allocated s + n" by (intro add64_exact) simp
      then have al: "in_allocated s + n \<le> 65536" using fits by (simp add: MAX_EXTENTS_def)
      show ?thesis
      proof (cases "reserve M (in_memory s) req")
        case None
        then show ?thesis using fits new i(2) Some by (simp add: inner_grow_def ix Let_def n_def)
      next
        case r: (Some m)
        have S: "space_ok s" using s by (simp add: inner_ok_def)
        note R = reserve_law [OF S r]
        have ok1: "inner_ok (s\<lparr>in_memory := m\<rparr>)" using persisted_reserve [OF s R(1) _ R(3)] R(5) by blast
        have "in_next_address s + n * bucket_bytes s i \<le> req * 65536" using nx div_ceil_mult [of 65536] by simp
        then have len: "in_next_address s + n * bucket_bytes s i \<le> length (contents m)" using R(2) by linarith
        have "\<exists>s'. claim_extents M (s\<lparr>in_memory := m\<rparr>) i n ?p ?new = Some s' \<and> inner_ok s'
            \<and> vcontents s' i = vcontents (s\<lparr>in_memory := m\<rparr>) i @ replicate ((?new - ?old) * 65536) 0
            \<and> (\<forall>j<255. j \<noteq> i \<longrightarrow> vcontents s' j = vcontents (s\<lparr>in_memory := m\<rparr>) j)
            \<and> (\<forall>j c. j < 255 \<longrightarrow> cache_ok (s\<lparr>in_memory := m\<rparr>) j c \<longrightarrow> cache_ok s' j c)
            \<and> in_sizes s' = (in_sizes s)[i := ?new] \<and> in_policies s' = in_policies s \<and> in_default_bucket s' = in_default_bucket s"
          using claim_law [OF ok1 i(1), of ?new n] i(2) fits al nx len by (simp add: n_def)
        then obtain s' where s': "claim_extents M (s\<lparr>in_memory := m\<rparr>) i n ?p ?new = Some s'" "inner_ok s'"
            "vcontents s' i = vcontents s i @ replicate (pages * 65536) 0" "\<forall>j<255. j \<noteq> i \<longrightarrow> vcontents s' j = vcontents s j"
            "\<forall>j c. j < 255 \<longrightarrow> cache_ok s j c \<longrightarrow> cache_ok s' j c" "in_policies s' = in_policies s" "in_default_bucket s' = in_default_bucket s"
          using R(4) i(1) by auto
        have "inner_grow M s i pages = Some (int ?old, s')"
          using fits new i(2) Some r s'(1) by (simp add: inner_grow_def ix Let_def n_def)
        then show ?thesis using s'(2-7) by blast
      qed
    qed
  qed
qed

section \<open>Creation, reload and policies\<close>

lemma load_law:
  assumes "inner_ok s"
  shows "inner_load M (in_memory s) (in_default_bucket s) = Some s"
proof -
  note O = inner_okD [OF assms]
  let ?C = "contents (in_memory s)"
  have P: "in_header s = header_bytes (in_allocated s) (in_default_bucket s) (in_sizes s) (in_policies s)" "window ?C 0 2560 = in_header s"
    "in_allocated s \<le> 65536" "in_default_bucket s < 2 ^ 16" "\<forall>i<255. in_sizes s ! i < 2 ^ 64"
    "rebuild (in_policies s) (map unat (window ?C 2560 (in_allocated s))) 131072 (replicate 255 []) = Some (in_extents s, in_next_address s)"
    using assms by (simp_all add: inner_ok_def persisted_def described_def)
  have pol: "\<forall>i<255. in_policies s ! i < 2 ^ 16" using O(1) by (simp add: extents_ok_def)
  have a: "in_allocated s < 2 ^ 32" using P(3) by simp
  note G = get_header [OF O(5,6) a P(4,5) pol]
  have r: "mem_read M (in_memory s) 0 HEADER_SIZE = Some (in_header s)" "mem_read M (in_memory s) HEADER_SIZE (in_allocated s) = Some (window ?C 2560 (in_allocated s))"
    using read_law [OF O(2), of 0 2560] read_law [OF O(2), of 2560 "in_allocated s"] O(4) P(2,3) by (simp_all add: layout_defs)
  have mg: "subslice (in_header s) 0 3 = Some VMM_MAGIC" "index (in_header s) 3 = Some LAYOUT_VERSION"
    unfolding P(1) by (simp_all add: header_bytes_def subslice_def index_def layout_defs)
  have sizes: "those (map (\<lambda>i. get_le 8 (in_header s) (MEMORY_SIZES_OFFSET + i * 8)) [0..<MAX_MEMORY_IDS]) = Some (in_sizes s)"
    using those_map_Some [of "[0..<255]" "\<lambda>i. get_le 8 (in_header s) (10 + i * 8)" "\<lambda>i. in_sizes s ! i"] G(3) O(5) map_nth [of "in_sizes s"]
    by (simp add: layout_defs P(1))
  have pols: "those (map (\<lambda>i. get_le 2 (in_header s) (MEMORY_POLICIES_OFFSET + i * 2)) [0..<MAX_MEMORY_IDS]) = Some (in_policies s)"
    using those_map_Some [of "[0..<255]" "\<lambda>i. get_le 2 (in_header s) (2050 + i * 2)" "\<lambda>i. in_policies s ! i"] G(4) O(6) map_nth [of "in_policies s"]
    by (simp add: layout_defs P(1))
  have f: "get_le 4 (in_header s) ALLOCATED_EXTENTS_OFFSET = Some (in_allocated s)" "get_le 2 (in_header s) DEFAULT_BUCKET_SIZE_OFFSET = Some (in_default_bucket s)"
    using G(1,2) by (simp_all add: layout_defs P(1))
  have rb: "rebuild (in_policies s) (map unat (window ?C 2560 (in_allocated s))) (DATA_OFFSET_PAGES * WASM_PAGE_SIZE) empty_extent_index
      = Some (in_extents s, in_next_address s)"
    using P(6) by (simp add: layout_defs empty_extent_index_def)
  show ?thesis unfolding inner_load_def r mg f sizes pols bind.simps using P(3) by (simp add: rb MAX_EXTENTS_def)
qed

lemma new_law:
  assumes "ok m" "contents m = replicate 131072 0" "d < 2 ^ 16"
  shows "\<exists>s. inner_new M m d = Some s \<and> inner_ok s \<and> in_default_bucket s = d
    \<and> in_sizes s = replicate 255 0 \<and> in_policies s = replicate 255 0"
proof -
  let ?h = "header_bytes 0 d (replicate 255 0) (replicate 255 0)"
  have z: "to_le n 0 = replicate n 0" for n by (induction n) simp_all
  have cz: "concat (map (to_le n) (replicate k 0)) = replicate (k * n) 0" for n k by (induction k) (simp_all add: z replicate_add)
  have h: "put_le 2 (overwrite (overwrite (replicate HEADER_SIZE 0) 0 VMM_MAGIC) 3 [LAYOUT_VERSION]) DEFAULT_BUCKET_SIZE_OFFSET d = Some ?h"
    unfolding header_bytes_def cz z
    by (simp add: put_le_def layout_defs overwrite_def replicate_add [symmetric] drop_Cons' eval_nat_numeral(2,3) del: replicate_Suc to_le.simps)
  have hl: "length ?h = 2560" by (simp add: length_header)
  let ?s0 = "\<lparr>in_memory = m, in_header = ?h, in_default_bucket = d, in_allocated = 0, in_sizes = replicate 255 0, in_policies = replicate 255 0,
    in_next_address = 131072, in_extents = replicate 255 []\<rparr>"
  have E: "extents_ok ?s0" by (simp add: extents_ok_def)
  have S: "space_ok ?s0" using E assms(1,2) by (simp add: space_ok_def fresh_zero_def)
  obtain m1 where m1: "mem_write M m 0 ?h = Some m1" "ok m1" "contents m1 = overwrite (contents m) 0 ?h" "space_ok (?s0\<lparr>in_memory := m1\<rparr>)"
    using low_write [OF S, of 0 ?h] hl by auto
  obtain m2 where m2: "mem_write M m1 2560 (replicate 65536 255) = Some m2" "ok m2" "contents m2 = overwrite (contents m1) 2560 (replicate 65536 255)"
    "space_ok (?s0\<lparr>in_memory := m2\<rparr>)"
    using low_write [OF m1(4), of 2560 "replicate 65536 255"] by auto
  let ?s = "?s0\<lparr>in_memory := m2\<rparr>"
  have "window (contents m2) 0 2560 = ?h"
    using window_overwrite_same [of 0 ?h "contents m"] assms(2) hl unfolding m2(3) m1(3) by (simp add: window_overwrite_disjoint)
  then have "persisted ?s" using assms(3) by (simp add: persisted_def described_def window_def)
  then have "inner_ok ?s" using m2(4) by (simp add: inner_ok_def)
  moreover have "inner_new M m d = Some ?s"
    unfolding inner_new_def h bind.simps save_header_def using m1(1) m2(1) by (simp add: layout_defs empty_extent_index_def)
  ultimately show ?thesis by auto
qed

lemma policy_law:
  assumes s: "space_ok s" "described s" and i: "i < 255" "in_policies s ! i = 0 \<or> in_policies s ! i = b" "b < 2 ^ 16"
  shows "\<exists>n s'. ensure_policy s i b = Some (n, s') \<and> space_ok s' \<and> described s' \<and> (\<not> n \<longrightarrow> s' = s) \<and> in_memory s' = in_memory s
    \<and> in_policies s' = (in_policies s)[i := b] \<and> in_sizes s' = in_sizes s \<and> in_default_bucket s' = in_default_bucket s
    \<and> (n \<longrightarrow> in_header s' = overwrite (in_header s) (2050 + i * 2) (to_le 2 b))
    \<and> (\<forall>j<255. vcontents s' j = vcontents s j) \<and> (\<forall>j c. in_policies s ! j \<noteq> 0 \<longrightarrow> cache_ok s j c \<longrightarrow> cache_ok s' j c)"
proof -
  have E: "extents_ok s" using s(1) by (simp add: space_ok_def)
  then have L: "length (in_sizes s) = 255" "length (in_policies s) = 255" by (simp_all add: extents_ok_def)
  have ix: "memory_index i = Some i" "index (in_policies s) i = Some (in_policies s ! i)"
    using i(1) L by (simp_all add: memory_index_Some index_def)
  show ?thesis
  proof (cases "in_policies s ! i = 0")
    case False
    then have "ensure_policy s i b = Some (False, s)" using i(2) ix by (simp add: ensure_policy_def)
    moreover have "(in_policies s)[i := b] = in_policies s" using False i(2) by (metis list_update_id)
    ultimately show ?thesis using s by (intro exI [of _ False] exI [of _ s]) simp
  next
    case True
    let ?h = "header_bytes (in_allocated s) (in_default_bucket s) (in_sizes s) ((in_policies s)[i := b])"
    let ?s = "s\<lparr>in_policies := (in_policies s)[i := b], in_header := ?h\<rparr>"
    have put: "put_le 2 (in_header s) (MEMORY_POLICIES_OFFSET + i * 2) b = Some ?h"
      using put_header(3) [OF L i(1)] s(2) by (simp add: described_def layout_defs)
    have none: "in_sizes s ! i = 0" "in_extents s ! i = []" using E i(1) True by (simp_all add: extents_ok_def)
    have bb: "bucket_bytes ?s j = bucket_bytes s j" if "j \<noteq> i" for j using that by (simp add: bucket_bytes_def)
    have r: "real ?s j v = real s j v" if "j \<noteq> i" for j v using bb [OF that] by (simp add: real_def)
    have vb: "vbytes ?s j = vbytes s j" "vbytes s i = 0" for j using none by (simp_all add: vbytes_def)
    have E': "extents_ok ?s"
    proof -
      have A: "\<forall>j<255. \<forall>e<length (in_extents s ! j). 131072 \<le> in_extents s ! j ! e \<and> in_extents s ! j ! e + bucket_bytes ?s j \<le> in_next_address s"
        using E none bb unfolding extents_ok_def by (metis less_zeroE list.size(3))
      have B: "\<forall>j<255. \<forall>k<255. \<forall>e<length (in_extents s ! j). \<forall>f<length (in_extents s ! k). (j, e) \<noteq> (k, f) \<longrightarrow>
          in_extents s ! j ! e + bucket_bytes ?s j \<le> in_extents s ! k ! f \<or> in_extents s ! k ! f + bucket_bytes ?s k \<le> in_extents s ! j ! e"
      proof (intro allI impI)
        fix j k e f assume h: "j < 255" "k < 255" "e < length (in_extents s ! j)" "f < length (in_extents s ! k)" "(j, e) \<noteq> (k, f)"
        have "j \<noteq> i" "k \<noteq> i" using h none by auto
        then show "in_extents s ! j ! e + bucket_bytes ?s j \<le> in_extents s ! k ! f \<or> in_extents s ! k ! f + bucket_bytes ?s k \<le> in_extents s ! j ! e"
          using E h unfolding bb [OF \<open>j \<noteq> i\<close>] bb [OF \<open>k \<noteq> i\<close>] extents_ok_def by blast
      qed
      have D: "\<forall>j<255. (in_policies s)[i := b] ! j < 65536 \<and> (if (in_policies s)[i := b] ! j = 0 then in_sizes s ! j = 0 \<and> in_extents s ! j = []
          else length (in_extents s ! j) = div_ceil (in_sizes s ! j) ((in_policies s)[i := b] ! j))"
        using E none i L by (auto simp: extents_ok_def nth_list_update div_ceil_def)
      show ?thesis using E A B D by (simp add: extents_ok_def)
    qed
    have S': "space_ok ?s"
      using s(1) E' r vb unfolding space_ok_def fresh_zero_def by (auto simp del: split_paired_All) (metis gr_implies_not0)
    have "rebuild ((in_policies s)[i := b]) (map unat (window (contents (in_memory s)) 2560 (in_allocated s))) 131072 (replicate 255 [])
        = Some (in_extents s, in_next_address s)"
      using s(2) True by (intro rebuild_policy) (simp_all add: described_def)
    then have "described ?s" using s(2) by (simp add: described_def)
    moreover have "vcontents ?s j = vcontents s j" if "j < 255" for j
      using r vb by (cases "j = i") (simp_all add: virtual_contents_def)
    moreover have "cache_ok ?s j c" if "in_policies s ! j \<noteq> 0" "cache_ok s j c" for j c
      using that True bb [of j] by (cases "j = i") (simp_all add: cache_ok_def)
    moreover have "?h = overwrite (in_header s) (2050 + i * 2) (to_le 2 b)"
      using put by (simp add: put_le_def layout_defs split: if_splits)
    ultimately show ?thesis using S' True put ix by (auto simp: ensure_policy_def)
  qed
qed

lemma policies_law:
  assumes "space_ok s" "described s" "ensure_policies s ps ch = Some (ch', s')" "\<forall>p\<in>set ps. snd p < 2 ^ 16"
  shows "space_ok s' \<and> described s' \<and> in_memory s' = in_memory s \<and> (\<forall>j<255. vcontents s' j = vcontents s j)
    \<and> in_default_bucket s' = in_default_bucket s \<and> (\<not> ch' \<longrightarrow> s' = s)"
  using assms
proof (induction ps arbitrary: s ch)
  case (Cons p ps)
  obtain i b where p: "p = (i, b)" by (cases p)
  obtain n s1 where e: "ensure_policy s i b = Some (n, s1)" "ensure_policies s1 ps (ch \<or> n) = Some (ch', s')"
    using Cons.prems(3) by (auto simp: p elim!: bind_eq_SomeE)
  have i: "i < 255" using e(1) memory_index_bound by (auto simp: ensure_policy_def elim!: bind_eq_SomeE)
  have "in_policies s ! i = 0 \<or> in_policies s ! i = b"
    using e(1) memory_index_Some [OF i] by (auto simp: ensure_policy_def index_def elim!: bind_eq_SomeE split: if_splits)
  from policy_law [OF Cons.prems(1,2) i this] Cons.prems(4) e(1) p
  have s1: "space_ok s1" "described s1" "\<not> n \<longrightarrow> s1 = s" "in_memory s1 = in_memory s" "\<forall>j<255. vcontents s1 j = vcontents s j"
    "in_default_bucket s1 = in_default_bucket s" by auto
  have ch: "n \<longrightarrow> ch'" using e(2) ensure_policies_changed by (cases n) auto
  have IH: "space_ok s' \<and> described s' \<and> in_memory s' = in_memory s1 \<and> (\<forall>j<255. vcontents s' j = vcontents s1 j)
      \<and> in_default_bucket s' = in_default_bucket s1 \<and> (\<not> ch' \<longrightarrow> s' = s1)"
    using Cons.prems(4) by (intro Cons.IH [OF s1(1,2) e(2)]) simp
  with ch s1 show ?case by (cases ch') auto
qed simp

lemma save_header_law:
  assumes "space_ok s" "described s"
  shows "\<exists>m. save_header M s = Some (s\<lparr>in_memory := m\<rparr>) \<and> inner_ok (s\<lparr>in_memory := m\<rparr>) \<and> (\<forall>i<255. vcontents (s\<lparr>in_memory := m\<rparr>) i = vcontents s i)"
proof -
  have L: "length (in_header s) = 2560" "131072 \<le> length (contents (in_memory s))" "in_allocated s \<le> 65536"
    using assms by (auto simp: described_def space_ok_def extents_ok_def length_header)
  obtain m where m: "mem_write M (in_memory s) 0 (in_header s) = Some m" "contents m = overwrite (contents (in_memory s)) 0 (in_header s)"
    "space_ok (s\<lparr>in_memory := m\<rparr>)" "\<forall>i<255. vcontents (s\<lparr>in_memory := m\<rparr>) i = vcontents s i"
    using low_write [OF assms(1), of 0 "in_header s"] L by auto
  have "window (contents m) 0 2560 = in_header s" using window_overwrite_same [of 0 "in_header s" "contents (in_memory s)"] L m(2) by simp
  moreover have "window (contents m) 2560 (in_allocated s) = window (contents (in_memory s)) 2560 (in_allocated s)"
    unfolding m(2) using L by (simp add: window_overwrite_disjoint)
  ultimately have "persisted (s\<lparr>in_memory := m\<rparr>)" using assms(2) by (simp add: persisted_def described_def)
  with m show ?thesis by (auto simp: save_header_def inner_ok_def)
qed

lemma ensure_saved_law:
  assumes s: "inner_ok s" and i: "i < 255" "in_policies s ! i = 0 \<or> in_policies s ! i = b" "0 < b" "b < 2 ^ 16"
  shows "\<exists>n s1 s'. ensure_policy s i b = Some (n, s1) \<and> (if n then save_policy M s1 i else Some s1) = Some s' \<and> inner_ok s'
    \<and> in_policies s' = (in_policies s)[i := b] \<and> in_default_bucket s' = in_default_bucket s
    \<and> (\<forall>j<255. vcontents s' j = vcontents s j) \<and> (\<forall>j c. in_policies s ! j \<noteq> 0 \<longrightarrow> cache_ok s j c \<longrightarrow> cache_ok s' j c)"
proof -
  have S: "space_ok s" "described s" "window (contents (in_memory s)) 0 2560 = in_header s" using s by (simp_all add: inner_ok_def persisted_def)
  obtain n s1 where e: "ensure_policy s i b = Some (n, s1)" "space_ok s1" "described s1" "\<not> n \<longrightarrow> s1 = s" "in_memory s1 = in_memory s"
    "in_policies s1 = (in_policies s)[i := b]" "in_default_bucket s1 = in_default_bucket s"
    "n \<longrightarrow> in_header s1 = overwrite (in_header s) (2050 + i * 2) (to_le 2 b)"
    "\<forall>j<255. vcontents s1 j = vcontents s j" "\<forall>j c. in_policies s ! j \<noteq> 0 \<longrightarrow> cache_ok s j c \<longrightarrow> cache_ok s1 j c"
    using policy_law [OF S(1,2) i(1,2,4)] by metis
  show ?thesis
  proof (cases n)
    case False
    then show ?thesis using e s by auto
  next
    case True
    note O = inner_okD [OF s]
    have hl: "length (in_header s1) = 2560" using e(8) True O(8) i(1) by simp
    have i2: "2050 + i * 2 + 2 \<le> 2560" using i(1) by simp
    obtain m where m: "save_range M s1 (2050 + i * 2) 2 = Some (s1\<lparr>in_memory := m\<rparr>)"
      "contents m = overwrite (contents (in_memory s)) (2050 + i * 2) (window (in_header s1) (2050 + i * 2) 2)"
      "space_ok (s1\<lparr>in_memory := m\<rparr>)" "\<forall>j<255. vcontents (s1\<lparr>in_memory := m\<rparr>) j = vcontents s1 j"
      using save_range_law [OF e(2) hl i2] e(5) by auto
    have w: "window (in_header s1) (2050 + i * 2) 2 = to_le 2 b"
      using window_overwrite_same [of "2050 + i * 2" "to_le 2 b" "in_header s"] e(8) True O(8) i(1) by simp
    have "window (contents m) 0 2560 = in_header s1"
      unfolding m(2) w using overwrite_window_inner [of 0 2560 "contents (in_memory s)" "2050 + i * 2" "to_le 2 b"] O(4) i(1) e(8) True S(3) by simp
    moreover have "in_allocated s1 \<le> 65536" using e(3) by (simp add: described_def)
    then have "window (contents m) 2560 (in_allocated s1) = window (contents (in_memory s1)) 2560 (in_allocated s1)"
      unfolding m(2) w e(5) using O(4) i(1) by (simp add: window_overwrite_disjoint)
    ultimately have "persisted (s1\<lparr>in_memory := m\<rparr>)" using e(3) by (simp add: persisted_def described_def)
    then have "inner_ok (s1\<lparr>in_memory := m\<rparr>)" using m(3) by (simp add: inner_ok_def)
    moreover have "save_policy M s1 i = Some (s1\<lparr>in_memory := m\<rparr>)" using m(1) by (simp add: save_policy_def layout_defs)
    ultimately show ?thesis using e True m(4) by auto
  qed
qed

end

end
