(* ===== verification/Manager_Properties.thy ===== *)
theory Manager_Properties
  imports Manager_Invariant
begin

text \<open>
  Clients of the memory manager: calls through handles, their specification over the contents of the
  255 virtual memories, and the properties of every reachable manager. The last section shows that a
  virtual memory meets the contract of the \<open>Memory\<close> trait itself.
\<close>

section \<open>Calls\<close>

datatype vmm_call =
  CallGet nat
| CallGetWith nat nat
| CallSize nat
| CallGrow nat nat
| CallRead nat nat nat
| CallWrite nat nat bytes
| CallReopen

datatype vmm_result = Done | Pages nat | Grown int | Data bytes

fun vmm_exec :: "'m memory_ops \<Rightarrow> 'm manager \<Rightarrow> vmm_call \<Rightarrow> (vmm_result \<times> 'm manager) option" where
  "vmm_exec M mg (CallGet i) = map_option (Pair Done) (manager_get M mg i)"
| "vmm_exec M mg (CallGetWith i b) = map_option (Pair Done) (get_with_bucket_size M mg i b)"
| "vmm_exec M mg (CallSize h) = map_option (\<lambda>n. (Pages n, mg)) (virtual_size mg h)"
| "vmm_exec M mg (CallGrow h n) = map_option (\<lambda>(r, mg'). (Grown r, mg')) (virtual_grow M mg h n)"
| "vmm_exec M mg (CallRead h off n) = map_option (\<lambda>(b, mg'). (Data b, mg')) (virtual_read M mg h off n)"
| "vmm_exec M mg (CallWrite h off b) = map_option (Pair Done) (virtual_write M mg h off b)"
| "vmm_exec M mg CallReopen = map_option (Pair Done) (reopen M mg)"

text \<open>The calls a client may make: known handles, accesses in bounds, one bucket size per memory.\<close>

fun valid_call :: "'m manager \<Rightarrow> vmm_call \<Rightarrow> bool" where
  "valid_call mg (CallGet i) \<longleftrightarrow> i < 255"
| "valid_call mg (CallGetWith i b) \<longleftrightarrow> i < 255 \<and> 0 < b \<and> b < 2 ^ 16
     \<and> (in_policies (mg_inner mg) ! i = 0 \<or> in_policies (mg_inner mg) ! i = b)"
| "valid_call mg (CallSize h) \<longleftrightarrow> h < length (mg_handles mg)"
| "valid_call mg (CallGrow h n) \<longleftrightarrow> h < length (mg_handles mg)"
| "valid_call mg (CallRead h off n) \<longleftrightarrow> h < length (mg_handles mg) \<and> off + n \<le> vbytes (mg_inner mg) (fst (mg_handles mg ! h))"
| "valid_call mg (CallWrite h off b) \<longleftrightarrow> h < length (mg_handles mg) \<and> off + length b \<le> vbytes (mg_inner mg) (fst (mg_handles mg ! h))"
| "valid_call mg CallReopen \<longleftrightarrow> True"

definition memories :: "('m \<Rightarrow> bytes) \<Rightarrow> 'm manager \<Rightarrow> bytes list" where
  "memories contents mg = map (virtual_contents contents (mg_inner mg)) [0..<255]"

text \<open>
  The specification: \<open>hs\<close> are the memories the handles stand for, \<open>con\<close> and \<open>con'\<close> the contents of all
  memories before and after. Only \<open>grow\<close> has a choice, to refuse.
\<close>

fun vmm_spec :: "nat list \<Rightarrow> bytes list \<Rightarrow> vmm_call \<Rightarrow> vmm_result \<Rightarrow> bytes list \<Rightarrow> bool" where
  "vmm_spec hs con (CallGet i) r con' \<longleftrightarrow> r = Done \<and> con' = con"
| "vmm_spec hs con (CallGetWith i b) r con' \<longleftrightarrow> r = Done \<and> con' = con"
| "vmm_spec hs con (CallSize h) r con' \<longleftrightarrow> r = Pages (length (con ! (hs ! h)) div 65536) \<and> con' = con"
| "vmm_spec hs con (CallGrow h n) r con' \<longleftrightarrow> r = Grown (-1) \<and> con' = con
     \<or> r = Grown (int (length (con ! (hs ! h)) div 65536)) \<and> con' = con[hs ! h := con ! (hs ! h) @ replicate (n * 65536) 0]"
| "vmm_spec hs con (CallRead h off n) r con' \<longleftrightarrow> r = Data (window (con ! (hs ! h)) off n) \<and> con' = con"
| "vmm_spec hs con (CallWrite h off b) r con' \<longleftrightarrow> r = Done \<and> con' = con[hs ! h := overwrite (con ! (hs ! h)) off b]"
| "vmm_spec hs con CallReopen r con' \<longleftrightarrow> r = Done \<and> con' = con"

fun handles_after :: "nat list \<Rightarrow> vmm_call \<Rightarrow> nat list" where
  "handles_after hs (CallGet i) = hs @ [i]"
| "handles_after hs (CallGetWith i b) = hs @ [i]"
| "handles_after hs CallReopen = []"
| "handles_after hs _ = hs"

text \<open>The managers a client can reach: opened on an empty memory, then any valid calls.\<close>

inductive vmm_reach :: "'m memory_ops \<Rightarrow> ('m \<Rightarrow> bool) \<Rightarrow> 'm manager \<Rightarrow> bool" for M ok where
  opened: "ok m \<Longrightarrow> mem_size M m = 0 \<Longrightarrow> d < 2 ^ 16 \<Longrightarrow> \<forall>p\<in>set ps. snd p < 2 ^ 16 \<Longrightarrow>
    init_with_policies M m d ps = Some mg \<Longrightarrow> vmm_reach M ok mg"
| called: "vmm_reach M ok mg \<Longrightarrow> valid_call mg call \<Longrightarrow> vmm_exec M mg call = Some (r, mg') \<Longrightarrow> vmm_reach M ok mg'"

section \<open>Lemmas\<close>

lemma nth_memories: "i < 255 \<Longrightarrow> memories contents mg ! i = virtual_contents contents (mg_inner mg) i"
  using nth_map [of i "[0..<255]"] nth_upt [of 0 i 255] by (simp add: memories_def del: upt_Suc)

lemma length_memories [simp]: "length (memories contents mg) = 255"
  by (simp add: memories_def)

lemma memories_cong:
  "(\<And>i. i < 255 \<Longrightarrow> virtual_contents contents (mg_inner mg') i = virtual_contents contents (mg_inner mg) i) \<Longrightarrow> memories contents mg' = memories contents mg"
  by (simp add: memories_def)

lemma memories_update:
  assumes "i < 255" "virtual_contents contents (mg_inner mg') i = b"
    "\<And>j. j < 255 \<Longrightarrow> j \<noteq> i \<Longrightarrow> virtual_contents contents (mg_inner mg') j = virtual_contents contents (mg_inner mg) j"
  shows "memories contents mg' = (memories contents mg)[i := b]"
proof (rule nth_equalityI)
  fix j assume "j < length (memories contents mg')"
  then have "j < 255" by simp
  then show "memories contents mg' ! j = (memories contents mg)[i := b] ! j"
    using assms by (cases "j = i") (simp_all add: nth_memories)
qed simp

context stable_memory
begin

definition manager_ok :: "'m manager \<Rightarrow> bool" where
  "manager_ok mg \<longleftrightarrow> inner_ok (mg_inner mg) \<and> 0 < in_default_bucket (mg_inner mg)
     \<and> (\<forall>(i, c)\<in>set (mg_handles mg). i < 255 \<and> in_policies (mg_inner mg) ! i \<noteq> 0 \<and> cache_ok (mg_inner mg) i c)"

lemma handle_ok:
  assumes "manager_ok mg" "h < length (mg_handles mg)"
  obtains i c where "index (mg_handles mg) h = Some (i, c)" "map fst (mg_handles mg) ! h = i" "mg_handles mg ! h = (i, c)"
    "i < 255" "in_policies (mg_inner mg) ! i \<noteq> 0" "cache_ok (mg_inner mg) i c"
proof -
  obtain i c where ic: "mg_handles mg ! h = (i, c)" by (cases "mg_handles mg ! h")
  then have "(i, c) \<in> set (mg_handles mg)" using assms(2) nth_mem by metis
  then show ?thesis using that [of i c] ic assms by (auto simp: manager_ok_def index_def)
qed

lemma handles_kept:
  assumes "\<forall>(i, c)\<in>set hs. P i c" "h < length hs" "P i c"
  shows "\<forall>(i, c)\<in>set (hs[h := (i, c)]). P i c"
  using assms set_update_subset_insert [of hs h "(i, c)"] by auto

lemma get_with_law:
  assumes mg: "manager_ok mg" and v: "i < 255" "0 < b" "b < 2 ^ 16" "in_policies (mg_inner mg) ! i = 0 \<or> in_policies (mg_inner mg) ! i = b"
  shows "\<exists>mg'. get_with_bucket_size M mg i b = Some mg' \<and> manager_ok mg' \<and> memories contents mg' = memories contents mg
    \<and> map fst (mg_handles mg') = map fst (mg_handles mg) @ [i]"
proof -
  let ?s = "mg_inner mg"
  have ok: "inner_ok ?s" using mg by (simp add: manager_ok_def)
  obtain n s1 s' where s': "ensure_policy ?s i b = Some (n, s1)" "(if n then save_policy M s1 i else Some s1) = Some s'" "inner_ok s'"
    "in_policies s' = (in_policies ?s)[i := b]" "in_default_bucket s' = in_default_bucket ?s"
    "\<forall>j<255. vcontents s' j = vcontents ?s j" "\<forall>j c. in_policies ?s ! j \<noteq> 0 \<longrightarrow> cache_ok ?s j c \<longrightarrow> cache_ok s' j c"
    using ensure_saved_law [OF ok v(1,4,2,3)] by blast
  let ?mg = "mg\<lparr>mg_inner := s', mg_handles := mg_handles mg @ [(i, cache_new (b * WASM_PAGE_SIZE))]\<rparr>"
  have L: "length (in_policies ?s) = 255" using inner_okD [OF ok] by simp
  have "get_with_bucket_size M mg i b = Some ?mg"
    using s'(1,2) v(2) memory_index_Some [OF v(1)] by (simp add: get_with_bucket_size_def)
  moreover have "cache_ok s' i (cache_new (b * WASM_PAGE_SIZE))"
    using v(1) L s'(4) by (simp add: cache_ok_def cache_new_def bucket_bytes_def WASM_PAGE_SIZE_def)
  then have "manager_ok ?mg" using mg s'(3-5,7) v L by (auto simp: manager_ok_def nth_list_update)
  moreover have "memories contents ?mg = memories contents mg" using s'(6) by (intro memories_cong) simp
  ultimately show ?thesis by auto
qed

lemma init_law:
  assumes "ok m" "mem_size M m = 0" "d < 2 ^ 16" "\<forall>p\<in>set ps. snd p < 2 ^ 16" "init_with_policies M m d ps = Some mg"
  shows "manager_ok mg" "mg_handles mg = []" "i < 255 \<Longrightarrow> vcontents (mg_inner mg) i = []"
proof -
  obtain mg0 ch s where i: "init_with_default_bucket_size M m d = Some mg0" "ensure_policies (mg_inner mg0) ps False = Some (ch, s)"
    "(if ch then save_header M s else Some s) = Some (mg_inner mg)" "mg_handles mg = mg_handles mg0"
    using assms(5) by (auto simp: init_with_policies_def elim!: bind_eq_SomeE)
  have c0: "contents m = []" using size_law [OF assms(1)] assms(2) by simp
  obtain m' where m': "0 < d" "ok m'" "contents m' = replicate 131072 0" "inner_new M m' d = Some (mg_inner mg0)" "mg_handles mg0 = []"
  proof -
    obtain r m' where g: "mem_grow M m 2 = (r, m')" by (cases "mem_grow M m 2")
    have r: "r \<noteq> -1" "0 < d" "inner_new M m' d = Some (mg_inner mg0)" "mg_handles mg0 = []"
      using i(1) assms(2) g by (auto simp: init_with_default_bucket_size_def DATA_OFFSET_PAGES_def elim!: bind_eq_SomeE split: if_splits)
    then have "ok m'" "contents m' = replicate 131072 0" using grow_law [OF assms(1), of 2] g c0 by auto
    with r show ?thesis using that by blast
  qed
  have new: "inner_ok (mg_inner mg0)" "in_default_bucket (mg_inner mg0) = d" "in_sizes (mg_inner mg0) = replicate 255 0"
    using new_law [OF m'(2,3) assms(3)] m'(4) by auto
  have e: "space_ok s" "described s" "in_default_bucket s = d" "\<not> ch \<longrightarrow> s = mg_inner mg0" "\<forall>j<255. vcontents s j = vcontents (mg_inner mg0) j"
    using policies_law [OF _ _ i(2) assms(4)] new(1,2) by (simp_all add: inner_ok_def persisted_def)
  have "inner_ok (mg_inner mg) \<and> in_default_bucket (mg_inner mg) = d \<and> (\<forall>j<255. vcontents (mg_inner mg) j = vcontents s j)"
  proof (cases ch)
    case True
    then show ?thesis using save_header_law [OF e(1,2)] i(3) e(3) by auto
  next
    case False
    then show ?thesis using i(3) e(3,4) new(1) by simp
  qed
  then show "manager_ok mg" "mg_handles mg = []" "i < 255 \<Longrightarrow> vcontents (mg_inner mg) i = []"
    using m'(1,5) i(4) e(5) new(3) by (simp_all add: manager_ok_def virtual_contents_def vbytes_def)
qed

lemma reopen_law:
  assumes "manager_ok mg"
  shows "reopen M mg = Some (mg\<lparr>mg_handles := []\<rparr>)"
proof -
  have ok: "inner_ok (mg_inner mg)" "0 < in_default_bucket (mg_inner mg)" using assms by (simp_all add: manager_ok_def)
  have "mem_size M (in_memory (mg_inner mg)) \<noteq> 0"
    using inner_okD(2,4) [OF ok(1)] size_law [of "in_memory (mg_inner mg)"] by auto
  then show ?thesis using load_law [OF ok(1)] ok(2) by (simp add: reopen_def init_with_default_bucket_size_def)
qed

lemma exec_law:
  assumes mg: "manager_ok mg" and v: "valid_call mg call"
  shows "\<exists>r mg'. vmm_exec M mg call = Some (r, mg') \<and> manager_ok mg' \<and> vmm_spec (map fst (mg_handles mg)) (memories contents mg) call r (memories contents mg')
    \<and> map fst (mg_handles mg') = handles_after (map fst (mg_handles mg)) call"
proof (cases call)
  case (CallGet i)
  let ?p = "in_policies (mg_inner mg) ! i"
  have O: "inner_ok (mg_inner mg)" "0 < in_default_bucket (mg_inner mg)" using mg by (simp_all add: manager_ok_def)
  have b: "?p < 2 ^ 16" "in_default_bucket (mg_inner mg) < 2 ^ 16" "length (in_policies (mg_inner mg)) = 255" and i: "i < 255"
    using O(1) v CallGet by (auto simp: inner_ok_def space_ok_def extents_ok_def persisted_def described_def)
  have "policy (mg_inner mg) i = Some (if ?p \<noteq> 0 then Some ?p else None)"
    using i b(3) by (simp add: policy_def memory_index_Some index_def)
  then have "manager_get M mg i = get_with_bucket_size M mg i (if ?p \<noteq> 0 then ?p else in_default_bucket (mg_inner mg))"
    by (simp add: manager_get_def)
  then show ?thesis using get_with_law [OF mg i, of "if ?p \<noteq> 0 then ?p else in_default_bucket (mg_inner mg)"] O(2) b CallGet by auto
next
  case (CallGetWith i b)
  then show ?thesis using get_with_law [OF mg, of i b] v by auto
next
  case (CallSize h)
  then obtain i c where h: "index (mg_handles mg) h = Some (i, c)" "map fst (mg_handles mg) ! h = i" "i < 255"
    using handle_ok [OF mg] v by (metis valid_call.simps(3))
  have "length (in_sizes (mg_inner mg)) = 255" using mg inner_okD(5) by (simp add: manager_ok_def)
  then show ?thesis using CallSize h mg by (simp add: virtual_size_def index_def nth_memories virtual_contents_def vbytes_def)
next
  case (CallGrow h n)
  then obtain i c where h: "index (mg_handles mg) h = Some (i, c)" "map fst (mg_handles mg) ! h = i" "i < 255" "in_policies (mg_inner mg) ! i \<noteq> 0"
    using handle_ok [OF mg] v by (metis valid_call.simps(4))
  have ok: "inner_ok (mg_inner mg)" using mg by (simp add: manager_ok_def)
  have sz: "in_sizes (mg_inner mg) ! i = length (memories contents mg ! i) div 65536"
    using h(3) by (simp add: nth_memories virtual_contents_def vbytes_def)
  from inner_grow_law [OF ok h(3,4), of n] show ?thesis
  proof (elim disjE exE conjE)
    assume "inner_grow M (mg_inner mg) i n = Some (-1, mg_inner mg)"
    then show ?thesis using CallGrow h mg by (simp add: virtual_grow_def)
  next
    fix s' assume s': "inner_grow M (mg_inner mg) i n = Some (int (in_sizes (mg_inner mg) ! i), s')" "inner_ok s'"
      "vcontents s' i = vcontents (mg_inner mg) i @ replicate (n * 65536) 0" "\<forall>j<255. j \<noteq> i \<longrightarrow> vcontents s' j = vcontents (mg_inner mg) j"
      "\<forall>j c. j < 255 \<longrightarrow> cache_ok (mg_inner mg) j c \<longrightarrow> cache_ok s' j c"
      "in_policies s' = in_policies (mg_inner mg)" "in_default_bucket s' = in_default_bucket (mg_inner mg)"
    let ?mg = "mg\<lparr>mg_inner := s'\<rparr>"
    have "memories contents ?mg = (memories contents mg)[i := memories contents mg ! i @ replicate (n * 65536) 0]"
      using s'(3,4) h(3) by (intro memories_update) (simp_all add: nth_memories)
    moreover have "manager_ok ?mg" using mg s'(2,5-7) by (auto simp: manager_ok_def)
    ultimately show ?thesis using CallGrow h s'(1) sz by (simp add: virtual_grow_def)
  qed
next
  case (CallRead h off n)
  then obtain i c where h: "index (mg_handles mg) h = Some (i, c)" "map fst (mg_handles mg) ! h = i" "mg_handles mg ! h = (i, c)" "i < 255"
      "in_policies (mg_inner mg) ! i \<noteq> 0" "cache_ok (mg_inner mg) i c"
    using handle_ok [OF mg, of h] v by auto
  have hl: "h < length (mg_handles mg)" "off + n \<le> vbytes (mg_inner mg) i" using v CallRead h(3) by simp_all
  have S: "space_ok (mg_inner mg)" using mg by (simp add: manager_ok_def inner_ok_def)
  obtain c' where r: "inner_read M (mg_inner mg) i off n c = Some (window (vcontents (mg_inner mg) i) off n, c')" "cache_ok (mg_inner mg) i c'"
    using inner_read_law [OF S h(4,6) hl(2)] by blast
  let ?mg = "mg\<lparr>mg_handles := (mg_handles mg)[h := (i, c')]\<rparr>"
  have "manager_ok ?mg" using mg handles_kept [OF _ hl(1), of _ i c'] h(4,5) r(2) by (simp add: manager_ok_def)
  moreover have "map fst ((mg_handles mg)[h := (i, c')]) = map fst (mg_handles mg)"
    using h(2) by (metis fst_conv list_update_id map_update)
  ultimately show ?thesis using CallRead h(1,2,4) r(1) memories_cong [of contents ?mg mg] by (simp add: virtual_read_def nth_memories)
next
  case (CallWrite h off b)
  then obtain i c where h: "index (mg_handles mg) h = Some (i, c)" "map fst (mg_handles mg) ! h = i" "mg_handles mg ! h = (i, c)" "i < 255"
      "in_policies (mg_inner mg) ! i \<noteq> 0" "cache_ok (mg_inner mg) i c"
    using handle_ok [OF mg, of h] v by auto
  have hl: "h < length (mg_handles mg)" "off + length b \<le> vbytes (mg_inner mg) i" using v CallWrite h(3) by simp_all
  have ok: "inner_ok (mg_inner mg)" "space_ok (mg_inner mg)" using mg by (simp_all add: manager_ok_def inner_ok_def)
  obtain m c' where w: "inner_write M (mg_inner mg) i off b c = Some (mg_inner mg\<lparr>in_memory := m\<rparr>, c')" "cache_ok (mg_inner mg) i c'"
    "space_ok (mg_inner mg\<lparr>in_memory := m\<rparr>)" "vcontents (mg_inner mg\<lparr>in_memory := m\<rparr>) i = overwrite (vcontents (mg_inner mg) i) off b"
    "\<forall>j<255. j \<noteq> i \<longrightarrow> vcontents (mg_inner mg\<lparr>in_memory := m\<rparr>) j = vcontents (mg_inner mg) j"
    "window (contents m) 0 131072 = window (contents (in_memory (mg_inner mg))) 0 131072"
    using inner_write_law [OF ok(2) h(4,6) hl(2)] by blast
  let ?mg = "mg\<lparr>mg_inner := mg_inner mg\<lparr>in_memory := m\<rparr>, mg_handles := (mg_handles mg)[h := (i, c')]\<rparr>"
  have P: "persisted (mg_inner mg)" using ok(1) by (simp add: inner_ok_def)
  have al: "in_allocated (mg_inner mg) \<le> 65536" using P by (simp add: persisted_def described_def)
  have sub: "window (contents m) a k = window (contents (in_memory (mg_inner mg))) a k" if "a + k \<le> 131072" for a k
    using arg_cong [OF w(6), of "\<lambda>x. window x a k"] that inner_okD(4) [OF ok(1)] w(3)
    by (simp add: window_window space_ok_def extents_ok_def)
  have "inner_ok (mg_inner mg\<lparr>in_memory := m\<rparr>)"
    using w(3) P sub [of 0 2560] sub [of 2560 "in_allocated (mg_inner mg)"] al by (simp add: inner_ok_def persisted_def described_def)
  then have "manager_ok ?mg" using mg handles_kept [OF _ hl(1), of _ i c'] h(4,5) w(2) by (simp add: manager_ok_def)
  moreover have "map fst ((mg_handles mg)[h := (i, c')]) = map fst (mg_handles mg)"
    using h(2) by (metis fst_conv list_update_id map_update)
  moreover have "memories contents ?mg = (memories contents mg)[i := overwrite (memories contents mg ! i) off b]"
    using w(4,5) h(4) by (intro memories_update) (simp_all add: nth_memories)
  ultimately show ?thesis using CallWrite h(1,2) w(1) by (simp add: virtual_write_def)
next
  case CallReopen
  have ok: "inner_ok (mg_inner mg)" "0 < in_default_bucket (mg_inner mg)" using mg by (simp_all add: manager_ok_def)
  show ?thesis using CallReopen reopen_law [OF mg] mg by (simp add: manager_ok_def memories_def)
qed

text \<open>An access past the end misses the cache and panics, or stays in the cached extent.\<close>

lemma past_end_law:
  assumes mg: "manager_ok mg" and h: "h < length (mg_handles mg)" "fst (mg_handles mg ! h) = i" and past: "vbytes (mg_inner mg) i < off + n"
  shows "virtual_read M mg h off n = None \<or> off + n \<le> capacity (mg_inner mg) i
    \<and> virtual_read M mg h off n = Some (map (\<lambda>v. contents (in_memory (mg_inner mg)) ! real (mg_inner mg) i v) [off..<off + n], mg)"
proof -
  let ?s = "mg_inner mg"
  obtain c where c: "index (mg_handles mg) h = Some (i, c)" "mg_handles mg ! h = (i, c)" "i < 255" "cache_ok ?s i c"
    by (rule handle_ok [OF mg h(1)]) (use h(2) that in simp)
  have E: "extents_ok ?s" "ok (in_memory ?s)" "in_next_address ?s \<le> length (contents (in_memory ?s))" "length (in_sizes ?s) = 255"
    using inner_okD(1-3,5) [of ?s] mg by (simp_all add: manager_ok_def)
  show ?thesis
  proof (cases "cache_get c off n")
    case None
    have "for_each_segment ?s i off n c = None"
      using past E(4) c(3) by (simp add: for_each_segment_def index_def checked_mul64_def checked_add64_def vbytes_def WASM_PAGE_SIZE_def)
    then show ?thesis using None c(1) by (simp add: virtual_read_def inner_read_def)
  next
    case (Some a)
    have ch: "seg_chain ?s i off 0 n [(a, n, 0)]" using cached_chain [OF E(1) c(3,4) Some] by blast
    have g: "bc_start c \<le> off" "off + n \<le> bc_start c + bc_length c"
      using Some by (auto simp: cache_get_def checked_add64_def split: if_splits)
    then obtain e where e: "e < length (in_extents ?s ! i)" "off + n \<le> e * bucket_bytes ?s i + bucket_bytes ?s i"
      using c(4) past by (auto simp: cache_ok_def)
    have "e * bucket_bytes ?s i + bucket_bytes ?s i \<le> capacity ?s i"
      using mult_le_mono1 [of "Suc e" "length (in_extents ?s ! i)" "bucket_bytes ?s i"] e(1) by (simp add: capacity_def)
    moreover have "mem_read M (in_memory ?s) a n = Some (map (\<lambda>v. contents (in_memory ?s) ! real ?s i v) [off..<off + n])"
      using read_segments [OF E(2,3) ch] by (auto split: option.splits)
    moreover have "mg\<lparr>mg_handles := (mg_handles mg)[h := (i, c)]\<rparr> = mg" using c(2) list_update_id [of "mg_handles mg" h] by simp
    ultimately show ?thesis using e(2) c(1) Some by (simp add: virtual_read_def inner_read_def)
  qed
qed

lemma refused_grow:
  assumes "manager_ok mg" "h < length (mg_handles mg)" "virtual_grow M mg h n = Some (-1, mg')"
  shows "mg' = mg"
proof -
  obtain i c where h: "index (mg_handles mg) h = Some (i, c)" "i < 255" "in_policies (mg_inner mg) ! i \<noteq> 0"
    using handle_ok [OF assms(1,2)] by metis
  have "inner_ok (mg_inner mg)" using assms(1) by (simp add: manager_ok_def)
  from inner_grow_law [OF this h(2,3), of n] show ?thesis using assms(3) h(1) by (auto simp: virtual_grow_def)
qed

lemma reach_ok: "vmm_reach M ok mg \<Longrightarrow> manager_ok mg"
proof (induction rule: vmm_reach.induct)
  case (called mg call r mg')
  then show ?case using exec_law [of mg call] by auto
qed (use init_law in blast)

lemma opens:
  assumes "ok m" "mem_size M m = 0" "mem_grow M m 2 = (0, m')" "0 < d" "d < 2 ^ 16"
  shows "\<exists>mg. init_with_policies M m d [] = Some mg \<and> vmm_reach M ok mg"
proof -
  have "contents m = []" using size_law [OF assms(1)] assms(2) by simp
  then have "ok m'" "contents m' = replicate 131072 0" using grow_law [OF assms(1), of 2] assms(3) by auto
  then obtain s where s: "inner_new M m' d = Some s" using new_law [of m' d] assms(5) by blast
  have "init_with_policies M m d [] = Some \<lparr>mg_inner = s, mg_handles = []\<rparr>"
    using assms(2-4) s by (simp add: init_with_policies_def init_with_default_bucket_size_def DATA_OFFSET_PAGES_def)
  then show ?thesis using vmm_reach.opened [of ok m M d "[]"] assms(1,2,5) by auto
qed

end

section \<open>A virtual memory is a memory\<close>

text \<open>
  The \<open>Memory\<close> operations of the \<open>VirtualMemory\<close> behind handle \<open>h\<close>. A read fills the handle's cache;
  the record of a memory has no place for that, and the properties hold with the cache either way.
\<close>

definition virtual_ops :: "'m memory_ops \<Rightarrow> nat \<Rightarrow> 'm manager memory_ops" where
  "virtual_ops M h = \<lparr>
     mem_size = (\<lambda>mg. case virtual_size mg h of Some n \<Rightarrow> n | None \<Rightarrow> 0),
     mem_grow = (\<lambda>mg n. case virtual_grow M mg h n of Some x \<Rightarrow> x | None \<Rightarrow> (-1, mg)),
     mem_read = (\<lambda>mg a n. map_option fst (virtual_read M mg h a n)),
     mem_write = (\<lambda>mg a b. virtual_write M mg h a b)\<rparr>"

definition virtual_ok :: "'m memory_ops \<Rightarrow> ('m \<Rightarrow> bool) \<Rightarrow> nat \<Rightarrow> nat \<Rightarrow> 'm manager \<Rightarrow> bool" where
  "virtual_ok M ok h i mg \<longleftrightarrow> vmm_reach M ok mg \<and> h < length (mg_handles mg) \<and> fst (mg_handles mg ! h) = i"

locale virtual_memory = stable_memory M ok contents
  for M :: "'m memory_ops" and ok :: "'m \<Rightarrow> bool" and contents :: "'m \<Rightarrow> bytes" +
  fixes h i :: nat
begin

lemma handle_call:
  assumes v: "virtual_ok M ok h i mg" and c: "valid_call mg call" "handles_after (map fst (mg_handles mg)) call = map fst (mg_handles mg)"
  obtains r mg' where "vmm_exec M mg call = Some (r, mg')" "virtual_ok M ok h i mg'"
    "vmm_spec (map fst (mg_handles mg)) (memories contents mg) call r (memories contents mg')"
proof -
  have mg: "vmm_reach M ok mg" "h < length (mg_handles mg)" "fst (mg_handles mg ! h) = i" using v by (simp_all add: virtual_ok_def)
  obtain r mg' where e: "vmm_exec M mg call = Some (r, mg')" "map fst (mg_handles mg') = map fst (mg_handles mg)"
    "vmm_spec (map fst (mg_handles mg)) (memories contents mg) call r (memories contents mg')"
    using exec_law [OF reach_ok [OF mg(1)] c(1)] c(2) by auto
  have l: "length (mg_handles mg') = length (mg_handles mg)" using e(2) by (metis length_map)
  then have "fst (mg_handles mg' ! h) = i" using e(2) mg(2,3) nth_map [of h "mg_handles mg'" fst] by simp
  then have "virtual_ok M ok h i mg'" using vmm_reach.called [OF mg(1) c(1) e(1)] l mg(2) by (simp add: virtual_ok_def)
  then show ?thesis using that e(1,3) by blast
qed

lemma handle_facts:
  assumes "virtual_ok M ok h i mg"
  shows "h < length (mg_handles mg)" "map fst (mg_handles mg) ! h = i" "i < 255"
    "memories contents mg ! i = vcontents (mg_inner mg) i" "vbytes (mg_inner mg) i < 2 ^ 63"
proof -
  have mg: "manager_ok mg" "h < length (mg_handles mg)" "fst (mg_handles mg ! h) = i" using assms reach_ok by (simp_all add: virtual_ok_def)
  show i: "i < 255" by (rule handle_ok [OF mg(1,2)]) (use mg(3) in simp)
  show "h < length (mg_handles mg)" "map fst (mg_handles mg) ! h = i" using mg(2,3) by simp_all
  show "memories contents mg ! i = vcontents (mg_inner mg) i" using i by (simp add: nth_memories)
  have ok: "inner_ok (mg_inner mg)" using mg(1) by (simp add: manager_ok_def)
  note E = inner_okD(1-3) [OF ok]
  show "vbytes (mg_inner mg) i < 2 ^ 63"
    using vbytes_capacity [OF E(1) i] capacity_next [OF E(1) i] E(3) size_bound [OF E(2)] by linarith
qed

lemma virtual_size_eq:
  assumes "virtual_ok M ok h i mg"
  shows "mem_size (virtual_ops M h) mg = vbytes (mg_inner mg) i div 65536"
proof -
  note F = handle_facts [OF assms]
  show ?thesis
  proof (rule handle_call [OF assms, of "CallSize h"])
    fix r mg' assume "vmm_exec M mg (CallSize h) = Some (r, mg')" "vmm_spec (map fst (mg_handles mg)) (memories contents mg) (CallSize h) r (memories contents mg')"
    then show ?thesis using F by (auto simp: virtual_ops_def)
  qed (use F in simp_all)
qed

lemma grow_handle:
  assumes "virtual_ok M ok h i mg"
  shows "mem_grow (virtual_ops M h) mg n = (-1, mg) \<or> (\<exists>mg'. mem_grow (virtual_ops M h) mg n = (int (mem_size (virtual_ops M h) mg), mg')
      \<and> virtual_ok M ok h i mg' \<and> vcontents (mg_inner mg') i = vcontents (mg_inner mg) i @ replicate (n * 65536) 0)"
proof -
  note F = handle_facts [OF assms]
  show ?thesis
  proof (rule handle_call [OF assms, of "CallGrow h n"])
    fix r mg'
    assume e: "vmm_exec M mg (CallGrow h n) = Some (r, mg')" "virtual_ok M ok h i mg'"
      "vmm_spec (map fst (mg_handles mg)) (memories contents mg) (CallGrow h n) r (memories contents mg')"
    obtain g where g: "virtual_grow M mg h n = Some (g, mg')" "r = Grown g" using e(1) by auto
    have "g = -1 \<Longrightarrow> mg' = mg" using refused_grow [OF _ F(1)] assms g(1) reach_ok by (simp add: virtual_ok_def)
    moreover have "vcontents (mg_inner mg') i = memories contents mg' ! i" using handle_facts(4) [OF e(2)] by simp
    ultimately show ?thesis using e(2,3) g F(2-4) virtual_size_eq [OF assms] by (auto simp: virtual_ops_def)
  qed (use F(1) in simp_all)
qed

end

sublocale virtual_memory \<subseteq> virt: stable_memory "virtual_ops M h" "virtual_ok M ok h i" "\<lambda>mg. virtual_contents contents (mg_inner mg) i"
proof
  fix mg assume v: "virtual_ok M ok h i mg"
  note F = handle_facts [OF v]
  show "length (vcontents (mg_inner mg) i) = mem_size (virtual_ops M h) mg * 65536"
    using virtual_size_eq [OF v] by (simp add: vbytes_def)
  show "length (vcontents (mg_inner mg) i) < 2 ^ 63" using F(5) by simp
  fix a n b
  show "mem_read (virtual_ops M h) mg a n = Some (window (vcontents (mg_inner mg) i) a n)" if le: "a + n \<le> length (vcontents (mg_inner mg) i)"
  proof (rule handle_call [OF v, of "CallRead h a n"])
    show "valid_call mg (CallRead h a n)" using F(1,2) le by simp
  qed (use F(2,4) in \<open>auto simp: virtual_ops_def\<close>)
  show "\<exists>mg'. mem_write (virtual_ops M h) mg a b = Some mg' \<and> virtual_ok M ok h i mg'
      \<and> vcontents (mg_inner mg') i = overwrite (vcontents (mg_inner mg) i) a b" if le: "a + length b \<le> length (vcontents (mg_inner mg) i)"
  proof (rule handle_call [OF v, of "CallWrite h a b"])
    fix r mg'
    assume e: "vmm_exec M mg (CallWrite h a b) = Some (r, mg')" "virtual_ok M ok h i mg'"
      "vmm_spec (map fst (mg_handles mg)) (memories contents mg) (CallWrite h a b) r (memories contents mg')"
    then have "memories contents mg' ! i = overwrite (vcontents (mg_inner mg) i) a b" using F(2-4) by simp
    then show ?thesis using e(1,2) handle_facts(4) [OF e(2)] by (auto simp: virtual_ops_def)
  qed (use F(1,2) le in simp_all)
  show "mem_grow (virtual_ops M h) mg n = (-1, mg) \<or> (\<exists>mg'. mem_grow (virtual_ops M h) mg n = (int (mem_size (virtual_ops M h) mg), mg')
      \<and> virtual_ok M ok h i mg' \<and> vcontents (mg_inner mg') i = vcontents (mg_inner mg) i @ replicate (n * 65536) 0)"
    using grow_handle [OF v] .
qed

context virtual_memory
begin

lemma virtual_contract: "stable_memory (virtual_ops M h) (virtual_ok M ok h i) (\<lambda>mg. virtual_contents contents (mg_inner mg) i)"
  by (rule virt.stable_memory_axioms)

end

interpretation paged: virtual_memory page_memory page_ok "\<lambda>m. m" 0 0
  by unfold_locales

section \<open>Properties\<close>

lemma page_opens: "\<exists>mg. init_with_policies page_memory [] 128 [] = Some mg \<and> vmm_reach page_memory page_ok mg"
  by (rule page.opens [of _ "replicate 131072 0"]) (simp_all add: page_memory_def page_ok_def PAGE_LIMIT_def)

lemma page_handle: "\<exists>mg. virtual_ok page_memory page_ok 0 0 mg \<and> vbytes (mg_inner mg) 0 = 0"
proof -
  obtain m0 where m0: "init_with_policies page_memory [] 128 [] = Some m0" "vmm_reach page_memory page_ok m0" using page_opens by blast
  have z: "mg_handles m0 = []" "virtual_contents (\<lambda>m. m) (mg_inner m0) 0 = []"
    using page.init_law(2,3) [OF _ _ _ _ m0(1)] by (simp_all add: page_memory_def page_ok_def)
  obtain r mg where mg: "vmm_exec page_memory m0 (CallGet 0) = Some (r, mg)"
    "vmm_spec (map fst (mg_handles m0)) (memories (\<lambda>m. m) m0) (CallGet 0) r (memories (\<lambda>m. m) mg)"
    "map fst (mg_handles mg) = handles_after (map fst (mg_handles m0)) (CallGet 0)"
    using page.exec_law [OF page.reach_ok [OF m0(2)], of "CallGet 0"] by auto
  have reach: "vmm_reach page_memory page_ok mg" using vmm_reach.called [OF m0(2) _ mg(1)] by simp
  have "virtual_contents (\<lambda>m. m) (mg_inner mg) 0 = []" using mg(2) z(2) nth_memories [of 0 "\<lambda>m. m" mg] nth_memories [of 0 "\<lambda>m. m" m0] by simp
  moreover have "length (mg_handles mg) = 1" "fst (mg_handles mg ! 0) = 0"
    using mg(3) z(1) by (simp_all add: map_eq_Cons_conv) auto
  ultimately show ?thesis using reach page.length_vcontents [of "mg_inner mg" 0] by (intro exI [of _ mg]) (simp add: virtual_ok_def)
qed

text \<open>
  C2. The memory manager refines 255 independent byte arrays. In every manager reachable from an empty
  memory, every valid call returns: \<open>size\<close>, \<open>read\<close>, \<open>write\<close> and \<open>grow\<close> through a handle act on the bytes
  of that handle's memory alone, exactly as the specification says, \<open>grow\<close> hands out zeroed pages even
  where the extents lie between those of other memories, and handing out handles or reopening the manager
  changes no byte of any memory.
\<close>

theorem vmm_refines:
  assumes "stable_memory M ok contents" "vmm_reach M ok mg" "valid_call mg call"
  shows "\<exists>r mg'. vmm_exec M mg call = Some (r, mg') \<and> vmm_reach M ok mg'
    \<and> vmm_spec (map fst (mg_handles mg)) (memories contents mg) call r (memories contents mg')
    \<and> map fst (mg_handles mg') = handles_after (map fst (mg_handles mg)) call"
  using stable_memory.exec_law [OF assms(1) stable_memory.reach_ok [OF assms(1,2)] assms(3)] vmm_reach.called [OF assms(2,3)] by blast

text \<open>C2 on a memory held as bytes: a handle for an unused memory.\<close>

theorem vmm_refines_witness:
  "\<exists>mg. vmm_reach page_memory page_ok mg \<and> valid_call mg (CallGet 7)
     \<and> (\<exists>r mg'. vmm_exec page_memory mg (CallGet 7) = Some (r, mg') \<and> memories (\<lambda>m. m) mg' = memories (\<lambda>m. m) mg)"
proof -
  obtain mg where mg: "vmm_reach page_memory page_ok mg" using page_opens by blast
  with vmm_refines [OF page.stable_memory_axioms mg, of "CallGet 7"] show ?thesis by auto
qed

text \<open>
  C8. Reopening is exact: \<open>MemoryManager::init_with_default_bucket_size\<close> on the bytes a reachable manager
  leaves in stable memory rebuilds the same sizes, policies, extents and next free address, without the
  handles, so an upgrade loses nothing and moves nothing.
\<close>

theorem vmm_reopens_exactly:
  assumes "stable_memory M ok contents" "vmm_reach M ok mg"
  shows "reopen M mg = Some (mg\<lparr>mg_handles := []\<rparr>)"
  using stable_memory.reopen_law [OF assms(1) stable_memory.reach_ok [OF assms]] .

text \<open>C8 on a memory held as bytes, for a manager with one handle.\<close>

theorem vmm_reopens_exactly_witness:
  "\<exists>mg. vmm_reach page_memory page_ok mg \<and> length (mg_handles mg) > 0 \<and> reopen page_memory mg = Some (mg\<lparr>mg_handles := []\<rparr>)"
proof -
  obtain mg where mg: "virtual_ok page_memory page_ok 0 0 mg" using page_handle by blast
  then have r: "vmm_reach page_memory page_ok mg" "length (mg_handles mg) > 0" by (simp_all add: virtual_ok_def)
  show ?thesis using vmm_reopens_exactly [OF page.stable_memory_axioms r(1)] r by blast
qed

text \<open>
  C16. Isolation of a read past the end. Through a handle of a reachable manager, a read that ends beyond
  the size of the memory panics unless the whole range lies in the bucket the handle has cached; then it
  returns bytes of the memory's own extents, never those of another memory or of the metadata. The
  size check is skipped on that path.
\<close>

theorem vmm_past_end:
  assumes "stable_memory M ok contents" "virtual_ok M ok h i mg" "vbytes (mg_inner mg) i < off + n"
  shows "virtual_read M mg h off n = None \<or> off + n \<le> capacity (mg_inner mg) i
    \<and> virtual_read M mg h off n = Some (map (\<lambda>v. contents (in_memory (mg_inner mg)) ! real (mg_inner mg) i v) [off..<off + n], mg)"
  using stable_memory.past_end_law [OF assms(1) stable_memory.reach_ok [OF assms(1)]] assms(2,3) by (simp add: virtual_ok_def)

text \<open>C16 on a memory held as bytes: reading from a memory that never grew.\<close>

theorem vmm_past_end_witness:
  "\<exists>mg. virtual_ok page_memory page_ok 0 0 mg \<and> vbytes (mg_inner mg) 0 < 0 + 8
     \<and> (virtual_read page_memory mg 0 0 8 = None \<or> 0 + 8 \<le> capacity (mg_inner mg) 0)"
proof -
  obtain mg where mg: "virtual_ok page_memory page_ok 0 0 mg" "vbytes (mg_inner mg) 0 < 0 + 8" using page_handle by auto
  show ?thesis using vmm_past_end [OF page.stable_memory_axioms mg] mg by blast
qed

text \<open>
  C10. A \<open>VirtualMemory\<close> is a \<open>Memory\<close>: over any memory that meets the contract of the trait, the operations
  behind a handle meet the same contract on the bytes of the handle's memory, so every structure proved
  against the contract works unchanged inside the memory manager.
\<close>

theorem vmm_is_memory:
  assumes "stable_memory M ok contents"
  shows "stable_memory (virtual_ops M h) (virtual_ok M ok h i) (\<lambda>mg. virtual_contents contents (mg_inner mg) i)"
proof -
  have "virtual_memory M ok contents" using assms by (simp add: virtual_memory_def)
  then show ?thesis by (rule virtual_memory.virtual_contract)
qed

text \<open>C10 on a memory held as bytes.\<close>

theorem vmm_is_memory_witness:
  "stable_memory (virtual_ops page_memory 0) (virtual_ok page_memory page_ok 0 0) (\<lambda>mg. virtual_contents (\<lambda>m. m) (mg_inner mg) 0)
   \<and> (\<exists>mg. virtual_ok page_memory page_ok 0 0 mg)"
  using vmm_is_memory [OF page.stable_memory_axioms] page_handle by blast

end
