(* ===== verification/Deque_Properties.thy ===== *)
theory Deque_Properties
  imports Deque_Operations Blob_Arena Manager_Properties
begin

text \<open>
  Clients of the stable deque: calls, their specification over lists, and the properties of every
  reachable deque, on any memory and for any element type; then inside the memory manager.
\<close>

section \<open>Calls\<close>

datatype 'a dq_call =
  DqLen
| DqGet nat
| DqSet nat 'a
| DqPushBack 'a
| DqPushFront 'a
| DqPopBack
| DqPopFront
| DqReopen

datatype 'a dq_result = DqDone | DqGrowFailed grow_failed | DqCount nat | DqItem "'a option" | DqInit "init_error + unit"

fun dq_pushed :: "'m \<times> (grow_failed + unit) \<Rightarrow> 'm \<times> 'a dq_result" where
  "dq_pushed (m, Inl e) = (m, DqGrowFailed e)"
| "dq_pushed (m, Inr _) = (m, DqDone)"

fun dq_exec :: "'m memory_ops \<Rightarrow> 'a storable \<Rightarrow> 'm \<Rightarrow> 'a dq_call \<Rightarrow> ('m \<times> 'a dq_result) option" where
  "dq_exec M S m DqLen = map_option (\<lambda>n. (m, DqCount n)) (deque_len M m)"
| "dq_exec M S m (DqGet i) = map_option (\<lambda>x. (m, DqItem x)) (deque_get M S m i)"
| "dq_exec M S m (DqSet i x) = map_option (\<lambda>m'. (m', DqDone)) (deque_set M S m i x)"
| "dq_exec M S m (DqPushBack x) = map_option dq_pushed (push_back M S m x)"
| "dq_exec M S m (DqPushFront x) = map_option dq_pushed (push_front M S m x)"
| "dq_exec M S m DqPopBack = map_option (\<lambda>(x, m'). (m', DqItem x)) (pop_back M S m)"
| "dq_exec M S m DqPopFront = map_option (\<lambda>(x, m'). (m', DqItem x)) (pop_front M S m)"
| "dq_exec M S m DqReopen = map_option (\<lambda>(m', r). (m', DqInit r)) (deque_init M S m)"

text \<open>The specification over lists. A push may fail to grow, and then changes nothing.\<close>

fun dq_spec :: "'a list \<Rightarrow> 'a dq_call \<Rightarrow> 'a dq_result \<Rightarrow> 'a list \<Rightarrow> bool" where
  "dq_spec xs DqLen r xs' \<longleftrightarrow> r = DqCount (length xs) \<and> xs' = xs"
| "dq_spec xs (DqGet i) r xs' \<longleftrightarrow> r = DqItem (if i < length xs then Some (xs ! i) else None) \<and> xs' = xs"
| "dq_spec xs (DqSet i x) r xs' \<longleftrightarrow> i < length xs \<and> r = DqDone \<and> xs' = xs[i := x]"
| "dq_spec xs (DqPushBack x) r xs' \<longleftrightarrow> r = DqDone \<and> xs' = xs @ [x] \<or> (\<exists>e. r = DqGrowFailed e) \<and> xs' = xs"
| "dq_spec xs (DqPushFront x) r xs' \<longleftrightarrow> r = DqDone \<and> xs' = x # xs \<or> (\<exists>e. r = DqGrowFailed e) \<and> xs' = xs"
| "dq_spec xs DqPopBack r xs' \<longleftrightarrow> r = DqItem (if xs = [] then None else Some (last xs)) \<and> xs' = butlast xs"
| "dq_spec xs DqPopFront r xs' \<longleftrightarrow> r = DqItem (if xs = [] then None else Some (hd xs)) \<and> xs' = tl xs"
| "dq_spec xs DqReopen r xs' \<longleftrightarrow> r = DqInit (Inr ()) \<and> xs' = xs"

text \<open>The one panic: \<open>set\<close> out of range.\<close>

fun dq_panics :: "'a list \<Rightarrow> 'a dq_call \<Rightarrow> bool" where
  "dq_panics xs (DqSet i x) \<longleftrightarrow> length xs \<le> i"
| "dq_panics xs _ \<longleftrightarrow> False"

inductive dq_reach :: "'m memory_ops \<Rightarrow> 'a storable \<Rightarrow> ('m \<Rightarrow> bool) \<Rightarrow> 'm \<Rightarrow> bool" for M S ok where
  dq_created: "ok m \<Longrightarrow> deque_new M S m = Some (m', Inr ()) \<Longrightarrow> dq_reach M S ok m'"
| dq_called: "dq_reach M S ok m \<Longrightarrow> dq_exec M S m call = Some (m', r) \<Longrightarrow> dq_reach M S ok m'"

section \<open>Lemmas\<close>

context stable_deque
begin

lemma dq_exec_law:
  assumes m: "ok m" "dq_ok S (contents m) xs"
  shows "case dq_exec M S m call of None \<Rightarrow> dq_panics xs call
    | Some (m', r) \<Rightarrow> ok m' \<and> (\<exists>xs'. dq_ok S (contents m') xs' \<and> dq_spec xs call r xs')"
proof (cases call)
  case (DqSet i x)
  then show ?thesis using set_law [OF m, of i x] by (cases "i < length xs") (auto simp: not_less)
next
  case (DqPushBack x)
  obtain m' r where p: "push_back M S m x = Some (m', r)" "ok m'" "dq_ok S (contents m') (if r = Inr () then xs @ [x] else xs)"
    using push_back_law [OF m] by blast
  show ?thesis using p DqPushBack by (cases r) auto
next
  case (DqPushFront x)
  obtain m' r where p: "push_front M S m x = Some (m', r)" "ok m'" "dq_ok S (contents m') (if r = Inr () then x # xs else xs)"
    using push_front_law [OF m] by blast
  show ?thesis using p DqPushFront by (cases r) auto
next
  case DqPopBack
  show ?thesis
  proof (cases xs rule: rev_cases)
    case (snoc ys y)
    then show ?thesis using pop_back_law [of m ys y] m DqPopBack by auto
  qed (use DqPopBack m pop_empty in auto)
next
  case DqPopFront
  show ?thesis
  proof (cases xs)
    case (Cons y ys)
    then show ?thesis using pop_front_law [of m y ys] m DqPopFront by auto
  qed (use DqPopFront m pop_empty in auto)
qed (use m len_law [OF m] get_law [OF m] init_reopens [OF m] in auto)

lemma dq_reach_ok: "dq_reach M S ok m \<Longrightarrow> ok m \<and> (\<exists>xs. dq_ok S (contents m) xs)"
proof (induction rule: dq_reach.induct)
  case (dq_created m m')
  then show ?case using new_law [of m] by auto
next
  case (dq_called m call m' r)
  then obtain xs where "ok m" "dq_ok S (contents m) xs" by blast
  from dq_exec_law [OF this, of call] show ?case using dq_called.hyps by auto
qed

end

lemma stable_deque_intro: "stable_memory M ok contents \<Longrightarrow> storable_laws S \<Longrightarrow> stable_deque M ok contents S"
  by (simp add: stable_deque_def byte_memory_def)

section \<open>Instances\<close>

interpretation blob_refs: storable_laws blob_ref_storable
  by unfold_locales (simp_all add: blob_ref_storable_def slot_round_trip)

interpretation paged_deque: stable_deque page_memory page_ok "\<lambda>m. m" blob_ref_storable
  by unfold_locales

lemma page_deque_fresh:
  "\<exists>m. deque_new page_memory blob_ref_storable [] = Some (m, Inr ()) \<and> page_ok m \<and> length m = 131072 \<and> dq_ok blob_ref_storable m []
     \<and> hdr blob_ref_storable m 0 0 0 65536 16 0 FREE_LIST_NIL"
proof -
  have p: "page_ok (replicate n 0)" if "n = 65536 \<or> n = 131072 \<or> n = 0" for n using that by (auto simp: page_ok_def PAGE_LIMIT_def)
  have g: "alloc_at_end page_memory [] 128 = Some (replicate 65536 0, Inr 0)"
    "alloc_at_end page_memory (replicate 65536 0) 128 = Some (replicate 131072 0, Inr 65536)"
    by (simp_all add: alloc_at_end_def page_memory_def div_ceil_def WASM_PAGE_SIZE_def PAGE_LIMIT_def checked_mul64_def replicate_add [symmetric])
  have c: "128 \<le> length (replicate 131072 (0 :: u8))" by simp
  note h = paged_deque.fresh_header_law [OF c, of 65536]
  obtain m where m: "deque_new page_memory blob_ref_storable [] = Some (m, Inr ())" "page_ok m"
      "m = overwrite (replicate 131072 0) 0 (paged_deque.fresh_header 65536)"
    using paged_deque.write_header_law [OF p [of 131072], of 65536] g blob_refs.block_slots_for_eq
    by (auto simp: deque_new_def and_then_def DATA_OFFSET_def INITIAL_DIR_SLOTS_def)
  moreover have "dq_ok blob_ref_storable m []" using paged_deque.new_law [OF p [of 0]] m(1) by simp
  moreover have "length m = 131072" using h(2) m(3) by (simp add: paged_deque.high_same_def)
  moreover have "hdr blob_ref_storable m 0 0 0 65536 16 0 FREE_LIST_NIL" unfolding m(3) by (rule h(1)) simp
  ultimately show ?thesis by (intro exI [of _ m] conjI)
qed


lemma page_deque_filled:
  "\<exists>m m'. deque_new page_memory blob_ref_storable [] = Some (m, Inr ()) \<and> push_back page_memory blob_ref_storable m r = Some (m', Inr ())"
proof -
  obtain m where m: "deque_new page_memory blob_ref_storable [] = Some (m, Inr ())" "page_ok m" "length m = 131072" "dq_ok blob_ref_storable m []"
    and h: "hdr blob_ref_storable m 0 0 0 65536 16 0 FREE_LIST_NIL" using page_deque_fresh by blast
  have s: "slots_per_block blob_ref_storable = 16384" "slot_size blob_ref_storable = 16"
    by (simp_all add: slots_per_block_def TARGET_BLOCK_BYTES_def slot_size_def bytes_to_store_size_bounded_def blob_ref_storable_def)
  have a: "alloc_at_end page_memory m 262144 = Some (m @ replicate 262144 0, Inr 131072)"
    using m(3) by (simp add: alloc_at_end_def page_memory_def div_ceil_def WASM_PAGE_SIZE_def PAGE_LIMIT_def checked_mul64_def)
  have f: "u64_at m 17 = 0" "u64_at m 41 = 16" "u64_at m 49 = 0" "u64_at m 57 = 16384" "u64_at m 65 = FREE_LIST_NIL" using h s by (simp_all add: hdr_def)
  have q: "acquire_block page_memory blob_ref_storable m 16384 = Some (m @ replicate 262144 0, Inr 131072)"
    using m(2,3) f(5) a s by (simp add: acquire_block_def mul64_def)
  have "grow_for_push page_memory blob_ref_storable m
      = publish_block page_memory blob_ref_storable (m @ replicate 262144 0) 0 16384 0 131072 \<bind> (\<lambda>m. Some (m, Inr ()))"
    using m(2,3) f(1-4) q by (simp add: grow_for_push_def and_then_def rebase_def)
  then have "\<not> (\<exists>m1 e. grow_for_push page_memory blob_ref_storable m = Some (m1, Inl e))" by (auto elim!: bind_eq_SomeE)
  then obtain m' where p: "push_back page_memory blob_ref_storable m r = Some (m', Inr ())" using paged_deque.push_back_law [OF m(2,4)] by blast
  then show ?thesis using m(1) p by blast
qed

section \<open>Inside the memory manager\<close>


section \<open>Properties\<close>

text \<open>
  C1. The stable deque refines a list. On every deque reachable from \<open>VecDeque::new\<close>, over any memory that
  meets the contract and any bounded element type, \<open>to_vec\<close> returns a list, and every call returns with the
  result and the new list of the specification: pushes and pops at both ends, access by index, and \<open>init\<close>,
  through wrapped windows, directory rotation and doubling, block migration and the free list. A failed
  growth leaves the list as it was, and the only panic is \<open>set\<close> out of range.
\<close>

theorem deque_refines:
  assumes "stable_memory M ok contents" "storable_laws S" "dq_reach M S ok m"
  shows "\<exists>xs. to_vec M S m = Some xs \<and> (case dq_exec M S m call of
      None \<Rightarrow> dq_panics xs call
    | Some (m', r) \<Rightarrow> dq_reach M S ok m' \<and> (\<exists>xs'. to_vec M S m' = Some xs' \<and> dq_spec xs call r xs'))"
proof -
  note D = stable_deque_intro [OF assms(1,2)]
  obtain xs where m: "ok m" "dq_ok S (contents m) xs" using stable_deque.dq_reach_ok [OF D assms(3)] by blast
  have "to_vec M S m = Some xs" by (rule stable_deque.to_vec_law [OF D m])
  moreover have "case dq_exec M S m call of None \<Rightarrow> dq_panics xs call
    | Some (m', r) \<Rightarrow> dq_reach M S ok m' \<and> (\<exists>xs'. to_vec M S m' = Some xs' \<and> dq_spec xs call r xs')"
    using stable_deque.dq_exec_law [OF D m, of call] stable_deque.to_vec_law [OF D] dq_reach.dq_called [OF assms(3), of call]
    by (auto split: option.splits)
  ultimately show ?thesis by blast
qed

text \<open>C1 for blob locators on a memory held as bytes: what is pushed onto a fresh deque is popped from its front.\<close>

theorem deque_refines_witness:
  "\<exists>m m' m''. dq_reach page_memory blob_ref_storable page_ok m \<and> dq_exec page_memory blob_ref_storable m (DqPushBack EMPTY) = Some (m', DqDone)
     \<and> dq_exec page_memory blob_ref_storable m' DqPopFront = Some (m'', DqItem (Some EMPTY)) \<and> to_vec page_memory blob_ref_storable m'' = Some []"
proof -
  note ref = deque_refines [OF page.stable_memory_axioms blob_refs.storable_laws_axioms]
  obtain m m' where m: "deque_new page_memory blob_ref_storable [] = Some (m, Inr ())" "push_back page_memory blob_ref_storable m EMPTY = Some (m', Inr ())"
    using page_deque_filled by blast
  have p: "page_ok []" by (simp add: page_ok_def)
  then have r: "dq_reach page_memory blob_ref_storable page_ok m" using m(1) by (rule dq_reach.dq_created)
  have e: "dq_exec page_memory blob_ref_storable m (DqPushBack EMPTY) = Some (m', DqDone)" using m(2) by simp
  have r': "dq_reach page_memory blob_ref_storable page_ok m'" using r e by (rule dq_reach.dq_called)
  have "page_ok m" "dq_ok blob_ref_storable m []" using paged_deque.new_law [OF p] m(1) by auto
  then have "to_vec page_memory blob_ref_storable m = Some []" using paged_deque.to_vec_law by blast
  then have "to_vec page_memory blob_ref_storable m' = Some [EMPTY]" using ref [OF r, of "DqPushBack EMPTY"] e by auto
  then obtain m'' where "dq_exec page_memory blob_ref_storable m' DqPopFront = Some (m'', DqItem (Some EMPTY))" "to_vec page_memory blob_ref_storable m'' = Some []"
    using ref [OF r', of DqPopFront] by (auto split: option.splits)
  then show ?thesis using r e by blast
qed







end
