(* ===== verification/Pending_Log.thy ===== *)
theory Pending_Log
  imports Deque_Properties
begin

text \<open>
  The durable pending log of the text canister: the payload of an operation goes to the blob arena, its
  locator to a stable deque, and flushing takes them back in order. The encoding of operations (Candid)
  is a parameter. Other regions of the index use the same arena; their writes are steps of their own.
\<close>

section \<open>The log\<close>

record ('m, 'v) pending_log =
  pl_pending :: 'm
  pl_arena :: 'v

definition append_pending :: "'m memory_ops \<Rightarrow> 'v vec_ops \<Rightarrow> ('op \<Rightarrow> bytes) \<Rightarrow> ('m, 'v) pending_log \<Rightarrow> 'op \<Rightarrow> ('m, 'v) pending_log option" where
  "append_pending M V enc s op = do {
     (r, v) \<leftarrow> arena_put V (pl_arena s) (enc op);
     (m, res) \<leftarrow> push_back M blob_ref_storable (pl_pending s) r;
     case res of Inl _ \<Rightarrow> None | Inr _ \<Rightarrow> Some \<lparr>pl_pending = m, pl_arena = v\<rparr> }"

text \<open>One round of the loop of \<open>flush_step\<close>, up to the decoded operation that is then applied.\<close>

definition next_pending :: "'m memory_ops \<Rightarrow> 'v vec_ops \<Rightarrow> (bytes \<Rightarrow> 'op option) \<Rightarrow> ('m, 'v) pending_log \<Rightarrow> ('op option \<times> ('m, 'v) pending_log) option" where
  "next_pending M V dec s = do {
     (locator, m) \<leftarrow> pop_front M blob_ref_storable (pl_pending s);
     case locator of
       None \<Rightarrow> Some (None, s\<lparr>pl_pending := m\<rparr>)
     | Some r \<Rightarrow> do {
         bytes \<leftarrow> arena_read V (pl_arena s) r;
         op \<leftarrow> dec bytes;
         Some (Some op, s\<lparr>pl_pending := m\<rparr>) } }"

text \<open>
  Histories of the log, with the operations appended and taken so far. The other regions of the index
  append blobs to the arena, and rewrite in place only runs of their own.
\<close>

inductive log_run :: "'m memory_ops \<Rightarrow> 'v vec_ops \<Rightarrow> ('m \<Rightarrow> bool) \<Rightarrow> ('v \<Rightarrow> bool) \<Rightarrow> ('v \<Rightarrow> bytes list) \<Rightarrow> ('op \<Rightarrow> bytes) \<Rightarrow> (bytes \<Rightarrow> 'op option)
    \<Rightarrow> ('m, 'v) pending_log \<Rightarrow> 'op list \<Rightarrow> 'op list \<Rightarrow> bool" for M V ok vok items enc dec where
  log_opened: "ok m \<Longrightarrow> vok v \<Longrightarrow> deque_new M blob_ref_storable m = Some (m', Inr ()) \<Longrightarrow>
    log_run M V ok vok items enc dec \<lparr>pl_pending = m', pl_arena = v\<rparr> [] []"
| log_appended: "log_run M V ok vok items enc dec s A T \<Longrightarrow> length (enc op) < 2 ^ 32 \<Longrightarrow> append_pending M V enc s op = Some s' \<Longrightarrow>
    log_run M V ok vok items enc dec s' (A @ [op]) T"
| log_taken: "log_run M V ok vok items enc dec s A T \<Longrightarrow> next_pending M V dec s = Some (Some op, s') \<Longrightarrow>
    log_run M V ok vok items enc dec s' A (T @ [op])"
| log_foreign_put: "log_run M V ok vok items enc dec s A T \<Longrightarrow> length b < 2 ^ 32 \<Longrightarrow> arena_put V (pl_arena s) b = Some (r, v) \<Longrightarrow>
    log_run M V ok vok items enc dec (s\<lparr>pl_arena := v\<rparr>) A T"
| log_foreign_write: "log_run M V ok vok items enc dec s A T \<Longrightarrow> length b < 2 ^ 32 \<Longrightarrow> to_vec M blob_ref_storable (pl_pending s) = Some refs \<Longrightarrow>
    \<forall>p\<in>set refs. run p \<inter> run old = {} \<Longrightarrow> run old \<subseteq> {..<length (items (pl_arena s))} \<Longrightarrow>
    arena_write_over V (pl_arena s) old b = Some (r, v) \<Longrightarrow> log_run M V ok vok items enc dec (s\<lparr>pl_arena := v\<rparr>) A T"
| log_reopened: "log_run M V ok vok items enc dec s A T \<Longrightarrow> deque_init M blob_ref_storable (pl_pending s) = Some (m', Inr ()) \<Longrightarrow>
    log_run M V ok vok items enc dec (s\<lparr>pl_pending := m'\<rparr>) A T"

section \<open>Lemmas\<close>

locale text_log = stable_deque M ok contents blob_ref_storable + stable_vec V vok items
  for M :: "'m memory_ops" and ok contents and V :: "'v vec_ops" and vok items +
  fixes enc :: "'op \<Rightarrow> bytes" and dec :: "bytes \<Rightarrow> 'op option"
  assumes dec_enc: "dec (enc op) = Some op"
begin

definition holds :: "('m, 'v) pending_log \<Rightarrow> 'op list \<Rightarrow> bool" where
  "holds s ops \<longleftrightarrow> ok (pl_pending s) \<and> vok (pl_arena s) \<and> (\<exists>refs. dq_ok blob_ref_storable (contents (pl_pending s)) refs
     \<and> list_all2 (\<lambda>r op. addresses (items (pl_arena s)) r (enc op)) refs ops)"

lemma run_in: "addresses E r b \<Longrightarrow> run r \<subseteq> {..<length E}"
  by (cases "b = []") (auto simp: addresses_def run_def div_ceil_def)

lemma append_law:
  assumes "holds s ops" "length (enc op) < 2 ^ 32" "append_pending M V enc s op = Some s'"
  shows "holds s' (ops @ [op])"
proof -
  obtain refs where h: "ok (pl_pending s)" "vok (pl_arena s)" "dq_ok blob_ref_storable (contents (pl_pending s)) refs"
    "list_all2 (\<lambda>r op. addresses (items (pl_arena s)) r (enc op)) refs ops" using assms(1) by (auto simp: holds_def)
  obtain r v m u where a: "arena_put V (pl_arena s) (enc op) = Some (r, v)" "push_back M blob_ref_storable (pl_pending s) r = Some (m, Inr u)"
    "s' = \<lparr>pl_pending = m, pl_arena = v\<rparr>"
    using assms(3) by (auto simp: append_pending_def elim!: bind_eq_SomeE split: sum.splits)
  note p = arena_put_law [OF h(2) a(1) assms(2)]
  have d: "ok m" "dq_ok blob_ref_storable (contents m) (refs @ [r])" using push_back_law [OF h(1,3), of r] a(2) by auto
  have "list_all2 (\<lambda>r op. addresses (items v) r (enc op)) refs ops"
    using h(4)
  proof (rule list_all2_mono)
    fix q o' assume q: "addresses (items (pl_arena s)) q (enc o')"
    then show "addresses (items v) q (enc o')" using run_in [OF q] p(2) by (intro addresses_cong [OF q]) (auto simp: nth_append)
  qed
  then show ?thesis using d p(1,3) a(3) by (auto simp: holds_def list_all2_appendI)
qed

lemma next_law:
  assumes "holds s ops"
  shows "\<exists>s'. next_pending M V dec s = Some (case ops of [] \<Rightarrow> None | op # _ \<Rightarrow> Some op, s') \<and> holds s' (tl ops)"
proof -
  obtain refs where h: "ok (pl_pending s)" "vok (pl_arena s)" "dq_ok blob_ref_storable (contents (pl_pending s)) refs"
    "list_all2 (\<lambda>r op. addresses (items (pl_arena s)) r (enc op)) refs ops" using assms by (auto simp: holds_def)
  show ?thesis
  proof (cases ops)
    case Nil
    then have "refs = []" using h(4) by simp
    then show ?thesis using h Nil pop_empty(2) [of "pl_pending s"] by (auto simp: next_pending_def holds_def)
  next
    case (Cons op rest)
    then obtain r refs' where r: "refs = r # refs'" "addresses (items (pl_arena s)) r (enc op)"
      "list_all2 (\<lambda>r op. addresses (items (pl_arena s)) r (enc op)) refs' rest" using h(4) by (auto simp: list_all2_Cons2)
    obtain m where m: "pop_front M blob_ref_storable (pl_pending s) = Some (Some r, m)" "ok m" "dq_ok blob_ref_storable (contents m) refs'"
      using pop_front_law [of "pl_pending s" r refs'] h(1,3) r(1) by auto
    show ?thesis using m r(2,3) h(2) arena_read_law [OF h(2) r(2)] dec_enc Cons by (auto simp: next_pending_def holds_def)
  qed
qed

lemma foreign_law:
  assumes "holds s ops" "vok v" "length (items (pl_arena s)) \<le> length (items v)"
    "\<And>i. i < length (items (pl_arena s)) \<Longrightarrow> i \<notin> X \<Longrightarrow> items v ! i = items (pl_arena s) ! i"
    "\<And>refs p. to_vec M blob_ref_storable (pl_pending s) = Some refs \<Longrightarrow> p \<in> set refs \<Longrightarrow> run p \<inter> X = {}"
  shows "holds (s\<lparr>pl_arena := v\<rparr>) ops"
proof -
  obtain refs where h: "ok (pl_pending s)" "vok (pl_arena s)" "dq_ok blob_ref_storable (contents (pl_pending s)) refs"
    "list_all2 (\<lambda>r op. addresses (items (pl_arena s)) r (enc op)) refs ops" using assms(1) by (auto simp: holds_def)
  have "list_all2 (\<lambda>r op. addresses (items v) r (enc op)) refs ops"
    unfolding list_all2_conv_all_nth
  proof (intro conjI allI impI)
    show "length refs = length ops" using h(4) by (rule list_all2_lengthD)
    fix k assume k: "k < length refs"
    have q: "addresses (items (pl_arena s)) (refs ! k) (enc (ops ! k))" using h(4) k by (simp add: list_all2_conv_all_nth)
    have "run (refs ! k) \<inter> X = {}" using assms(5) [OF to_vec_law [OF h(1,3)]] k by simp
    then show "addresses (items v) (refs ! k) (enc (ops ! k))"
      using run_in [OF q] assms(4) by (intro addresses_cong [OF q assms(3)]) auto
  qed
  then show ?thesis using h assms(2) by (auto simp: holds_def)
qed

lemma log_run_law: "log_run M V ok vok items enc dec s A T \<Longrightarrow> \<exists>rest. A = T @ rest \<and> holds s rest"
proof (induction rule: log_run.induct)
  case (log_opened m v m')
  then show ?case using new_law [of m] by (auto simp: holds_def)
next
  case (log_appended s A T op s')
  then show ?case using append_law by auto
next
  case (log_taken s A T op s')
  then obtain rest where r: "A = T @ rest" "holds s rest" by blast
  then show ?case using next_law [OF r(2)] log_taken.hyps(2) by (cases rest) auto
next
  case (log_foreign_put s A T b r v)
  then obtain rest where r: "A = T @ rest" "holds s rest" by blast
  then have "vok (pl_arena s)" by (simp add: holds_def)
  note p = arena_put_law [OF this log_foreign_put.hyps(3,2)]
  have "holds (s\<lparr>pl_arena := v\<rparr>) rest" using p(1,2) by (intro foreign_law [OF r(2), of v "{}"]) (simp_all add: nth_append)
  then show ?case using r(1) by blast
next
  case (log_foreign_write s A T b refs old r v)
  then obtain rest where q: "A = T @ rest" "holds s rest" by blast
  then have "vok (pl_arena s)" by (simp add: holds_def)
  note p = arena_overwrite_law [OF this log_foreign_write.hyps(6,2,5)]
  have "holds (s\<lparr>pl_arena := v\<rparr>) rest" using p(1,3,4) log_foreign_write.hyps(3,4) by (intro foreign_law [OF q(2), of v "run old"]) auto
  then show ?case using q(1) by blast
next
  case (log_reopened s A T m')
  then obtain rest refs where r: "A = T @ rest" "holds s rest" "ok (pl_pending s)" "dq_ok blob_ref_storable (contents (pl_pending s)) refs"
    by (auto simp: holds_def)
  then show ?case using init_reopens [OF r(3,4)] log_reopened.hyps(2) by auto
qed

end

text \<open>64-bit numbers as operations.\<close>

definition number_bytes :: "u64 \<Rightarrow> bytes" where
  "number_bytes n = to_le 8 (unat n)"

definition bytes_number :: "bytes \<Rightarrow> u64 option" where
  "bytes_number b = (if length b = 8 then Some (word_of_nat (from_le b)) else None)"

interpretation paged_log: text_log page_memory page_ok "\<lambda>m. m" list_vec list_vec_ok "\<lambda>v. v" number_bytes bytes_number
proof unfold_locales
  fix n :: u64
  have "from_le (to_le 8 (unat n)) = unat n" using unsigned_less [of n] by (intro from_le_to_le_id) simp
  then show "bytes_number (number_bytes n) = Some n" by (simp add: bytes_number_def number_bytes_def)
qed

lemma number_stored: "\<exists>r v. arena_put list_vec [] (number_bytes n) = Some (r, v)"
proof -
  have "length (number_bytes n) = 8" by (simp add: number_bytes_def)
  then have "chunks_of (number_bytes n) = [pad_chunk (number_bytes n)]"
    by (subst chunks_of.simps) (auto simp: ARENA_CHUNK_BYTES_def chunks_of.simps [of "[]"])
  then show ?thesis by (simp add: arena_put_def list_vec_def)
qed

section \<open>Properties\<close>

text \<open>
  C4. The pending log is a FIFO queue. Over any memory, vector and encoding that meet their contracts, and
  through any history of appends, flush rounds, other writers of the shared arena and reopening after an
  upgrade, the operations taken are a prefix of those appended, in order, and the next round returns without
  a panic: exactly the oldest operation not yet taken, or nothing when all are taken.
\<close>

theorem log_is_fifo:
  assumes "stable_memory M ok contents" "stable_vec V vok items" "\<And>op. dec (enc op) = Some op"
    "log_run M V ok vok items enc dec s A T"
  shows "\<exists>rest s'. A = T @ rest \<and> next_pending M V dec s = Some (case rest of [] \<Rightarrow> None | op # _ \<Rightarrow> Some op, s')"
proof -
  have L: "text_log M ok contents V vok items enc dec"
    using stable_deque_intro [OF assms(1) blob_refs.storable_laws_axioms] assms(2,3) by (simp add: text_log_def text_log_axioms_def)
  obtain rest where r: "A = T @ rest" "text_log.holds ok contents vok items enc s rest" using text_log.log_run_law [OF L assms(4)] by blast
  then show ?thesis using text_log.next_law [OF L r(2)] by blast
qed

text \<open>C4 on a memory held as bytes, with 64-bit numbers as operations: what is appended to a fresh log comes back.\<close>

theorem log_is_fifo_witness:
  "\<exists>s s'. log_run page_memory list_vec page_ok list_vec_ok (\<lambda>v. v) number_bytes bytes_number s [5] []
    \<and> next_pending page_memory list_vec bytes_number s = Some (Some 5, s')"
proof -
  obtain r v where a: "arena_put list_vec [] (number_bytes 5) = Some (r, v)" using number_stored by blast
  obtain m m' where m: "deque_new page_memory blob_ref_storable [] = Some (m, Inr ())" "push_back page_memory blob_ref_storable m r = Some (m', Inr ())"
    using page_deque_filled by blast
  have "page_ok []" "list_vec_ok []" by (simp_all add: page_ok_def list_vec_ok_def)
  then have "log_run page_memory list_vec page_ok list_vec_ok (\<lambda>v. v) number_bytes bytes_number \<lparr>pl_pending = m, pl_arena = []\<rparr> [] []"
    using m(1) by (rule log_run.log_opened)
  from log_run.log_appended [OF this, of 5]
  have l: "log_run page_memory list_vec page_ok list_vec_ok (\<lambda>v. v) number_bytes bytes_number \<lparr>pl_pending = m', pl_arena = v\<rparr> [5] []"
    using a m(2) by (simp add: append_pending_def number_bytes_def del: to_le.simps)
  from log_is_fifo [OF page.stable_memory_axioms lv.stable_vec_axioms paged_log.dec_enc l] show ?thesis using l by auto
qed



end
