(* ===== verification/Paged_Map.thy ===== *)
theory Paged_Map
  imports Vec_Deque
begin

text \<open>
  The stable ordered map of \<open>ic-stable-paged-ordered-map\<close>: sorted pages of key and value pairs, a doubly
  linked chain of pages in key order, a directory with the least key of every page, and a free list of
  pages. Every operation takes the memory and returns it; a panic is \<^term>\<open>None\<close> and an error is a left
  value. The memory helpers of the crate are the ones of the deque, and are shared with it. This theory
  holds the model; \<open>Paged_Fields\<close> and the theories after it hold its correctness.
\<close>

section \<open>Layout\<close>

definition POM_MAGIC :: bytes where
  "POM_MAGIC = [0x50, 0x4F, 0x4D]"

definition POM_LAYOUT_VERSION :: u8 where
  "POM_LAYOUT_VERSION = 1"

definition POM_HEADER_SIZE :: nat where
  "POM_HEADER_SIZE = 64"

definition DIR_CAP :: nat where
  "DIR_CAP = 8192"

definition DIR_ENTRY_SIZE :: nat where
  "DIR_ENTRY_SIZE = 16"

definition DIR_OFFSET :: nat where
  "DIR_OFFSET = POM_HEADER_SIZE"

definition PAGES_START :: nat where
  "PAGES_START = DIR_OFFSET + DIR_CAP * DIR_ENTRY_SIZE"

definition PAGE_CAP :: nat where
  "PAGE_CAP = 64"

definition PAGE_HEADER_SIZE :: nat where
  "PAGE_HEADER_SIZE = 32"

definition PAGE_ENTRY_SIZE :: nat where
  "PAGE_ENTRY_SIZE = 16"

definition PAGE_STRIDE :: nat where
  "PAGE_STRIDE = PAGE_HEADER_SIZE + PAGE_CAP * PAGE_ENTRY_SIZE"

definition OFFSET_MAGIC :: nat where
  "OFFSET_MAGIC = 0"

definition OFFSET_VERSION :: nat where
  "OFFSET_VERSION = 3"

definition OFFSET_LEN :: nat where
  "OFFSET_LEN = 8"

definition OFFSET_PAGE_COUNT :: nat where
  "OFFSET_PAGE_COUNT = 16"

definition OFFSET_FREE_HEAD :: nat where
  "OFFSET_FREE_HEAD = 24"

definition OFFSET_FIRST_PAGE :: nat where
  "OFFSET_FIRST_PAGE = 32"

definition OFFSET_LAST_PAGE :: nat where
  "OFFSET_LAST_PAGE = 40"

definition OFFSET_DIR_LEN :: nat where
  "OFFSET_DIR_LEN = 48"

definition OFFSET_DIR_CAP :: nat where
  "OFFSET_DIR_CAP = 56"

definition PAGE_OFFSET_FLAGS :: nat where
  "PAGE_OFFSET_FLAGS = 0"

definition PAGE_OFFSET_LEN :: nat where
  "PAGE_OFFSET_LEN = 2"

definition PAGE_OFFSET_PREV :: nat where
  "PAGE_OFFSET_PREV = 8"

definition PAGE_OFFSET_NEXT :: nat where
  "PAGE_OFFSET_NEXT = 16"

definition PAGE_OFFSET_FREE_NEXT :: nat where
  "PAGE_OFFSET_FREE_NEXT = 24"

definition PAGE_OFFSET_ENTRIES :: nat where
  "PAGE_OFFSET_ENTRIES = PAGE_HEADER_SIZE"

definition PAGE_FLAG_FREE :: nat where
  "PAGE_FLAG_FREE = 0"

definition PAGE_FLAG_ACTIVE :: nat where
  "PAGE_FLAG_ACTIVE = 1"

lemmas pom_consts = POM_HEADER_SIZE_def DIR_CAP_def DIR_ENTRY_SIZE_def DIR_OFFSET_def PAGES_START_def PAGE_CAP_def
  PAGE_HEADER_SIZE_def PAGE_ENTRY_SIZE_def PAGE_STRIDE_def OFFSET_MAGIC_def OFFSET_VERSION_def OFFSET_LEN_def OFFSET_PAGE_COUNT_def
  OFFSET_FREE_HEAD_def OFFSET_FIRST_PAGE_def OFFSET_LAST_PAGE_def OFFSET_DIR_LEN_def OFFSET_DIR_CAP_def PAGE_OFFSET_FLAGS_def
  PAGE_OFFSET_LEN_def PAGE_OFFSET_PREV_def PAGE_OFFSET_NEXT_def PAGE_OFFSET_FREE_NEXT_def PAGE_OFFSET_ENTRIES_def
  PAGE_FLAG_FREE_def PAGE_FLAG_ACTIVE_def

datatype pom_init_error =
  PomBadMagic bytes
| PomIncompatibleVersion u8
| DirectoryCapacityMismatch nat nat
| PomInvalidLayout
| PomInitOutOfMemory

datatype pom_error = DirectoryFull | PomOutOfMemory | Corrupt

record dir_entry =
  de_min_key :: nat
  de_page_id :: nat

record page_header =
  pg_flags :: nat
  pg_len :: nat
  pg_prev :: nat
  pg_next :: nat
  pg_free_next :: nat

record pom_header =
  ph_magic :: bytes
  ph_version :: u8
  ph_len :: nat
  ph_page_count :: nat
  ph_free_head :: nat
  ph_first_page :: nat
  ph_last_page :: nat
  ph_dir_len :: nat
  ph_dir_cap :: nat

text \<open>Addition and subtraction on \<open>u16\<close>, which wrap in a release build.\<close>

definition add16 :: "nat \<Rightarrow> nat \<Rightarrow> nat" where
  "add16 a b = (a + b) mod 2 ^ 16"

definition sub16 :: "nat \<Rightarrow> nat \<Rightarrow> nat" where
  "sub16 a b = (a + 2 ^ 16 - b) mod 2 ^ 16"

section \<open>Addresses and fields\<close>

definition dir_entry_offset :: "nat \<Rightarrow> nat" where
  "dir_entry_offset i = add64 DIR_OFFSET (mul64 i DIR_ENTRY_SIZE)"

definition page_offset :: "nat \<Rightarrow> nat" where
  "page_offset page_id = add64 PAGES_START (mul64 (sub64 page_id 1) PAGE_STRIDE)"

definition page_entry_offset :: "nat \<Rightarrow> nat \<Rightarrow> nat" where
  "page_entry_offset page_id i = add64 (add64 (page_offset page_id) PAGE_OFFSET_ENTRIES) (mul64 i PAGE_ENTRY_SIZE)"

definition mem_read_u8 :: "'m memory_ops \<Rightarrow> 'm \<Rightarrow> nat \<Rightarrow> nat option" where
  "mem_read_u8 M m a = map_option from_le (mem_read M m a 1)"

definition mem_write_u8 :: "'m memory_ops \<Rightarrow> 'm \<Rightarrow> nat \<Rightarrow> nat \<Rightarrow> 'm option" where
  "mem_write_u8 M m a v = write_or_panic M m a (to_le 1 v)"

definition mem_read_u16 :: "'m memory_ops \<Rightarrow> 'm \<Rightarrow> nat \<Rightarrow> nat option" where
  "mem_read_u16 M m a = map_option from_le (mem_read M m a 2)"

definition mem_write_u16 :: "'m memory_ops \<Rightarrow> 'm \<Rightarrow> nat \<Rightarrow> nat \<Rightarrow> 'm option" where
  "mem_write_u16 M m a v = write_or_panic M m a (to_le 2 v)"

definition pom_write_header :: "'m memory_ops \<Rightarrow> 'm \<Rightarrow> pom_header \<Rightarrow> ('m \<times> (grow_failed + unit)) option" where
  "pom_write_header M m h =
     and_then (safe_write M m OFFSET_MAGIC (ph_magic h)) (\<lambda>m _.
     and_then (safe_write M m OFFSET_VERSION [ph_version h]) (\<lambda>m _.
     and_then (safe_write M m 4 (replicate 4 0)) (\<lambda>m _. do {
       m \<leftarrow> mem_write_u64 M m OFFSET_LEN (ph_len h);
       m \<leftarrow> mem_write_u64 M m OFFSET_PAGE_COUNT (ph_page_count h);
       m \<leftarrow> mem_write_u64 M m OFFSET_FREE_HEAD (ph_free_head h);
       m \<leftarrow> mem_write_u64 M m OFFSET_FIRST_PAGE (ph_first_page h);
       m \<leftarrow> mem_write_u64 M m OFFSET_LAST_PAGE (ph_last_page h);
       m \<leftarrow> mem_write_u64 M m OFFSET_DIR_LEN (ph_dir_len h);
       m \<leftarrow> mem_write_u64 M m OFFSET_DIR_CAP (ph_dir_cap h);
       Some (m, Inr ()) })))"

definition pom_read_header :: "'m memory_ops \<Rightarrow> 'm \<Rightarrow> pom_header option" where
  "pom_read_header M m = do {
     magic \<leftarrow> mem_read M m OFFSET_MAGIC 3;
     version \<leftarrow> mem_read M m OFFSET_VERSION 1;
     version \<leftarrow> index version 0;
     len \<leftarrow> mem_read_u64 M m OFFSET_LEN;
     page_count \<leftarrow> mem_read_u64 M m OFFSET_PAGE_COUNT;
     free_head \<leftarrow> mem_read_u64 M m OFFSET_FREE_HEAD;
     first_page \<leftarrow> mem_read_u64 M m OFFSET_FIRST_PAGE;
     last_page \<leftarrow> mem_read_u64 M m OFFSET_LAST_PAGE;
     dir_len \<leftarrow> mem_read_u64 M m OFFSET_DIR_LEN;
     dir_cap \<leftarrow> mem_read_u64 M m OFFSET_DIR_CAP;
     Some \<lparr>ph_magic = magic, ph_version = version, ph_len = len, ph_page_count = page_count, ph_free_head = free_head,
       ph_first_page = first_page, ph_last_page = last_page, ph_dir_len = dir_len, ph_dir_cap = dir_cap\<rparr> }"

definition validate_header :: "'m memory_ops \<Rightarrow> 'm \<Rightarrow> pom_header \<Rightarrow> pom_init_error + unit" where
  "validate_header M m h =
     (if ph_magic h \<noteq> POM_MAGIC then Inl (PomBadMagic (ph_magic h))
      else if ph_version h \<noteq> POM_LAYOUT_VERSION then Inl (PomIncompatibleVersion (ph_version h))
      else if ph_dir_cap h \<noteq> DIR_CAP then Inl (DirectoryCapacityMismatch DIR_CAP (ph_dir_cap h))
      else if ph_dir_len h > ph_dir_cap h \<or> ph_dir_len h > ph_page_count h \<or> ph_len h > sat_mul64 (ph_page_count h) PAGE_CAP
        then Inl PomInvalidLayout
      else if ph_page_count h = 0 \<and> (ph_len h \<noteq> 0 \<or> ph_dir_len h \<noteq> 0 \<or> ph_first_page h \<noteq> 0 \<or> ph_last_page h \<noteq> 0)
        then Inl PomInvalidLayout
      else if ph_page_count h \<noteq> 0 \<and> (ph_first_page h = 0 \<or> ph_last_page h = 0 \<or> ph_first_page h > ph_page_count h
          \<or> ph_last_page h > ph_page_count h)
        then Inl PomInvalidLayout
      else if ph_page_count h \<noteq> 0 \<and> sat_mul64 (mem_size M m) WASM_PAGE_SIZE
          < sat_add64 PAGES_START (sat_mul64 (ph_page_count h) PAGE_STRIDE)
        then Inl PomInvalidLayout
      else if ph_free_head h > ph_page_count h then Inl PomInvalidLayout
      else Inr ())"

definition read_dir_len :: "'m memory_ops \<Rightarrow> 'm \<Rightarrow> nat option" where
  "read_dir_len M m = mem_read_u64 M m OFFSET_DIR_LEN"

definition write_dir_len :: "'m memory_ops \<Rightarrow> 'm \<Rightarrow> nat \<Rightarrow> 'm option" where
  "write_dir_len M m v = mem_write_u64 M m OFFSET_DIR_LEN v"

definition read_dir_cap :: "'m memory_ops \<Rightarrow> 'm \<Rightarrow> nat option" where
  "read_dir_cap M m = mem_read_u64 M m OFFSET_DIR_CAP"

definition read_page_count :: "'m memory_ops \<Rightarrow> 'm \<Rightarrow> nat option" where
  "read_page_count M m = mem_read_u64 M m OFFSET_PAGE_COUNT"

definition write_page_count :: "'m memory_ops \<Rightarrow> 'm \<Rightarrow> nat \<Rightarrow> 'm option" where
  "write_page_count M m v = mem_write_u64 M m OFFSET_PAGE_COUNT v"

definition read_free_head :: "'m memory_ops \<Rightarrow> 'm \<Rightarrow> nat option" where
  "read_free_head M m = mem_read_u64 M m OFFSET_FREE_HEAD"

definition write_free_head :: "'m memory_ops \<Rightarrow> 'm \<Rightarrow> nat \<Rightarrow> 'm option" where
  "write_free_head M m v = mem_write_u64 M m OFFSET_FREE_HEAD v"

definition read_first_page :: "'m memory_ops \<Rightarrow> 'm \<Rightarrow> nat option" where
  "read_first_page M m = mem_read_u64 M m OFFSET_FIRST_PAGE"

definition write_first_page :: "'m memory_ops \<Rightarrow> 'm \<Rightarrow> nat \<Rightarrow> 'm option" where
  "write_first_page M m v = mem_write_u64 M m OFFSET_FIRST_PAGE v"

definition read_last_page :: "'m memory_ops \<Rightarrow> 'm \<Rightarrow> nat option" where
  "read_last_page M m = mem_read_u64 M m OFFSET_LAST_PAGE"

definition write_last_page :: "'m memory_ops \<Rightarrow> 'm \<Rightarrow> nat \<Rightarrow> 'm option" where
  "write_last_page M m v = mem_write_u64 M m OFFSET_LAST_PAGE v"

definition pom_len :: "'m memory_ops \<Rightarrow> 'm \<Rightarrow> nat option" where
  "pom_len M m = mem_read_u64 M m OFFSET_LEN"

definition pom_is_empty :: "'m memory_ops \<Rightarrow> 'm \<Rightarrow> bool option" where
  "pom_is_empty M m = map_option (\<lambda>n. n = 0) (pom_len M m)"

definition inc_len :: "'m memory_ops \<Rightarrow> 'm \<Rightarrow> int \<Rightarrow> 'm option" where
  "inc_len M m delta = do {
     len \<leftarrow> pom_len M m;
     mem_write_u64 M m OFFSET_LEN (if delta \<ge> 0 then add64 len (nat delta) else sub64 len (nat (- delta))) }"

definition read_page_entry :: "'m memory_ops \<Rightarrow> 'm \<Rightarrow> nat \<Rightarrow> nat \<Rightarrow> (nat \<times> nat) option" where
  "read_page_entry M m page i = do {
     let off = page_entry_offset page i;
     k \<leftarrow> mem_read_u64 M m off;
     v \<leftarrow> mem_read_u64 M m (add64 off 8);
     Some (k, v) }"

definition write_page_entry :: "'m memory_ops \<Rightarrow> 'm \<Rightarrow> nat \<Rightarrow> nat \<Rightarrow> nat \<Rightarrow> nat \<Rightarrow> 'm option" where
  "write_page_entry M m page i key val = do {
     let off = page_entry_offset page i;
     m \<leftarrow> mem_write_u64 M m off key;
     mem_write_u64 M m (add64 off 8) val }"

definition read_dir_entry :: "'m memory_ops \<Rightarrow> 'm \<Rightarrow> nat \<Rightarrow> dir_entry option" where
  "read_dir_entry M m i = do {
     let off = dir_entry_offset i;
     k \<leftarrow> mem_read_u64 M m off;
     p \<leftarrow> mem_read_u64 M m (add64 off 8);
     Some \<lparr>de_min_key = k, de_page_id = p\<rparr> }"

definition pom_write_dir_entry :: "'m memory_ops \<Rightarrow> 'm \<Rightarrow> nat \<Rightarrow> dir_entry \<Rightarrow> 'm option" where
  "pom_write_dir_entry M m i e = do {
     let off = dir_entry_offset i;
     m \<leftarrow> mem_write_u64 M m off (de_min_key e);
     mem_write_u64 M m (add64 off 8) (de_page_id e) }"

definition read_page_header :: "'m memory_ops \<Rightarrow> 'm \<Rightarrow> nat \<Rightarrow> page_header option" where
  "read_page_header M m page = do {
     let off = page_offset page;
     flags \<leftarrow> mem_read_u8 M m (add64 off PAGE_OFFSET_FLAGS);
     len \<leftarrow> mem_read_u16 M m (add64 off PAGE_OFFSET_LEN);
     prev \<leftarrow> mem_read_u64 M m (add64 off PAGE_OFFSET_PREV);
     nxt \<leftarrow> mem_read_u64 M m (add64 off PAGE_OFFSET_NEXT);
     free_next \<leftarrow> mem_read_u64 M m (add64 off PAGE_OFFSET_FREE_NEXT);
     Some \<lparr>pg_flags = flags, pg_len = len, pg_prev = prev, pg_next = nxt, pg_free_next = free_next\<rparr> }"

definition write_page_header :: "'m memory_ops \<Rightarrow> 'm \<Rightarrow> nat \<Rightarrow> page_header \<Rightarrow> 'm option" where
  "write_page_header M m page h = do {
     let off = page_offset page;
     m \<leftarrow> mem_write_u8 M m (add64 off PAGE_OFFSET_FLAGS) (pg_flags h);
     m \<leftarrow> mem_write_u16 M m (add64 off PAGE_OFFSET_LEN) (pg_len h);
     m \<leftarrow> mem_write_u64 M m (add64 off PAGE_OFFSET_PREV) (pg_prev h);
     m \<leftarrow> mem_write_u64 M m (add64 off PAGE_OFFSET_NEXT) (pg_next h);
     mem_write_u64 M m (add64 off PAGE_OFFSET_FREE_NEXT) (pg_free_next h) }"

definition write_page_fields :: "'m memory_ops \<Rightarrow> 'm \<Rightarrow> nat \<Rightarrow> (page_header \<Rightarrow> page_header) \<Rightarrow> 'm option" where
  "write_page_fields M m page f = do { h \<leftarrow> read_page_header M m page; write_page_header M m page (f h) }"

section \<open>Searching\<close>

text \<open>The binary search of \<open>find_page_for_key\<close>: the number of pages whose least key is at most \<open>key\<close>.\<close>

function dir_search :: "'m memory_ops \<Rightarrow> 'm \<Rightarrow> nat \<Rightarrow> nat \<Rightarrow> nat \<Rightarrow> nat option" where
  "dir_search M m key lo hi =
     (if lo < hi then do {
        let mid = (lo + hi) div 2;
        e \<leftarrow> read_dir_entry M m mid;
        if de_min_key e \<le> key then dir_search M m key (mid + 1) hi else dir_search M m key lo mid }
      else Some lo)"
  by pat_completeness auto

termination
  by (relation "measure (\<lambda>(M, m, key, lo, hi). hi - lo)") auto

declare dir_search.simps [simp del]

definition find_page_for_key :: "'m memory_ops \<Rightarrow> 'm \<Rightarrow> nat \<Rightarrow> nat option option" where
  "find_page_for_key M m key = do {
     len \<leftarrow> read_dir_len M m;
     if len = 0 then Some None
     else do {
       lo \<leftarrow> dir_search M m key 0 len;
       if lo = 0 then Some None
       else do { e \<leftarrow> read_dir_entry M m (lo - 1); Some (Some (de_page_id e)) } } }"

text \<open>The first of \<open>n\<close> directory entries, from \<open>i\<close> on, that points to the page.\<close>

fun find_dir :: "'m memory_ops \<Rightarrow> 'm \<Rightarrow> nat \<Rightarrow> nat \<Rightarrow> nat \<Rightarrow> nat option option" where
  "find_dir M m page i 0 = Some None"
| "find_dir M m page i (Suc n) = do {
     e \<leftarrow> read_dir_entry M m i;
     if de_page_id e = page then Some (Some i) else find_dir M m page (Suc i) n }"

definition dir_index_for_page :: "'m memory_ops \<Rightarrow> 'm \<Rightarrow> nat \<Rightarrow> nat option option" where
  "dir_index_for_page M m page = do { len \<leftarrow> read_dir_len M m; find_dir M m page 0 len }"

text \<open>The binary searches in a page; \<open>Inr\<close> is the position of the key, \<open>Inl\<close> where it belongs.\<close>

function page_search_loop :: "'m memory_ops \<Rightarrow> 'm \<Rightarrow> nat \<Rightarrow> nat \<Rightarrow> nat \<Rightarrow> nat \<Rightarrow> (nat + nat) option" where
  "page_search_loop M m page key lo hi =
     (if lo < hi then do {
        let mid = lo + (hi - lo) div 2;
        (k, _) \<leftarrow> read_page_entry M m page mid;
        if k < key then page_search_loop M m page key (mid + 1) hi
        else if k > key then page_search_loop M m page key lo mid
        else Some (Inr mid) }
      else Some (Inl lo))"
  by pat_completeness auto

termination
  by (relation "measure (\<lambda>(M, m, page, key, lo, hi). hi - lo)") auto

declare page_search_loop.simps [simp del]

definition page_search :: "'m memory_ops \<Rightarrow> 'm \<Rightarrow> nat \<Rightarrow> nat \<Rightarrow> (nat + nat) option" where
  "page_search M m page key = do { h \<leftarrow> read_page_header M m page; page_search_loop M m page key 0 (pg_len h) }"

definition page_lower_bound :: "'m memory_ops \<Rightarrow> 'm \<Rightarrow> nat \<Rightarrow> nat \<Rightarrow> nat option" where
  "page_lower_bound M m page key = do { r \<leftarrow> page_search M m page key; Some (case r of Inl pos \<Rightarrow> pos | Inr pos \<Rightarrow> pos) }"

function page_upper_loop :: "'m memory_ops \<Rightarrow> 'm \<Rightarrow> nat \<Rightarrow> nat \<Rightarrow> nat \<Rightarrow> nat \<Rightarrow> nat option" where
  "page_upper_loop M m page key lo hi =
     (if lo < hi then do {
        let mid = lo + (hi - lo) div 2;
        (k, _) \<leftarrow> read_page_entry M m page mid;
        if k \<le> key then page_upper_loop M m page key (mid + 1) hi else page_upper_loop M m page key lo mid }
      else Some lo)"
  by pat_completeness auto

termination
  by (relation "measure (\<lambda>(M, m, page, key, lo, hi). hi - lo)") auto

declare page_upper_loop.simps [simp del]

definition page_upper_bound :: "'m memory_ops \<Rightarrow> 'm \<Rightarrow> nat \<Rightarrow> nat \<Rightarrow> nat option" where
  "page_upper_bound M m page key = do { h \<leftarrow> read_page_header M m page; page_upper_loop M m page key 0 (pg_len h) }"

section \<open>Directory\<close>

text \<open>Moves \<open>n\<close> entries from \<open>pos\<close> on up by one, the last one first.\<close>

fun shift_dir_up :: "'m memory_ops \<Rightarrow> 'm \<Rightarrow> nat \<Rightarrow> nat \<Rightarrow> 'm option" where
  "shift_dir_up M m pos 0 = Some m"
| "shift_dir_up M m pos (Suc n) = do {
     e \<leftarrow> read_dir_entry M m (pos + n);
     m \<leftarrow> pom_write_dir_entry M m (add64 (pos + n) 1) e;
     shift_dir_up M m pos n }"

definition insert_dir_entry :: "'m memory_ops \<Rightarrow> 'm \<Rightarrow> nat \<Rightarrow> dir_entry \<Rightarrow> ('m \<times> (pom_error + unit)) option" where
  "insert_dir_entry M m pos entry = do {
     len \<leftarrow> read_dir_len M m;
     if len \<ge> DIR_CAP then Some (m, Inl DirectoryFull)
     else do {
       m \<leftarrow> shift_dir_up M m pos (len - pos);
       m \<leftarrow> pom_write_dir_entry M m pos entry;
       m \<leftarrow> write_dir_len M m (add64 len 1);
       Some (m, Inr ()) } }"

text \<open>Moves \<open>n\<close> entries from \<open>i\<close> on down by one, the first one first.\<close>

fun shift_dir_down :: "'m memory_ops \<Rightarrow> 'm \<Rightarrow> nat \<Rightarrow> nat \<Rightarrow> 'm option" where
  "shift_dir_down M m i 0 = Some m"
| "shift_dir_down M m i (Suc n) = do {
     e \<leftarrow> read_dir_entry M m i;
     m \<leftarrow> pom_write_dir_entry M m (sub64 i 1) e;
     shift_dir_down M m (Suc i) n }"

definition remove_dir_entry :: "'m memory_ops \<Rightarrow> 'm \<Rightarrow> nat \<Rightarrow> ('m \<times> (pom_error + unit)) option" where
  "remove_dir_entry M m pos = do {
     len \<leftarrow> read_dir_len M m;
     if pos \<ge> len then Some (m, Inl Corrupt)
     else do {
       m \<leftarrow> shift_dir_down M m (pos + 1) (len - (pos + 1));
       m \<leftarrow> pom_write_dir_entry M m (len - 1) \<lparr>de_min_key = 0, de_page_id = 0\<rparr>;
       m \<leftarrow> write_dir_len M m (len - 1);
       Some (m, Inr ()) } }"

definition update_dir_min :: "'m memory_ops \<Rightarrow> 'm \<Rightarrow> nat \<Rightarrow> nat \<Rightarrow> 'm option" where
  "update_dir_min M m pos min_key = do {
     entry \<leftarrow> read_dir_entry M m pos;
     pom_write_dir_entry M m pos (entry\<lparr>de_min_key := min_key\<rparr>) }"

section \<open>Pages\<close>

definition alloc_page :: "'m memory_ops \<Rightarrow> 'm \<Rightarrow> ('m \<times> (pom_error + nat)) option" where
  "alloc_page M m = do {
     free \<leftarrow> read_free_head M m;
     if free \<noteq> 0 then do {
       h \<leftarrow> read_page_header M m free;
       m \<leftarrow> write_free_head M m (pg_free_next h);
       Some (m, Inr free) }
     else do {
       count \<leftarrow> read_page_count M m;
       case checked_add64 count 1 of
         None \<Rightarrow> Some (m, Inl PomOutOfMemory)
       | Some page \<Rightarrow>
           (case checked_add64 (page_offset page) PAGE_STRIDE of
             None \<Rightarrow> Some (m, Inl PomOutOfMemory)
           | Some stop \<Rightarrow> do {
               (m, r) \<leftarrow> safe_write M m (sub64 stop 1) [0];
               case r of
                 Inl _ \<Rightarrow> Some (m, Inl PomOutOfMemory)
               | Inr _ \<Rightarrow> do { m \<leftarrow> write_page_count M m page; Some (m, Inr page) } }) } }"

definition free_page :: "'m memory_ops \<Rightarrow> 'm \<Rightarrow> nat \<Rightarrow> 'm option" where
  "free_page M m page = do {
     head \<leftarrow> read_free_head M m;
     m \<leftarrow> write_page_header M m page \<lparr>pg_flags = PAGE_FLAG_FREE, pg_len = 0, pg_prev = 0, pg_next = 0, pg_free_next = head\<rparr>;
     write_free_head M m page }"

text \<open>Moves \<open>n\<close> entries of a page from \<open>pos\<close> on up by one, the last one first.\<close>

fun shift_up :: "'m memory_ops \<Rightarrow> 'm \<Rightarrow> nat \<Rightarrow> nat \<Rightarrow> nat \<Rightarrow> 'm option" where
  "shift_up M m page pos 0 = Some m"
| "shift_up M m page pos (Suc n) = do {
     (k, v) \<leftarrow> read_page_entry M m page (pos + n);
     m \<leftarrow> write_page_entry M m page (add16 (pos + n) 1) k v;
     shift_up M m page pos n }"

definition insert_into_page :: "'m memory_ops \<Rightarrow> 'm \<Rightarrow> nat \<Rightarrow> nat \<Rightarrow> nat \<Rightarrow> nat \<Rightarrow> ('m \<times> (pom_error + unit)) option" where
  "insert_into_page M m page pos key val = do {
     h \<leftarrow> read_page_header M m page;
     m \<leftarrow> shift_up M m page pos (pg_len h - pos);
     m \<leftarrow> write_page_entry M m page pos key val;
     m \<leftarrow> write_page_header M m page (h\<lparr>pg_len := add16 (pg_len h) 1\<rparr>);
     if pos = 0 then do {
       d \<leftarrow> dir_index_for_page M m page;
       case d of
         None \<Rightarrow> Some (m, Inl Corrupt)
       | Some dir_pos \<Rightarrow> do { m \<leftarrow> update_dir_min M m dir_pos key; Some (m, Inr ()) } }
     else Some (m, Inr ()) }"

definition unlink_and_free_page :: "'m memory_ops \<Rightarrow> 'm \<Rightarrow> nat \<Rightarrow> page_header \<Rightarrow> ('m \<times> (pom_error + unit)) option" where
  "unlink_and_free_page M m page h = do {
     m \<leftarrow> (if pg_prev h \<noteq> 0 then write_page_fields M m (pg_prev h) (\<lambda>g. g\<lparr>pg_next := pg_next h\<rparr>)
       else write_first_page M m (pg_next h));
     m \<leftarrow> (if pg_next h \<noteq> 0 then write_page_fields M m (pg_next h) (\<lambda>g. g\<lparr>pg_prev := pg_prev h\<rparr>)
       else write_last_page M m (pg_prev h));
     d \<leftarrow> dir_index_for_page M m page;
     case d of
       None \<Rightarrow> Some (m, Inl Corrupt)
     | Some dir_pos \<Rightarrow> and_then (remove_dir_entry M m dir_pos) (\<lambda>m _. do {
         m \<leftarrow> free_page M m page;
         Some (m, Inr ()) }) }"

text \<open>Moves \<open>n\<close> entries of a page from \<open>i\<close> on down by one, the first one first.\<close>

fun shift_down :: "'m memory_ops \<Rightarrow> 'm \<Rightarrow> nat \<Rightarrow> nat \<Rightarrow> nat \<Rightarrow> 'm option" where
  "shift_down M m page i 0 = Some m"
| "shift_down M m page i (Suc n) = do {
     (k, v) \<leftarrow> read_page_entry M m page i;
     m \<leftarrow> write_page_entry M m page (sub16 i 1) k v;
     shift_down M m page (Suc i) n }"

definition remove_from_page :: "'m memory_ops \<Rightarrow> 'm \<Rightarrow> nat \<Rightarrow> nat \<Rightarrow> ('m \<times> (pom_error + unit)) option" where
  "remove_from_page M m page pos = do {
     h \<leftarrow> read_page_header M m page;
     m \<leftarrow> shift_down M m page (add16 pos 1) (pg_len h - add16 pos 1);
     let h = h\<lparr>pg_len := sub16 (pg_len h) 1\<rparr>;
     if pg_len h = 0 then unlink_and_free_page M m page h
     else do {
       m \<leftarrow> write_page_header M m page h;
       if pos = 0 then do {
         d \<leftarrow> dir_index_for_page M m page;
         case d of
           None \<Rightarrow> Some (m, Inl Corrupt)
         | Some dir_pos \<Rightarrow> do {
             (k, _) \<leftarrow> read_page_entry M m page 0;
             m \<leftarrow> update_dir_min M m dir_pos k;
             Some (m, Inr ()) } }
       else Some (m, Inr ()) } }"

text \<open>
  Splitting a full page. The entries from \<open>i\<close> on are read, with the new pair put before the first greater
  key; the lower half stays, the upper half moves to a new page behind it.
\<close>

fun collect_split :: "'m memory_ops \<Rightarrow> 'm \<Rightarrow> nat \<Rightarrow> nat \<Rightarrow> nat \<Rightarrow> nat \<Rightarrow> nat \<Rightarrow> bool \<Rightarrow> (nat \<times> nat) list \<Rightarrow> (nat \<times> nat) list option" where
  "collect_split M m page key val i 0 inserted entries = Some (if inserted then entries else entries @ [(key, val)])"
| "collect_split M m page key val i (Suc n) inserted entries = do {
     e \<leftarrow> read_page_entry M m page i;
     if \<not> inserted \<and> key < fst e then collect_split M m page key val (Suc i) n True (entries @ [(key, val), e])
     else collect_split M m page key val (Suc i) n inserted (entries @ [e]) }"

fun write_entries :: "'m memory_ops \<Rightarrow> 'm \<Rightarrow> nat \<Rightarrow> nat \<Rightarrow> (nat \<times> nat) list \<Rightarrow> 'm option" where
  "write_entries M m page i [] = Some m"
| "write_entries M m page i ((k, v) # es) = do { m \<leftarrow> write_page_entry M m page (i mod 2 ^ 16) k v; write_entries M m page (Suc i) es }"

definition link_right :: "'m memory_ops \<Rightarrow> 'm \<Rightarrow> nat \<Rightarrow> nat \<Rightarrow> page_header \<Rightarrow> (nat \<times> nat) list \<Rightarrow> (nat \<times> nat) list \<Rightarrow> 'm option" where
  "link_right M m page right h left_entries right_entries = do {
     m \<leftarrow> write_page_header M m page (h\<lparr>pg_len := length left_entries mod 2 ^ 16\<rparr>);
     m \<leftarrow> write_entries M m page 0 left_entries;
     m \<leftarrow> write_page_header M m right \<lparr>pg_flags = PAGE_FLAG_ACTIVE, pg_len = length right_entries mod 2 ^ 16, pg_prev = page,
       pg_next = pg_next h, pg_free_next = 0\<rparr>;
     m \<leftarrow> write_entries M m right 0 right_entries;
     m \<leftarrow> (if pg_next h \<noteq> 0 then write_page_fields M m (pg_next h) (\<lambda>g. g\<lparr>pg_prev := right\<rparr>) else write_last_page M m right);
     write_page_fields M m page (\<lambda>g. g\<lparr>pg_next := right\<rparr>) }"

definition split_page_and_insert :: "'m memory_ops \<Rightarrow> 'm \<Rightarrow> nat \<Rightarrow> nat \<Rightarrow> nat \<Rightarrow> ('m \<times> (pom_error + nat option)) option" where
  "split_page_and_insert M m page key val = do {
     dir_len \<leftarrow> read_dir_len M m;
     if dir_len \<ge> DIR_CAP then Some (m, Inl DirectoryFull)
     else do {
       d \<leftarrow> find_dir M m page 0 dir_len;
       case d of
         None \<Rightarrow> Some (m, Inl Corrupt)
       | Some dir_pos \<Rightarrow> do {
           h \<leftarrow> read_page_header M m page;
           entries \<leftarrow> collect_split M m page key val 0 (pg_len h) False [];
           let split = length entries div 2;
           let right_entries = drop split entries;
           let left_entries = take split entries;
           and_then (alloc_page M m) (\<lambda>m right. do {
             m \<leftarrow> link_right M m page right h left_entries right_entries;
             l0 \<leftarrow> index left_entries 0;
             m \<leftarrow> update_dir_min M m dir_pos (fst l0);
             r0 \<leftarrow> index right_entries 0;
             and_then (insert_dir_entry M m (add64 dir_pos 1) \<lparr>de_min_key = fst r0, de_page_id = right\<rparr>) (\<lambda>m _. do {
               m \<leftarrow> inc_len M m 1;
               Some (m, Inr None) }) }) } } }"

section \<open>The map\<close>

definition pom_new :: "'m memory_ops \<Rightarrow> 'm \<Rightarrow> ('m \<times> (grow_failed + unit)) option" where
  "pom_new M m =
     and_then (pom_write_header M m \<lparr>ph_magic = POM_MAGIC, ph_version = POM_LAYOUT_VERSION, ph_len = 0, ph_page_count = 0,
       ph_free_head = 0, ph_first_page = 0, ph_last_page = 0, ph_dir_len = 0, ph_dir_cap = DIR_CAP\<rparr>) (\<lambda>m _.
     and_then (safe_write M m (PAGES_START - 1) [0]) (\<lambda>m _. Some (m, Inr ())))"

definition pom_init :: "'m memory_ops \<Rightarrow> 'm \<Rightarrow> ('m \<times> (pom_init_error + unit)) option" where
  "pom_init M m =
     (if mem_size M m = 0 then do {
        (m, r) \<leftarrow> pom_new M m;
        Some (m, case r of Inl _ \<Rightarrow> Inl PomInitOutOfMemory | Inr _ \<Rightarrow> Inr ()) }
      else do { h \<leftarrow> pom_read_header M m; Some (m, validate_header M m h) })"

definition pom_get :: "'m memory_ops \<Rightarrow> 'm \<Rightarrow> nat \<Rightarrow> nat option option" where
  "pom_get M m key = do {
     p \<leftarrow> find_page_for_key M m key;
     case p of
       None \<Rightarrow> Some None
     | Some page_id \<Rightarrow> do {
         r \<leftarrow> page_search M m page_id key;
         case r of
           Inl _ \<Rightarrow> Some None
         | Inr pos \<Rightarrow> do { e \<leftarrow> read_page_entry M m page_id pos; Some (Some (snd e)) } } }"

text \<open>The first entry of an empty map.\<close>

definition insert_first :: "'m memory_ops \<Rightarrow> 'm \<Rightarrow> nat \<Rightarrow> nat \<Rightarrow> ('m \<times> (pom_error + nat option)) option" where
  "insert_first M m key val =
     and_then (alloc_page M m) (\<lambda>m page. do {
       m \<leftarrow> write_page_header M m page \<lparr>pg_flags = PAGE_FLAG_ACTIVE, pg_len = 1, pg_prev = 0, pg_next = 0, pg_free_next = 0\<rparr>;
       m \<leftarrow> write_page_entry M m page 0 key val;
       and_then (insert_dir_entry M m 0 \<lparr>de_min_key = key, de_page_id = page\<rparr>) (\<lambda>m _. do {
         m \<leftarrow> write_first_page M m page;
         m \<leftarrow> write_last_page M m page;
         m \<leftarrow> inc_len M m 1;
         Some (m, Inr None) }) })"

definition pom_insert :: "'m memory_ops \<Rightarrow> 'm \<Rightarrow> nat \<Rightarrow> nat \<Rightarrow> ('m \<times> (pom_error + nat option)) option" where
  "pom_insert M m key val = do {
     dl \<leftarrow> read_dir_len M m;
     if dl = 0 then insert_first M m key val
     else do {
       p \<leftarrow> find_page_for_key M m key;
       page \<leftarrow> (case p of Some page \<Rightarrow> Some page | None \<Rightarrow> read_first_page M m);
       r \<leftarrow> page_search M m page key;
       case r of
         Inr pos \<Rightarrow> do {
           e \<leftarrow> read_page_entry M m page pos;
           m \<leftarrow> write_page_entry M m page pos key val;
           Some (m, Inr (Some (snd e))) }
       | Inl pos \<Rightarrow> do {
           h \<leftarrow> read_page_header M m page;
           if pg_len h \<ge> PAGE_CAP then split_page_and_insert M m page key val
           else and_then (insert_into_page M m page pos key val) (\<lambda>m _. do {
             m \<leftarrow> inc_len M m 1;
             Some (m, Inr None) }) } } }"

definition reserve_for_inserts :: "'m memory_ops \<Rightarrow> 'm \<Rightarrow> nat \<Rightarrow> ('m \<times> (grow_failed + unit)) option" where
  "reserve_for_inserts M m additional_entries = do {
     h \<leftarrow> pom_read_header M m;
     let target_pages = sat_add64 (ph_page_count h) additional_entries;
     let need = sat_add64 PAGES_START (sat_mul64 target_pages PAGE_STRIDE);
     if need = 0 then Some (m, Inr ()) else safe_write M m (need - 1) [0] }"

definition pom_remove :: "'m memory_ops \<Rightarrow> 'm \<Rightarrow> nat \<Rightarrow> ('m \<times> (pom_error + nat option)) option" where
  "pom_remove M m key = do {
     p \<leftarrow> find_page_for_key M m key;
     case p of
       None \<Rightarrow> Some (m, Inr None)
     | Some page \<Rightarrow> do {
         r \<leftarrow> page_search M m page key;
         case r of
           Inl _ \<Rightarrow> Some (m, Inr None)
         | Inr pos \<Rightarrow> do {
             e \<leftarrow> read_page_entry M m page pos;
             and_then (remove_from_page M m page pos) (\<lambda>m _. do {
               m \<leftarrow> inc_len M m (- 1);
               emp \<leftarrow> pom_is_empty M m;
               m \<leftarrow> (if emp then do { m \<leftarrow> write_page_count M m 0; write_free_head M m 0 } else Some m);
               Some (m, Inr (Some (snd e))) }) } } }"

text \<open>The last entry of the page before, if there is one.\<close>

definition last_of_prev :: "'m memory_ops \<Rightarrow> 'm \<Rightarrow> nat \<Rightarrow> (nat \<times> nat) option option" where
  "last_of_prev M m page = do {
     h \<leftarrow> read_page_header M m page;
     if pg_prev h = 0 then Some None
     else do {
       g \<leftarrow> read_page_header M m (pg_prev h);
       e \<leftarrow> read_page_entry M m (pg_prev h) (sub16 (pg_len g) 1);
       Some (Some e) } }"

definition predecessor :: "'m memory_ops \<Rightarrow> 'm \<Rightarrow> nat \<Rightarrow> (nat \<times> nat) option option" where
  "predecessor M m key = do {
     p \<leftarrow> find_page_for_key M m key;
     case p of
       None \<Rightarrow> Some None
     | Some page \<Rightarrow> do {
         pos \<leftarrow> page_lower_bound M m page key;
         if pos = 0 then last_of_prev M m page
         else do { e \<leftarrow> read_page_entry M m page (sub16 pos 1); Some (Some e) } } }"

definition predecessor_or_equal :: "'m memory_ops \<Rightarrow> 'm \<Rightarrow> nat \<Rightarrow> (nat \<times> nat) option option" where
  "predecessor_or_equal M m key = do {
     p \<leftarrow> find_page_for_key M m key;
     case p of
       None \<Rightarrow> Some None
     | Some page \<Rightarrow> do {
         pos \<leftarrow> page_lower_bound M m page key;
         h \<leftarrow> read_page_header M m page;
         found \<leftarrow> (if pos < pg_len h then do {
             e \<leftarrow> read_page_entry M m page pos;
             Some (if fst e = key then Some e else None) }
           else Some None);
         case found of
           Some e \<Rightarrow> Some (Some e)
         | None \<Rightarrow> if pos = 0 then last_of_prev M m page
             else do { e \<leftarrow> read_page_entry M m page (sub16 pos 1); Some (Some e) } } }"

definition successor :: "'m memory_ops \<Rightarrow> 'm \<Rightarrow> nat \<Rightarrow> (nat \<times> nat) option option" where
  "successor M m key = do {
     p \<leftarrow> find_page_for_key M m key;
     page \<leftarrow> (case p of Some page \<Rightarrow> Some page | None \<Rightarrow> read_first_page M m);
     if page = 0 then Some None
     else do {
       h \<leftarrow> read_page_header M m page;
       pos \<leftarrow> page_upper_bound M m page key;
       if pos < pg_len h then map_option Some (read_page_entry M m page pos)
       else if pg_next h = 0 then Some None
       else map_option Some (read_page_entry M m (pg_next h) 0) } }"

definition pom_first :: "'m memory_ops \<Rightarrow> 'm \<Rightarrow> (nat \<times> nat) option option" where
  "pom_first M m = do {
     page \<leftarrow> read_first_page M m;
     if page = 0 then Some None else map_option Some (read_page_entry M m page 0) }"

definition pom_last :: "'m memory_ops \<Rightarrow> 'm \<Rightarrow> (nat \<times> nat) option option" where
  "pom_last M m = do {
     page \<leftarrow> read_last_page M m;
     if page = 0 then Some None
     else do { h \<leftarrow> read_page_header M m page; map_option Some (read_page_entry M m page (sub16 (pg_len h) 1)) } }"

section \<open>Iteration\<close>

record pom_iter =
  pi_page :: nat
  pi_pos :: nat

definition pom_iter_new :: "'m memory_ops \<Rightarrow> 'm \<Rightarrow> pom_iter option" where
  "pom_iter_new M m = do { page \<leftarrow> read_first_page M m; Some \<lparr>pi_page = page, pi_pos = 0\<rparr> }"

partial_function (option) pom_next :: "'m memory_ops \<Rightarrow> 'm \<Rightarrow> pom_iter \<Rightarrow> ((nat \<times> nat) option \<times> pom_iter) option" where
  "pom_next M m it =
     (if pi_page it \<noteq> 0 then do {
        h \<leftarrow> read_page_header M m (pi_page it);
        if pi_pos it < pg_len h then do {
          e \<leftarrow> read_page_entry M m (pi_page it) (pi_pos it);
          Some (Some e, it\<lparr>pi_pos := add16 (pi_pos it) 1\<rparr>) }
        else pom_next M m \<lparr>pi_page = pg_next h, pi_pos = 0\<rparr> }
      else Some (None, it))"

partial_function (option) pom_collect :: "'m memory_ops \<Rightarrow> 'm \<Rightarrow> pom_iter \<Rightarrow> (nat \<times> nat) list option" where
  "pom_collect M m it = do {
     (e, it') \<leftarrow> pom_next M m it;
     case e of
       None \<Rightarrow> Some []
     | Some e \<Rightarrow> do { es \<leftarrow> pom_collect M m it'; Some (e # es) } }"

text \<open>All pairs, as a client collects them from \<open>iter\<close>.\<close>

definition pom_entries :: "'m memory_ops \<Rightarrow> 'm \<Rightarrow> (nat \<times> nat) list option" where
  "pom_entries M m = do { it \<leftarrow> pom_iter_new M m; pom_collect M m it }"

section \<open>Validation\<close>

text \<open>The inner loop of \<open>validate\<close> over the keys of a page: the count and the last key so far, or an error.\<close>

fun validate_keys :: "'m memory_ops \<Rightarrow> 'm \<Rightarrow> nat \<Rightarrow> nat \<Rightarrow> nat \<Rightarrow> nat \<Rightarrow> nat option \<Rightarrow> (pom_error + nat \<times> nat option) option" where
  "validate_keys M m page j 0 count last_key = Some (Inr (count, last_key))"
| "validate_keys M m page j (Suc n) count last_key = do {
     e \<leftarrow> read_page_entry M m page j;
     if (case last_key of Some prev \<Rightarrow> fst e \<le> prev | None \<Rightarrow> False) then Some (Inl Corrupt)
     else validate_keys M m page (Suc j) n (add64 count 1) (Some (fst e)) }"

text \<open>The loop over the directory: the page after the last one, the last one, and the count, or an error.\<close>

fun validate_pages :: "'m memory_ops \<Rightarrow> 'm \<Rightarrow> nat \<Rightarrow> nat \<Rightarrow> nat \<Rightarrow> nat \<Rightarrow> nat \<Rightarrow> nat option \<Rightarrow> (pom_error + nat \<times> nat \<times> nat) option" where
  "validate_pages M m i 0 page prev_page count last_key = Some (Inr (page, prev_page, count))"
| "validate_pages M m i (Suc n) page prev_page count last_key =
     (if page = 0 then Some (Inl Corrupt)
      else do {
        dir \<leftarrow> read_dir_entry M m i;
        if de_page_id dir \<noteq> page then Some (Inl Corrupt)
        else do {
          h \<leftarrow> read_page_header M m page;
          if pg_flags h \<noteq> PAGE_FLAG_ACTIVE \<or> pg_prev h \<noteq> prev_page \<or> pg_len h = 0 then Some (Inl Corrupt)
          else if pg_len h > PAGE_CAP then Some (Inl Corrupt)
          else do {
            e \<leftarrow> read_page_entry M m page 0;
            if de_min_key dir \<noteq> fst e then Some (Inl Corrupt)
            else do {
              r \<leftarrow> validate_keys M m page 0 (pg_len h) count last_key;
              case r of
                Inl err \<Rightarrow> Some (Inl err)
              | Inr (count, last_key) \<Rightarrow> validate_pages M m (Suc i) n (pg_next h) page count last_key } } } })"

partial_function (option) validate_free :: "'m memory_ops \<Rightarrow> 'm \<Rightarrow> nat \<Rightarrow> nat list \<Rightarrow> (pom_error + unit) option" where
  "validate_free M m free seen =
     (if free \<noteq> 0 then do {
        count \<leftarrow> read_page_count M m;
        if free > count \<or> free \<in> set seen then Some (Inl Corrupt)
        else do {
          h \<leftarrow> read_page_header M m free;
          if pg_flags h \<noteq> PAGE_FLAG_FREE then Some (Inl Corrupt)
          else validate_free M m (pg_free_next h) (free # seen) } }
      else Some (Inr ()))"

definition pom_validate :: "'m memory_ops \<Rightarrow> 'm \<Rightarrow> (pom_error + unit) option" where
  "pom_validate M m = do {
     cap \<leftarrow> read_dir_cap M m;
     if cap \<noteq> DIR_CAP then Some (Inl Corrupt)
     else do {
       dir_len \<leftarrow> read_dir_len M m;
       page \<leftarrow> read_first_page M m;
       r \<leftarrow> validate_pages M m 0 dir_len page 0 0 None;
       case r of
         Inl err \<Rightarrow> Some (Inl err)
       | Inr (page, prev_page, count) \<Rightarrow> do {
           last_page \<leftarrow> read_last_page M m;
           len \<leftarrow> pom_len M m;
           if page \<noteq> 0 \<or> prev_page \<noteq> last_page \<or> count \<noteq> len then Some (Inl Corrupt)
           else do { free \<leftarrow> read_free_head M m; validate_free M m free [] } } } }"

end
