(* ===== verification/Paged_Fields.thy ===== *)
theory Paged_Fields
  imports Memory_Laws Paged_Map
begin

text \<open>
  The memory of a paged ordered map as a store of named fields. Every read and write of the map is a read
  or write of one field; distinct fields do not overlap, and growing the memory changes no field, since
  the bytes past the end count as zero. The laws of this theory turn the operations on bytes into
  updates of the store.
\<close>

section \<open>Fields\<close>

datatype field =
  FMagic | FVersion | FReserved | FLen | FCount | FFree | FFirst | FLast | FDirLen | FDirCap
| FDirMin nat | FDirPage nat
| FFlags nat | FPageLen nat | FPrev nat | FNext nat | FFreeNext nat
| FKey nat nat | FVal nat nat

text \<open>The page of a field, 0 for the header and the directory, and its offset there.\<close>

fun f_page :: "field \<Rightarrow> nat" where
  "f_page (FFlags p) = p"
| "f_page (FPageLen p) = p"
| "f_page (FPrev p) = p"
| "f_page (FNext p) = p"
| "f_page (FFreeNext p) = p"
| "f_page (FKey p i) = p"
| "f_page (FVal p i) = p"
| "f_page _ = 0"

fun f_off :: "field \<Rightarrow> nat" where
  "f_off FMagic = 0"
| "f_off FVersion = 3"
| "f_off FReserved = 4"
| "f_off FLen = 8"
| "f_off FCount = 16"
| "f_off FFree = 24"
| "f_off FFirst = 32"
| "f_off FLast = 40"
| "f_off FDirLen = 48"
| "f_off FDirCap = 56"
| "f_off (FDirMin i) = 64 + 16 * i"
| "f_off (FDirPage i) = 72 + 16 * i"
| "f_off (FFlags p) = 0"
| "f_off (FPageLen p) = 2"
| "f_off (FPrev p) = 8"
| "f_off (FNext p) = 16"
| "f_off (FFreeNext p) = 24"
| "f_off (FKey p i) = 32 + 16 * i"
| "f_off (FVal p i) = 40 + 16 * i"

fun f_width :: "field \<Rightarrow> nat" where
  "f_width FMagic = 3"
| "f_width FVersion = 1"
| "f_width FReserved = 4"
| "f_width (FFlags p) = 1"
| "f_width (FPageLen p) = 2"
| "f_width _ = 8"

fun f_wf :: "field \<Rightarrow> bool" where
  "f_wf (FDirMin i) \<longleftrightarrow> i < 8192"
| "f_wf (FDirPage i) \<longleftrightarrow> i < 8192"
| "f_wf (FFlags p) \<longleftrightarrow> 0 < p"
| "f_wf (FPageLen p) \<longleftrightarrow> 0 < p"
| "f_wf (FPrev p) \<longleftrightarrow> 0 < p"
| "f_wf (FNext p) \<longleftrightarrow> 0 < p"
| "f_wf (FFreeNext p) \<longleftrightarrow> 0 < p"
| "f_wf (FKey p i) \<longleftrightarrow> 0 < p \<and> i < 64"
| "f_wf (FVal p i) \<longleftrightarrow> 0 < p \<and> i < 64"
| "f_wf _ \<longleftrightarrow> True"

definition page_base :: "nat \<Rightarrow> nat" where
  "page_base p = (if p = 0 then 0 else 131136 + (p - 1) * 1056)"

definition f_addr :: "field \<Rightarrow> nat" where
  "f_addr f = page_base (f_page f) + f_off f"

lemma off_bound: "f_wf f \<Longrightarrow> f_off f + f_width f \<le> (if f_page f = 0 then 131136 else 1056)"
  by (cases f) auto

lemma page_base_step: "p < q \<Longrightarrow> page_base p + (if p = 0 then 131136 else 1056) \<le> page_base q"
proof -
  assume "p < q"
  then obtain d where "q = p + Suc d" using less_iff_Suc_add by auto
  then show ?thesis by (cases p) (simp_all add: page_base_def algebra_simps)
qed

lemma off_apart:
  assumes "f_wf f" "f_wf g" "f \<noteq> g" "f_page f = f_page g"
  shows "f_off f + f_width f \<le> f_off g \<or> f_off g + f_width g \<le> f_off f"
  using assms by (cases f; cases g) auto

lemma field_apart:
  assumes "f_wf f" "f_wf g" "f \<noteq> g"
  shows "f_addr f + f_width f \<le> f_addr g \<or> f_addr g + f_width g \<le> f_addr f"
proof -
  consider "f_page f = f_page g" | "f_page f < f_page g" | "f_page g < f_page f" by linarith
  then show ?thesis
  proof cases
    case 1
    then show ?thesis using off_apart [OF assms 1] by (simp add: f_addr_def)
  next
    case 2
    then show ?thesis using page_base_step [OF 2] off_bound [OF assms(1)] by (simp add: f_addr_def)
  next
    case 3
    then show ?thesis using page_base_step [OF 3] off_bound [OF assms(2)] by (simp add: f_addr_def)
  qed
qed

section \<open>Stores\<close>

type_synonym store = "field \<Rightarrow> nat"

definition vals :: "bytes \<Rightarrow> store" where
  "vals c f = (if f_wf f then from_le (window c (f_addr f) (f_width f)) else 0)"

lemma vals_less: "vals c f < 256 ^ f_width f"
proof (cases "f_wf f")
  case True
  have "from_le (window c (f_addr f) (f_width f)) < 256 ^ length (window c (f_addr f) (f_width f))" by (rule from_le_less)
  also have "\<dots> \<le> 256 ^ f_width f" by (rule power_increasing) (simp_all add: window_def)
  finally show ?thesis using True by (simp add: vals_def)
qed (simp add: vals_def)

lemma window_overwrite_off:
  assumes "a + length b \<le> length c" "k + n \<le> a \<or> a + length b \<le> k"
  shows "window (overwrite c a b) k n = window c k n"
  by (rule nth_equalityI) (use assms in \<open>auto simp: window_def nth_overwrite\<close>)

lemma from_le_zeros: "from_le (xs @ replicate n 0) = from_le xs"
  by (induction xs) (induction n, simp_all)

lemma vals_append [simp]: "vals (c @ replicate n 0) = vals c"
proof
  fix f
  have "window (c @ replicate n 0) (f_addr f) (f_width f) = window c (f_addr f) (f_width f) @ replicate (min (f_width f - (length c - f_addr f)) (n - (f_addr f - length c))) 0"
    by (simp add: window_def take_replicate drop_replicate)
  then show "vals (c @ replicate n 0) f = vals c f" by (simp add: vals_def from_le_zeros)
qed

lemma vals_overwrite:
  assumes "f_wf f" "f_addr f + f_width f \<le> length c" "v < 256 ^ f_width f"
  shows "vals (overwrite c (f_addr f) (to_le (f_width f) v)) = (vals c)(f := v)"
proof
  fix g
  have len: "f_addr f + length (to_le (f_width f) v) \<le> length c" using assms(2) by simp
  show "vals (overwrite c (f_addr f) (to_le (f_width f) v)) g = ((vals c)(f := v)) g"
  proof (cases "g = f")
    case True
    then show ?thesis using window_overwrite_same [OF len] assms by (simp add: vals_def from_le_to_le_id)
  next
    case False
    then show ?thesis using window_overwrite_off [OF len] field_apart [of g f] assms(1) by (auto simp: vals_def)
  qed
qed

text \<open>A single byte at the end of a field changes no other field.\<close>

lemma vals_poke:
  assumes "f_wf f" "f_addr f + f_width f \<le> length c" "a + 1 = f_addr f + f_width f"
  shows "\<exists>x. vals (overwrite c a [b]) = (vals c)(f := x)"
proof -
  have w: "0 < f_width f" by (cases f) simp_all
  have "vals (overwrite c a [b]) g = vals c g" if "g \<noteq> f" for g
  proof (cases "f_wf g")
    case True
    have "f_addr g + f_width g \<le> a \<or> a + length [b] \<le> f_addr g" using field_apart [OF True assms(1) that] assms(3) w by auto
    then show ?thesis using window_overwrite_off [of a "[b]" c] assms(2,3) True by (simp add: vals_def)
  qed (simp add: vals_def)
  then have "vals (overwrite c a [b]) = (vals c)(f := vals (overwrite c a [b]) f)" by (auto simp: fun_eq_iff)
  then show ?thesis by blast
qed

section \<open>Reads and writes of fields\<close>

definition page_hdr :: "store \<Rightarrow> nat \<Rightarrow> page_header" where
  "page_hdr s p = \<lparr>pg_flags = s (FFlags p), pg_len = s (FPageLen p), pg_prev = s (FPrev p), pg_next = s (FNext p), pg_free_next = s (FFreeNext p)\<rparr>"

lemma page_hdr_simps [simp]:
  "pg_flags (page_hdr s p) = s (FFlags p)" "pg_len (page_hdr s p) = s (FPageLen p)" "pg_prev (page_hdr s p) = s (FPrev p)"
  "pg_next (page_hdr s p) = s (FNext p)" "pg_free_next (page_hdr s p) = s (FFreeNext p)"
  by (simp_all add: page_hdr_def)

text \<open>The store after writing a page header, an entry, or a directory entry.\<close>

definition put_hdr :: "store \<Rightarrow> nat \<Rightarrow> page_header \<Rightarrow> store" where
  "put_hdr s p h = s(FFlags p := pg_flags h, FPageLen p := pg_len h, FPrev p := pg_prev h, FNext p := pg_next h, FFreeNext p := pg_free_next h)"

definition put_entry :: "store \<Rightarrow> nat \<Rightarrow> nat \<Rightarrow> nat \<times> nat \<Rightarrow> store" where
  "put_entry s p i e = s(FKey p i := fst e, FVal p i := snd e)"

definition put_dir :: "store \<Rightarrow> nat \<Rightarrow> nat \<times> nat \<Rightarrow> store" where
  "put_dir s i e = s(FDirMin i := fst e, FDirPage i := snd e)"

context byte_memory
begin

text \<open>A memory with room for \<open>P\<close> pages, and its fields.\<close>

definition has :: "nat \<Rightarrow> 'm \<Rightarrow> bool" where
  "has P m \<longleftrightarrow> ok m \<and> 131136 + P * 1056 \<le> length (contents m)"

definition st :: "'m \<Rightarrow> store" where
  "st m = vals (contents m)"

definition f_in :: "nat \<Rightarrow> field \<Rightarrow> bool" where
  "f_in P f \<longleftrightarrow> f_wf f \<and> f_page f \<le> P"

definition upd :: "'m \<Rightarrow> field \<Rightarrow> nat \<Rightarrow> 'm" where
  "upd m f v = put m (f_addr f) (to_le (f_width f) v)"

lemma in_range:
  assumes "has P m" "f_in P f"
  shows "f_addr f + f_width f \<le> length (contents m)" "f_addr f + f_width f < 2 ^ 63"
proof -
  have "page_base (f_page f) + (if f_page f = 0 then 131136 else 1056) \<le> 131136 + P * 1056"
    using page_base_step [of "f_page f" "Suc P"] assms(2) by (simp add: f_in_def page_base_def)
  then show l: "f_addr f + f_width f \<le> length (contents m)" using off_bound [of f] assms by (simp add: f_addr_def f_in_def has_def)
  then show "f_addr f + f_width f < 2 ^ 63" using size_bound [of m] assms(1) by (simp add: has_def)
qed

lemma st_less: "st m f < 256 ^ f_width f"
  by (simp add: st_def vals_less)

lemma upd_law:
  assumes "has P m" "f_in P f" "v < 256 ^ f_width f"
  shows "has P (upd m f v)" "st (upd m f v) = (st m)(f := v)" "write_or_panic M m (f_addr f) (to_le (f_width f) v) = Some (upd m f v)"
proof -
  have l: "f_addr f + length (to_le (f_width f) v) \<le> length (contents m)" using in_range(1) [OF assms(1,2)] by simp
  have o: "ok m" using assms(1) by (simp add: has_def)
  note p = put_law [OF o l] write_laws(1) [OF o l]
  show "has P (upd m f v)" using p(2,3) l assms(1) by (simp add: upd_def has_def)
  show "st (upd m f v) = (st m)(f := v)"
    using vals_overwrite [of f "contents m" v] l assms p(3) by (simp add: st_def upd_def f_in_def)
  show "write_or_panic M m (f_addr f) (to_le (f_width f) v) = Some (upd m f v)" using p(4) by (simp add: upd_def)
qed

lemma read_field:
  assumes "has P m" "f_in P f"
  shows "map_option from_le (mem_read M m (f_addr f) (f_width f)) = Some (st m f)"
  using read_law [of m "f_addr f" "f_width f"] in_range(1) [OF assms] assms by (simp add: has_def st_def vals_def f_in_def)

lemma page_offset_exact:
  assumes "has P m" "0 < p" "p \<le> P"
  shows "page_offset p = page_base p" "page_base p + 1056 \<le> length (contents m)" "page_base p + 1056 < 2 ^ 63"
proof -
  have i: "f_in P (FVal p 63)" using assms(2,3) by (simp add: f_in_def)
  show b: "page_base p + 1056 \<le> length (contents m)" "page_base p + 1056 < 2 ^ 63"
    using in_range [OF assms(1) i] by (simp_all add: f_addr_def)
  have "(p - 1) * 1056 < 2 ^ 63" using b(2) assms(2) by (simp add: page_base_def)
  then show "page_offset p = page_base p" using b(2) assms(2)
    by (simp add: page_offset_def pom_consts page_base_def add64_exact mul64_exact sub64_exact)
qed

text \<open>An operation runs to a memory with the given store, and to a result.\<close>

definition goes :: "nat \<Rightarrow> 'm option \<Rightarrow> store \<Rightarrow> bool" where
  "goes P r s \<longleftrightarrow> (\<exists>m'. r = Some m' \<and> has P m' \<and> st m' = s)"

definition gives :: "nat \<Rightarrow> ('m \<times> 'r) option \<Rightarrow> store \<Rightarrow> 'r \<Rightarrow> bool" where
  "gives P r s x \<longleftrightarrow> (\<exists>m'. r = Some (m', x) \<and> has P m' \<and> st m' = s)"

lemma goes_some: "has P m \<Longrightarrow> goes P (Some m) (st m)"
  by (auto simp: goes_def)

lemma gives_some: "has P m \<Longrightarrow> gives P (Some (m, x)) (st m) x"
  by (auto simp: gives_def)

lemma goes_bind: "goes P r s \<Longrightarrow> (\<And>m'. has P m' \<Longrightarrow> st m' = s \<Longrightarrow> goes P (k m') s') \<Longrightarrow> goes P (Option.bind r k) s'"
  by (auto simp: goes_def)

lemma goes_bind_gives: "goes P r s \<Longrightarrow> (\<And>m'. has P m' \<Longrightarrow> st m' = s \<Longrightarrow> gives P (k m') s' x) \<Longrightarrow> gives P (Option.bind r k) s' x"
  by (auto simp: goes_def gives_def)

lemma gives_and_then:
  "gives P r s (Inr y) \<Longrightarrow> (\<And>m'. has P m' \<Longrightarrow> st m' = s \<Longrightarrow> gives P (k m' y) s' x) \<Longrightarrow> gives P (and_then r k) s' x"
  by (auto simp: gives_def and_then_def)

lemma goes_eq: "goes P r s \<Longrightarrow> s = s' \<Longrightarrow> goes P r s'"
  by simp

lemma gives_eq: "gives P r s x \<Longrightarrow> s = s' \<Longrightarrow> gives P r s' x"
  by simp

lemma read_uint:
  assumes "has P m" "f_in P f"
  shows "f_width f = 8 \<Longrightarrow> mem_read_u64 M m (f_addr f) = Some (st m f)" "f_width f = 2 \<Longrightarrow> mem_read_u16 M m (f_addr f) = Some (st m f)"
    "f_width f = 1 \<Longrightarrow> mem_read_u8 M m (f_addr f) = Some (st m f)"
  using read_field [OF assms] by (simp_all add: mem_read_u64_def mem_read_u16_def mem_read_u8_def)

lemma write_uint:
  assumes "has P m" "f_in P f"
  shows "f_width f = 8 \<Longrightarrow> v < 2 ^ 64 \<Longrightarrow> goes P (mem_write_u64 M m (f_addr f) v) ((st m)(f := v))"
    "f_width f = 2 \<Longrightarrow> v < 65536 \<Longrightarrow> goes P (mem_write_u16 M m (f_addr f) v) ((st m)(f := v))"
    "f_width f = 1 \<Longrightarrow> v < 256 \<Longrightarrow> goes P (mem_write_u8 M m (f_addr f) v) ((st m)(f := v))"
  using upd_law [OF assms, of v] by (auto simp: mem_write_u64_def mem_write_u16_def mem_write_u8_def goes_def)

lemma addr_eqs:
  "f_addr FMagic = OFFSET_MAGIC" "f_addr FVersion = OFFSET_VERSION" "f_addr FLen = OFFSET_LEN" "f_addr FCount = OFFSET_PAGE_COUNT"
  "f_addr FFree = OFFSET_FREE_HEAD" "f_addr FFirst = OFFSET_FIRST_PAGE" "f_addr FLast = OFFSET_LAST_PAGE" "f_addr FDirLen = OFFSET_DIR_LEN"
  "f_addr FDirCap = OFFSET_DIR_CAP"
  by (simp_all add: f_addr_def page_base_def pom_consts)

lemma dir_addr: "i < 8192 \<Longrightarrow> dir_entry_offset i = f_addr (FDirMin i)" "i < 8192 \<Longrightarrow> add64 (f_addr (FDirMin i)) 8 = f_addr (FDirPage i)"
  by (simp_all add: dir_entry_offset_def pom_consts f_addr_def page_base_def add64_exact mul64_exact)

lemma page_addr:
  assumes "has P m" "0 < p" "p \<le> P"
  shows "add64 (page_offset p) PAGE_OFFSET_FLAGS = f_addr (FFlags p)" "add64 (page_offset p) PAGE_OFFSET_LEN = f_addr (FPageLen p)"
    "add64 (page_offset p) PAGE_OFFSET_PREV = f_addr (FPrev p)" "add64 (page_offset p) PAGE_OFFSET_NEXT = f_addr (FNext p)"
    "add64 (page_offset p) PAGE_OFFSET_FREE_NEXT = f_addr (FFreeNext p)"
    "i < 64 \<Longrightarrow> page_entry_offset p i = f_addr (FKey p i)" "i < 64 \<Longrightarrow> add64 (f_addr (FKey p i)) 8 = f_addr (FVal p i)"
  using page_offset_exact [OF assms]
  by (simp_all add: pom_consts f_addr_def page_entry_offset_def add64_exact mul64_exact)

lemma read_laws:
  assumes "has P m"
  shows "read_dir_len M m = Some (st m FDirLen)" "read_dir_cap M m = Some (st m FDirCap)" "read_page_count M m = Some (st m FCount)"
    "read_free_head M m = Some (st m FFree)" "read_first_page M m = Some (st m FFirst)" "read_last_page M m = Some (st m FLast)"
    "pom_len M m = Some (st m FLen)"
    "i < 8192 \<Longrightarrow> read_dir_entry M m i = Some \<lparr>de_min_key = st m (FDirMin i), de_page_id = st m (FDirPage i)\<rparr>"
    "0 < p \<Longrightarrow> p \<le> P \<Longrightarrow> i < 64 \<Longrightarrow> read_page_entry M m p i = Some (st m (FKey p i), st m (FVal p i))"
    "0 < p \<Longrightarrow> p \<le> P \<Longrightarrow> read_page_header M m p = Some (page_hdr (st m) p)"
proof -
  note r = read_uint [OF assms]
  note h = r(1) [of FDirLen] r(1) [of FDirCap] r(1) [of FCount] r(1) [of FFree] r(1) [of FFirst] r(1) [of FLast] r(1) [of FLen]
  show "read_dir_len M m = Some (st m FDirLen)" "read_dir_cap M m = Some (st m FDirCap)" "read_page_count M m = Some (st m FCount)"
    "read_free_head M m = Some (st m FFree)" "read_first_page M m = Some (st m FFirst)" "read_last_page M m = Some (st m FLast)"
    "pom_len M m = Some (st m FLen)"
    using h by (simp_all add: f_in_def addr_eqs read_dir_len_def read_dir_cap_def read_page_count_def read_free_head_def read_first_page_def
        read_last_page_def pom_len_def)
  show "read_dir_entry M m i = Some \<lparr>de_min_key = st m (FDirMin i), de_page_id = st m (FDirPage i)\<rparr>" if "i < 8192"
    using that by (simp add: r f_in_def read_dir_entry_def dir_addr Let_def)
  show "read_page_entry M m p i = Some (st m (FKey p i), st m (FVal p i))" if "0 < p" "p \<le> P" "i < 64"
    using that by (simp add: r f_in_def read_page_entry_def page_addr [OF assms] Let_def)
  show "read_page_header M m p = Some (page_hdr (st m) p)" if "0 < p" "p \<le> P"
    using that by (simp add: r f_in_def read_page_header_def page_addr [OF assms] Let_def page_hdr_def)
qed

lemma write_field_laws:
  assumes "has P m" "v < 2 ^ 64"
  shows "goes P (write_dir_len M m v) ((st m)(FDirLen := v))" "goes P (write_page_count M m v) ((st m)(FCount := v))"
    "goes P (write_free_head M m v) ((st m)(FFree := v))" "goes P (write_first_page M m v) ((st m)(FFirst := v))"
    "goes P (write_last_page M m v) ((st m)(FLast := v))" "goes P (mem_write_u64 M m OFFSET_LEN v) ((st m)(FLen := v))"
  using write_uint(1) [OF assms(1), of FDirLen v] write_uint(1) [OF assms(1), of FCount v] write_uint(1) [OF assms(1), of FFree v]
    write_uint(1) [OF assms(1), of FFirst v] write_uint(1) [OF assms(1), of FLast v] write_uint(1) [OF assms(1), of FLen v] assms(2)
  by (simp_all add: f_in_def addr_eqs write_dir_len_def write_page_count_def write_free_head_def write_first_page_def write_last_page_def)

lemma write_entry_law:
  assumes "has P m" "0 < p" "p \<le> P" "i < 64" "k < 2 ^ 64" "v < 2 ^ 64"
  shows "goes P (write_page_entry M m p i k v) (put_entry (st m) p i (k, v))"
  unfolding write_page_entry_def Let_def page_addr(6,7) [OF assms(1-4)] put_entry_def fst_conv snd_conv
proof (rule goes_bind)
  show "goes P (mem_write_u64 M m (f_addr (FKey p i)) k) ((st m)(FKey p i := k))" using assms by (intro write_uint) (simp_all add: f_in_def)
  fix m' assume m': "has P m'" "st m' = (st m)(FKey p i := k)"
  show "goes P (mem_write_u64 M m' (f_addr (FVal p i)) v) ((st m)(FKey p i := k, FVal p i := v))"
    unfolding m'(2) [symmetric] using assms m'(1) by (intro write_uint) (simp_all add: f_in_def)
qed

lemma write_dir_law:
  assumes "has P m" "i < 8192" "de_min_key e < 2 ^ 64" "de_page_id e < 2 ^ 64"
  shows "goes P (pom_write_dir_entry M m i e) (put_dir (st m) i (de_min_key e, de_page_id e))"
  unfolding pom_write_dir_entry_def Let_def dir_addr(1,2) [OF assms(2)] put_dir_def fst_conv snd_conv
proof (rule goes_bind)
  show "goes P (mem_write_u64 M m (f_addr (FDirMin i)) (de_min_key e)) ((st m)(FDirMin i := de_min_key e))"
    using assms by (intro write_uint) (simp_all add: f_in_def)
  fix m' assume m': "has P m'" "st m' = (st m)(FDirMin i := de_min_key e)"
  show "goes P (mem_write_u64 M m' (f_addr (FDirPage i)) (de_page_id e)) ((st m)(FDirMin i := de_min_key e, FDirPage i := de_page_id e))"
    unfolding m'(2) [symmetric] using assms m'(1) by (intro write_uint) (simp_all add: f_in_def)
qed

definition hdr_fits :: "page_header \<Rightarrow> bool" where
  "hdr_fits h \<longleftrightarrow> pg_flags h < 256 \<and> pg_len h < 65536 \<and> pg_prev h < 2 ^ 64 \<and> pg_next h < 2 ^ 64 \<and> pg_free_next h < 2 ^ 64"

lemma page_hdr_fits: "hdr_fits (page_hdr (st m) p)"
  using st_less [of m "FFlags p"] st_less [of m "FPageLen p"] st_less [of m "FPrev p"] st_less [of m "FNext p"] st_less [of m "FFreeNext p"]
  by (simp add: hdr_fits_def)

lemma page_header_law:
  assumes "has P m" "0 < p" "p \<le> P" "hdr_fits h"
  shows "goes P (write_page_header M m p h) (put_hdr (st m) p h)"
proof -
  have i: "f_in P (FFlags p)" "f_in P (FPageLen p)" "f_in P (FPrev p)" "f_in P (FNext p)" "f_in P (FFreeNext p)"
    using assms(2,3) by (simp_all add: f_in_def)
  have v: "pg_flags h < 256" "pg_len h < 65536" "pg_prev h < 2 ^ 64" "pg_next h < 2 ^ 64" "pg_free_next h < 2 ^ 64"
    using assms(4) by (simp_all add: hdr_fits_def)
  note w = write_uint(3) [OF _ i(1) f_width.simps(4) v(1)] write_uint(2) [OF _ i(2) f_width.simps(5) v(2)]
    write_uint(1) [OF _ i(3) _ v(3), simplified] write_uint(1) [OF _ i(4) _ v(4), simplified] write_uint(1) [OF _ i(5) _ v(5), simplified]
  show ?thesis
    unfolding write_page_header_def Let_def page_addr(1-5) [OF assms(1-3)] put_hdr_def
    by (rule goes_bind [OF w(1) [OF assms(1)]], rule goes_bind [OF w(2)], assumption, rule goes_bind [OF w(3)], assumption,
        rule goes_bind [OF w(4)], assumption, rule goes_eq [OF w(5)], assumption) simp
qed

lemma write_fields_law:
  assumes "has P m" "0 < p" "p \<le> P" "hdr_fits (f (page_hdr (st m) p))"
  shows "goes P (write_page_fields M m p f) (put_hdr (st m) p (f (page_hdr (st m) p)))"
  unfolding write_page_fields_def read_laws(10) [OF assms(1-3)] Option.bind.bind_lunit
  by (rule page_header_law [OF assms])

end

end
