(* ===== verification/Sorted_Pairs.thy ===== *)
theory Sorted_Pairs
  imports Prelude
begin

text \<open>
  Lists of key and value pairs with strictly ascending keys: the contents of an ordered map, with
  lookup, insertion, removal and the neighbours of a key, and how they act on one segment of the list.
\<close>

section \<open>Operations\<close>

definition ascending :: "(nat \<times> 'v) list \<Rightarrow> bool" where
  "ascending xs \<longleftrightarrow> sorted_wrt (<) (map fst xs)"

definition pinsert :: "nat \<Rightarrow> 'v \<Rightarrow> (nat \<times> 'v) list \<Rightarrow> (nat \<times> 'v) list" where
  "pinsert k v xs = takeWhile (\<lambda>e. fst e < k) xs @ (k, v) # dropWhile (\<lambda>e. fst e \<le> k) xs"

definition premove :: "nat \<Rightarrow> (nat \<times> 'v) list \<Rightarrow> (nat \<times> 'v) list" where
  "premove k xs = filter (\<lambda>e. fst e \<noteq> k) xs"

definition last_opt :: "'a list \<Rightarrow> 'a option" where
  "last_opt xs = (if xs = [] then None else Some (last xs))"

definition hd_opt :: "'a list \<Rightarrow> 'a option" where
  "hd_opt xs = (if xs = [] then None else Some (hd xs))"

definition below :: "nat \<Rightarrow> (nat \<times> 'v) list \<Rightarrow> (nat \<times> 'v) option" where
  "below k xs = last_opt (filter (\<lambda>e. fst e < k) xs)"

definition at_or_below :: "nat \<Rightarrow> (nat \<times> 'v) list \<Rightarrow> (nat \<times> 'v) option" where
  "at_or_below k xs = last_opt (filter (\<lambda>e. fst e \<le> k) xs)"

definition above :: "nat \<Rightarrow> (nat \<times> 'v) list \<Rightarrow> (nat \<times> 'v) option" where
  "above k xs = hd_opt (filter (\<lambda>e. k < fst e) xs)"

section \<open>Lemmas\<close>

lemma ascending_append:
  "ascending (xs @ ys) \<longleftrightarrow> ascending xs \<and> ascending ys \<and> (\<forall>x\<in>set xs. \<forall>y\<in>set ys. fst x < fst y)"
  by (auto simp: ascending_def sorted_wrt_append)

lemma ascending_Cons: "ascending (x # xs) \<longleftrightarrow> ascending xs \<and> (\<forall>y\<in>set xs. fst x < fst y)"
  by (auto simp: ascending_def)

lemma ascending_nil [simp]: "ascending []"
  by (simp add: ascending_def)

lemma ascending_nth: "ascending xs \<Longrightarrow> i < j \<Longrightarrow> j < length xs \<Longrightarrow> fst (xs ! i) < fst (xs ! j)"
  using sorted_wrt_nth_less [of "(<)" "map fst xs" i j] by (simp add: ascending_def)

lemma ascending_distinct: "ascending xs \<Longrightarrow> distinct (map fst xs)"
  by (simp add: ascending_def strict_sorted_iff)

lemma takeWhile_all: "(\<And>x. x \<in> set xs \<Longrightarrow> P x) \<Longrightarrow> takeWhile P (xs @ ys) = xs @ takeWhile P ys"
  by (induction xs) auto

lemma dropWhile_all: "(\<And>x. x \<in> set xs \<Longrightarrow> P x) \<Longrightarrow> dropWhile P (xs @ ys) = dropWhile P ys"
  by (induction xs) auto

lemma takeWhile_none: "(\<And>x. x \<in> set ys \<Longrightarrow> \<not> P x) \<Longrightarrow> takeWhile P (xs @ ys) = takeWhile P xs"
  by (induction xs) (cases ys, auto)

lemma dropWhile_none: "(\<And>x. x \<in> set ys \<Longrightarrow> \<not> P x) \<Longrightarrow> dropWhile P (xs @ ys) = dropWhile P xs @ ys"
  by (induction xs) (cases ys, auto)

text \<open>On a segment around the key.\<close>

lemma segment_laws:
  assumes "\<forall>e\<in>set A. fst e < k" "\<forall>e\<in>set C. k < fst e"
  shows "pinsert k v (A @ B @ C) = A @ pinsert k v B @ C" "premove k (A @ B @ C) = A @ premove k B @ C"
    "map_of (A @ B @ C) k = map_of B k"
proof -
  have "takeWhile (\<lambda>e. fst e < k) (A @ B @ C) = A @ takeWhile (\<lambda>e. fst e < k) B"
    using assms by (subst takeWhile_all) (auto intro!: takeWhile_none)
  moreover have "dropWhile (\<lambda>e. fst e \<le> k) (A @ B @ C) = dropWhile (\<lambda>e. fst e \<le> k) B @ C"
    using assms by (subst dropWhile_all) (auto intro!: dropWhile_none)
  ultimately show "pinsert k v (A @ B @ C) = A @ pinsert k v B @ C" by (simp add: pinsert_def)
  have "filter (\<lambda>e. fst e \<noteq> k) A = A" "filter (\<lambda>e. fst e \<noteq> k) C = C" using assms by (auto intro!: filter_True)
  then show "premove k (A @ B @ C) = A @ premove k B @ C" by (simp add: premove_def)
  have "map_of A k = None" "map_of C k = None" using assms by (auto simp: map_of_eq_None_iff)
  then show "map_of (A @ B @ C) k = map_of B k" by (simp add: map_add_def split: option.splits)
qed

text \<open>At a position of a list, where the key is or belongs.\<close>

definition belongs :: "nat \<Rightarrow> (nat \<times> 'v) list \<Rightarrow> nat \<Rightarrow> bool" where
  "belongs k xs i \<longleftrightarrow> i \<le> length xs \<and> (\<forall>j<i. fst (xs ! j) < k) \<and> (\<forall>j. i \<le> j \<and> j < length xs \<longrightarrow> k < fst (xs ! j))"

lemma belongs_split:
  assumes "belongs k xs i"
  shows "\<forall>e\<in>set (take i xs). fst e < k" "\<forall>e\<in>set (drop i xs). k < fst e"
proof -
  show "\<forall>e\<in>set (take i xs). fst e < k"
  proof
    fix e assume "e \<in> set (take i xs)"
    then obtain j where "j < i" "e = xs ! j" by (auto simp: in_set_conv_nth)
    then show "fst e < k" using assms by (simp add: belongs_def)
  qed
  show "\<forall>e\<in>set (drop i xs). k < fst e"
  proof
    fix e assume "e \<in> set (drop i xs)"
    then obtain j where "j < length xs - i" "e = xs ! (i + j)" by (auto simp: in_set_conv_nth)
    then show "k < fst e" using assms by (simp add: belongs_def)
  qed
qed

lemma belongs_laws:
  assumes "belongs k xs i"
  shows "pinsert k v xs = take i xs @ (k, v) # drop i xs" "map_of xs k = None" "premove k xs = xs"
proof -
  have x: "xs = take i xs @ [] @ drop i xs" by simp
  note s = segment_laws [OF belongs_split [OF assms], where B = "[]", folded x]
  show "pinsert k v xs = take i xs @ (k, v) # drop i xs" "map_of xs k = None" "premove k xs = xs"
    using s by (simp_all add: pinsert_def premove_def)
qed

lemma found_split:
  assumes "ascending xs" "i < length xs" "fst (xs ! i) = k"
  shows "\<forall>e\<in>set (take i xs). fst e < k" "\<forall>e\<in>set (drop (Suc i) xs). k < fst e"
proof -
  show "\<forall>e\<in>set (take i xs). fst e < k"
  proof
    fix e assume "e \<in> set (take i xs)"
    then obtain j where "j < i" "e = xs ! j" by (auto simp: in_set_conv_nth)
    then show "fst e < k" using ascending_nth [OF assms(1), of j i] assms(2,3) by simp
  qed
  show "\<forall>e\<in>set (drop (Suc i) xs). k < fst e"
  proof
    fix e assume "e \<in> set (drop (Suc i) xs)"
    then obtain j where "j < length xs - Suc i" "e = xs ! (Suc i + j)" by (auto simp: in_set_conv_nth)
    then show "k < fst e" using ascending_nth [OF assms(1), of i "Suc i + j"] assms(2,3) by simp
  qed
qed

lemma found_laws:
  assumes "ascending xs" "i < length xs" "fst (xs ! i) = k"
  shows "pinsert k v xs = xs[i := (k, v)]" "map_of xs k = Some (snd (xs ! i))" "premove k xs = take i xs @ drop (Suc i) xs"
proof -
  have x: "xs = take i xs @ [xs ! i] @ drop (Suc i) xs" using assms(2) by (simp add: id_take_nth_drop)
  note s = segment_laws [OF found_split [OF assms], where B = "[xs ! i]", folded x]
  show "pinsert k v xs = xs[i := (k, v)]" "map_of xs k = Some (snd (xs ! i))" "premove k xs = take i xs @ drop (Suc i) xs"
    using s assms(2,3) by (cases "xs ! i", simp_all add: pinsert_def premove_def upd_conv_take_nth_drop)+
qed

lemma ascending_pinsert:
  fixes xs :: "(nat \<times> 'v) list"
  shows "ascending xs \<Longrightarrow> ascending (pinsert k v xs)"
proof -
  assume a: "ascending xs"
  have s: "sorted_wrt (<) (map fst xs)" using a by (simp add: ascending_def)
  have t: "takeWhile (\<lambda>e. fst e < k) xs = filter (\<lambda>e. fst e < k) xs" and d: "dropWhile (\<lambda>e. fst e \<le> k) xs = filter (\<lambda>e. k < fst e) xs"
    using a by (induction xs) (auto simp: ascending_Cons intro!: filter_True [symmetric] filter_False [symmetric])
  have f: "ascending (filter P xs)" for P :: "nat \<times> 'v \<Rightarrow> bool" using a by (induction xs) (auto simp: ascending_Cons)
  show ?thesis using f unfolding pinsert_def t d by (auto simp: ascending_append ascending_Cons)
qed

lemma ascending_premove: "ascending xs \<Longrightarrow> ascending (premove k xs)"
  unfolding premove_def by (induction xs) (auto simp: ascending_Cons)

end
