(* ===== verification/Paged_Stores.thy ===== *)
theory Paged_Stores
  imports Paged_Fields Sorted_Pairs
begin

text \<open>
  The loops of the paged ordered map over its store: searching, shifting and filling entries of a page and
  of the directory, and what they do to the lists read from there.
\<close>

section \<open>Arrays\<close>

definition ents :: "store \<Rightarrow> nat \<Rightarrow> nat \<Rightarrow> (nat \<times> nat) list" where
  "ents s p n = map (\<lambda>i. (s (FKey p i), s (FVal p i))) [0..<n]"

definition dirs :: "store \<Rightarrow> nat \<Rightarrow> (nat \<times> nat) list" where
  "dirs s n = map (\<lambda>i. (s (FDirMin i), s (FDirPage i))) [0..<n]"

lemma length_arrays [simp]: "length (ents s p n) = n" "length (dirs s n) = n"
  by (simp_all add: ents_def dirs_def)

lemma nth_arrays [simp]:
  "i < n \<Longrightarrow> ents s p n ! i = (s (FKey p i), s (FVal p i))" "i < n \<Longrightarrow> dirs s n ! i = (s (FDirMin i), s (FDirPage i))"
  by (simp_all add: ents_def dirs_def)

text \<open>Stores after a loop: entries of page \<open>p\<close> or of the directory taken from elsewhere.\<close>

definition on_entries :: "nat \<Rightarrow> (nat \<Rightarrow> bool) \<Rightarrow> (nat \<Rightarrow> nat \<times> nat) \<Rightarrow> store \<Rightarrow> store" where
  "on_entries p D g s f = (case f of
     FKey q i \<Rightarrow> if q = p \<and> D i then fst (g i) else s f
   | FVal q i \<Rightarrow> if q = p \<and> D i then snd (g i) else s f
   | _ \<Rightarrow> s f)"

definition on_dir :: "(nat \<Rightarrow> bool) \<Rightarrow> (nat \<Rightarrow> nat \<times> nat) \<Rightarrow> store \<Rightarrow> store" where
  "on_dir D g s f = (case f of
     FDirMin i \<Rightarrow> if D i then fst (g i) else s f
   | FDirPage i \<Rightarrow> if D i then snd (g i) else s f
   | _ \<Rightarrow> s f)"

definition entry_at :: "store \<Rightarrow> nat \<Rightarrow> nat \<Rightarrow> nat \<times> nat" where
  "entry_at s p i = (s (FKey p i), s (FVal p i))"

definition dir_at :: "store \<Rightarrow> nat \<Rightarrow> nat \<times> nat" where
  "dir_at s i = (s (FDirMin i), s (FDirPage i))"

lemma on_entries_off: "f_page f \<noteq> p \<Longrightarrow> on_entries p D g s f = s f"
  by (cases f) (auto simp: on_entries_def)

lemma on_entries_simps [simp]:
  "on_entries p D g s (FFlags q) = s (FFlags q)" "on_entries p D g s (FPageLen q) = s (FPageLen q)" "on_entries p D g s (FPrev q) = s (FPrev q)"
  "on_entries p D g s (FNext q) = s (FNext q)" "on_entries p D g s (FFreeNext q) = s (FFreeNext q)"
  "on_entries p D g s (FKey p i) = (if D i then fst (g i) else s (FKey p i))" "on_entries p D g s (FVal p i) = (if D i then snd (g i) else s (FVal p i))"
  "on_entries p D g s FLen = s FLen" "on_entries p D g s FCount = s FCount" "on_entries p D g s FFree = s FFree" "on_entries p D g s FFirst = s FFirst"
  "on_entries p D g s FLast = s FLast" "on_entries p D g s FDirLen = s FDirLen" "on_entries p D g s FDirCap = s FDirCap"
  "on_entries p D g s FMagic = s FMagic" "on_entries p D g s FVersion = s FVersion"
  "on_entries p D g s (FDirMin i) = s (FDirMin i)" "on_entries p D g s (FDirPage i) = s (FDirPage i)"
  by (simp_all add: on_entries_def)

lemma on_dir_off: "f_page f \<noteq> 0 \<Longrightarrow> on_dir D g s f = s f"
  by (cases f) (auto simp: on_dir_def)

lemma on_dir_simps [simp]:
  "on_dir D g s (FFlags q) = s (FFlags q)" "on_dir D g s (FPageLen q) = s (FPageLen q)" "on_dir D g s (FPrev q) = s (FPrev q)"
  "on_dir D g s (FNext q) = s (FNext q)" "on_dir D g s (FFreeNext q) = s (FFreeNext q)"
  "on_dir D g s (FKey p i) = s (FKey p i)" "on_dir D g s (FVal p i) = s (FVal p i)"
  "on_dir D g s FLen = s FLen" "on_dir D g s FCount = s FCount" "on_dir D g s FFree = s FFree" "on_dir D g s FFirst = s FFirst"
  "on_dir D g s FLast = s FLast" "on_dir D g s FDirLen = s FDirLen" "on_dir D g s FDirCap = s FDirCap"
  "on_dir D g s FMagic = s FMagic" "on_dir D g s FVersion = s FVersion"
  "on_dir D g s (FDirMin i) = (if D i then fst (g i) else s (FDirMin i))" "on_dir D g s (FDirPage i) = (if D i then snd (g i) else s (FDirPage i))"
  by (simp_all add: on_dir_def)

section \<open>Shifting and filling\<close>

context byte_memory
begin

lemma st_less64 [simp]:
  "st m (FKey p i) < 18446744073709551616" "st m (FVal p i) < 18446744073709551616" "st m (FDirMin i) < 18446744073709551616"
  "st m (FDirPage i) < 18446744073709551616" "st m (FFreeNext p) < 18446744073709551616" "st m FLen < 18446744073709551616"
  "st m FFree < 18446744073709551616" "st m (FNext p) < 18446744073709551616" "st m (FPrev p) < 18446744073709551616"
  using st_less [of m "FKey p i"] st_less [of m "FVal p i"] st_less [of m "FDirMin i"] st_less [of m "FDirPage i"] st_less [of m "FFreeNext p"]
    st_less [of m FLen] st_less [of m FFree] st_less [of m "FNext p"] st_less [of m "FPrev p"] by simp_all

lemma shift_up_law:
  assumes "has P m" "0 < p" "p \<le> P" "pos + n < 64"
  shows "goes P (shift_up M m p pos n) (on_entries p (\<lambda>i. pos < i \<and> i \<le> pos + n) (\<lambda>i. entry_at (st m) p (i - 1)) (st m))"
  using assms(1,4)
proof (induction n arbitrary: m)
  case 0
  have "on_entries p (\<lambda>i. pos < i \<and> i \<le> pos + 0) (\<lambda>i. entry_at (st m) p (i - 1)) (st m) = st m"
    by (auto simp: fun_eq_iff on_entries_def split: field.splits)
  then show ?case using goes_some [OF 0(1)] by simp
next
  case (Suc n)
  have a: "add16 (pos + n) 1 = pos + n + 1" using Suc.prems(2) by (simp add: add16_def)
  have w: "goes P (write_page_entry M m p (pos + n + 1) (st m (FKey p (pos + n))) (st m (FVal p (pos + n))))
      (put_entry (st m) p (pos + n + 1) (st m (FKey p (pos + n)), st m (FVal p (pos + n))))"
    using Suc.prems assms(2,3) by (intro write_entry_law) simp_all
  show ?case
    using read_laws(9) [OF Suc.prems(1) assms(2,3), of "pos + n"] Suc.prems(2) unfolding shift_up.simps a
  proof (simp, intro goes_bind [OF w [simplified]])
    fix m' assume m': "has P m'" "st m' = put_entry (st m) p (Suc (pos + n)) (st m (FKey p (pos + n)), st m (FVal p (pos + n)))"
    show "goes P (shift_up M m' p pos n) (on_entries p (\<lambda>i. pos < i \<and> i \<le> Suc (pos + n)) (\<lambda>i. entry_at (st m) p (i - Suc 0)) (st m))"
      using Suc.prems(2) by (intro goes_eq [OF Suc.IH [OF m'(1)]])
        (auto simp: fun_eq_iff m'(2) on_entries_def put_entry_def entry_at_def le_Suc_eq split: field.splits)
  qed
qed

lemma shift_down_law:
  assumes "has P m" "0 < p" "p \<le> P" "0 < i" "i + n \<le> 64"
  shows "goes P (shift_down M m p i n) (on_entries p (\<lambda>j. i - 1 \<le> j \<and> j + 1 < i + n) (\<lambda>j. entry_at (st m) p (j + 1)) (st m))"
  using assms(1,4,5)
proof (induction n arbitrary: m i)
  case 0
  have "on_entries p (\<lambda>j. i - 1 \<le> j \<and> j + 1 < i + 0) (\<lambda>j. entry_at (st m) p (j + 1)) (st m) = st m"
    by (auto simp: fun_eq_iff on_entries_def split: field.splits)
  then show ?case using goes_some [OF 0(1)] by simp
next
  case (Suc n)
  have a: "sub16 i 1 = i - 1" using Suc.prems by (simp add: sub16_def mod_if)
  have w: "goes P (write_page_entry M m p (i - 1) (st m (FKey p i)) (st m (FVal p i)))
      (put_entry (st m) p (i - 1) (st m (FKey p i), st m (FVal p i)))"
    using Suc.prems assms(2,3) by (intro write_entry_law) simp_all
  show ?case
    using read_laws(9) [OF Suc.prems(1) assms(2,3), of i] Suc.prems(2,3) unfolding shift_down.simps a
  proof (simp, intro goes_bind [OF w [simplified]])
    fix m' assume m': "has P m'" "st m' = put_entry (st m) p (i - Suc 0) (st m (FKey p i), st m (FVal p i))"
    show "goes P (shift_down M m' p (Suc i) n) (on_entries p (\<lambda>j. i - Suc 0 \<le> j \<and> j < i + n) (\<lambda>j. entry_at (st m) p (Suc j)) (st m))"
      using Suc.prems(2,3) by (intro goes_eq [OF Suc.IH [OF m'(1), of "Suc i"]])
        (auto simp: fun_eq_iff m'(2) on_entries_def put_entry_def entry_at_def split: field.splits)
  qed
qed

lemma shift_dir_up_law:
  assumes "has P m" "pos + n < 8192"
  shows "goes P (shift_dir_up M m pos n) (on_dir (\<lambda>i. pos < i \<and> i \<le> pos + n) (\<lambda>i. dir_at (st m) (i - 1)) (st m))"
  using assms
proof (induction n arbitrary: m)
  case 0
  have "on_dir (\<lambda>i. pos < i \<and> i \<le> pos + 0) (\<lambda>i. dir_at (st m) (i - 1)) (st m) = st m"
    by (auto simp: fun_eq_iff on_dir_def split: field.splits)
  then show ?case using goes_some [OF 0(1)] by simp
next
  case (Suc n)
  have a: "add64 (pos + n) 1 = pos + n + 1" using Suc.prems(2) by (simp add: add64_def)
  let ?e = "\<lparr>de_min_key = st m (FDirMin (pos + n)), de_page_id = st m (FDirPage (pos + n))\<rparr>"
  have w: "goes P (pom_write_dir_entry M m (pos + n + 1) ?e) (put_dir (st m) (pos + n + 1) (dir_at (st m) (pos + n)))"
    using write_dir_law [OF Suc.prems(1), of "pos + n + 1" ?e] Suc.prems(2) by (simp add: dir_at_def)
  show ?case
    using read_laws(8) [OF Suc.prems(1), of "pos + n"] Suc.prems(2) unfolding shift_dir_up.simps a
  proof (simp, intro goes_bind [OF w [simplified]])
    fix m' assume m': "has P m'" "st m' = put_dir (st m) (Suc (pos + n)) (dir_at (st m) (pos + n))"
    show "goes P (shift_dir_up M m' pos n) (on_dir (\<lambda>i. pos < i \<and> i \<le> Suc (pos + n)) (\<lambda>i. dir_at (st m) (i - Suc 0)) (st m))"
      using Suc.prems(2) by (intro goes_eq [OF Suc.IH [OF m'(1)]])
        (auto simp: fun_eq_iff m'(2) on_dir_def put_dir_def dir_at_def le_Suc_eq split: field.splits)
  qed
qed

lemma shift_dir_down_law:
  assumes "has P m" "0 < i" "i + n \<le> 8192"
  shows "goes P (shift_dir_down M m i n) (on_dir (\<lambda>j. i - 1 \<le> j \<and> j + 1 < i + n) (\<lambda>j. dir_at (st m) (j + 1)) (st m))"
  using assms
proof (induction n arbitrary: m i)
  case 0
  have "on_dir (\<lambda>j. i - 1 \<le> j \<and> j + 1 < i + 0) (\<lambda>j. dir_at (st m) (j + 1)) (st m) = st m"
    by (auto simp: fun_eq_iff on_dir_def split: field.splits)
  then show ?case using goes_some [OF 0(1)] by simp
next
  case (Suc n)
  have a: "sub64 i 1 = i - 1" using Suc.prems by (simp add: sub64_exact)
  let ?e = "\<lparr>de_min_key = st m (FDirMin i), de_page_id = st m (FDirPage i)\<rparr>"
  have w: "goes P (pom_write_dir_entry M m (i - 1) ?e) (put_dir (st m) (i - 1) (dir_at (st m) i))"
    using write_dir_law [OF Suc.prems(1), of "i - 1" ?e] Suc.prems(3) by (simp add: dir_at_def)
  show ?case
    using read_laws(8) [OF Suc.prems(1), of i] Suc.prems(2,3) unfolding shift_dir_down.simps a
  proof (simp, intro goes_bind [OF w [simplified]])
    fix m' assume m': "has P m'" "st m' = put_dir (st m) (i - Suc 0) (dir_at (st m) i)"
    show "goes P (shift_dir_down M m' (Suc i) n) (on_dir (\<lambda>j. i - Suc 0 \<le> j \<and> j < i + n) (\<lambda>j. dir_at (st m) (Suc j)) (st m))"
      using Suc.prems(2,3) by (intro goes_eq [OF Suc.IH [OF m'(1), of "Suc i"]])
        (auto simp: fun_eq_iff m'(2) on_dir_def put_dir_def dir_at_def split: field.splits)
  qed
qed

lemma write_entries_law:
  assumes "has P m" "0 < p" "p \<le> P" "i + length es \<le> 64" "\<forall>e\<in>set es. fst e < 2 ^ 64 \<and> snd e < 2 ^ 64"
  shows "goes P (write_entries M m p i es) (on_entries p (\<lambda>j. i \<le> j \<and> j < i + length es) (\<lambda>j. es ! (j - i)) (st m))"
  using assms(1,4,5)
proof (induction es arbitrary: m i)
  case Nil
  have "on_entries p (\<lambda>j. i \<le> j \<and> j < i + length []) (\<lambda>j. [] ! (j - i)) (st m) = st m"
    by (auto simp: fun_eq_iff on_entries_def split: field.splits)
  then show ?case using goes_some [OF Nil(1)] by simp
next
  case (Cons e es)
  obtain k v where e: "e = (k, v)" by (cases e)
  have w: "goes P (write_page_entry M m p (i mod 2 ^ 16) k v) (put_entry (st m) p i (k, v))"
    using Cons.prems e assms(2,3) write_entry_law [of P m p i k v] by simp
  show ?case unfolding e write_entries.simps
  proof (rule goes_bind [OF w])
    fix m' assume m': "has P m'" "st m' = put_entry (st m) p i (k, v)"
    show "goes P (write_entries M m' p (Suc i) es)
        (on_entries p (\<lambda>j. i \<le> j \<and> j < i + length ((k, v) # es)) (\<lambda>j. ((k, v) # es) ! (j - i)) (st m))"
      using Cons.prems by (intro goes_eq [OF Cons.IH [OF m'(1), of "Suc i"]])
        (auto simp: fun_eq_iff m'(2) on_entries_def put_entry_def nth_Cons' Suc_le_eq le_less split: field.splits)
  qed
qed

end

text \<open>What the lists read after inserting, removing and filling.\<close>

lemma ents_inserted:
  assumes "pos \<le> n"
  shows "ents (put_entry (on_entries p (\<lambda>i. pos < i \<and> i \<le> pos + (n - pos)) (\<lambda>i. entry_at s p (i - 1)) s) p pos e) p (Suc n)
    = take pos (ents s p n) @ e # drop pos (ents s p n)"
  using assms by (intro nth_equalityI) (auto simp: put_entry_def entry_at_def nth_append nth_Cons' less_Suc_eq)

lemma ents_removed:
  assumes "pos < n"
  shows "ents (on_entries p (\<lambda>j. pos \<le> j \<and> j + 1 < n) (\<lambda>j. entry_at s p (j + 1)) s) p (n - 1)
    = take pos (ents s p n) @ drop (Suc pos) (ents s p n)"
  using assms by (intro nth_equalityI) (auto simp: entry_at_def nth_append)

lemma ents_filled: "ents (on_entries p (\<lambda>j. 0 \<le> j \<and> j < 0 + length es) (\<lambda>j. es ! (j - 0)) s) p (length es) = es"
  by (intro nth_equalityI) auto

lemma dirs_inserted:
  assumes "pos \<le> n"
  shows "dirs (put_dir (on_dir (\<lambda>i. pos < i \<and> i \<le> pos + (n - pos)) (\<lambda>i. dir_at s (i - 1)) s) pos e) (Suc n)
    = take pos (dirs s n) @ e # drop pos (dirs s n)"
  using assms by (intro nth_equalityI) (auto simp: put_dir_def dir_at_def nth_append nth_Cons' less_Suc_eq)

lemma dirs_removed:
  assumes "pos < n"
  shows "dirs (put_dir (on_dir (\<lambda>j. pos \<le> j \<and> j + 1 < n) (\<lambda>j. dir_at s (j + 1)) s) (n - 1) e) (n - 1)
    = take pos (dirs s n) @ drop (Suc pos) (dirs s n)"
  using assms by (intro nth_equalityI) (auto simp: put_dir_def dir_at_def nth_append)

section \<open>Searching\<close>

context byte_memory
begin

lemma find_dir_law:
  assumes "has P m" "i + n \<le> 8192"
  shows "find_dir M m page i n = Some (List.find (\<lambda>j. st m (FDirPage j) = page) [i..<i + n])"
  using assms(2)
proof (induction n arbitrary: i)
  case (Suc n)
  then show ?case using read_laws(8) [OF assms(1), of i] Suc.IH [of "Suc i"] by (simp add: upt_rec)
qed simp

lemma dir_search_law:
  assumes "has P m" "N \<le> 8192" "\<And>i j. i < j \<Longrightarrow> j < N \<Longrightarrow> st m (FDirMin i) < st m (FDirMin j)"
    "lo \<le> hi" "hi \<le> N" "\<forall>j<lo. st m (FDirMin j) \<le> key" "\<forall>j. hi \<le> j \<and> j < N \<longrightarrow> key < st m (FDirMin j)"
  shows "\<exists>r\<le>N. dir_search M m key lo hi = Some r \<and> (\<forall>j<r. st m (FDirMin j) \<le> key) \<and> (\<forall>j. r \<le> j \<and> j < N \<longrightarrow> key < st m (FDirMin j))"
  using assms(4-7)
proof (induction "hi - lo" arbitrary: lo hi rule: less_induct)
  case less
  show ?case
  proof (cases "lo < hi")
    case False
    then show ?thesis using less.prems by (subst dir_search.simps) auto
  next
    case True
    let ?mid = "(lo + hi) div 2"
    have mid: "lo \<le> ?mid" "?mid < hi" using True by linarith+
    have r: "read_dir_entry M m ?mid = Some \<lparr>de_min_key = st m (FDirMin ?mid), de_page_id = st m (FDirPage ?mid)\<rparr>"
      using mid less.prems(2) assms(2) by (intro read_laws(8) [OF assms(1)]) linarith
    show ?thesis
    proof (cases "st m (FDirMin ?mid) \<le> key")
      case le: True
      have "\<forall>j<?mid + 1. st m (FDirMin j) \<le> key"
        using assms(3) [of _ ?mid] le mid less.prems(2) by (metis Suc_eq_plus1 less_Suc_eq less_imp_le_nat less_le_trans order_trans)
      then show ?thesis using less.hyps [of hi "?mid + 1"] mid less.prems(2,4) r le True by (subst dir_search.simps) (simp add: Let_def)
    next
      case gt: False
      have "\<forall>j. ?mid \<le> j \<and> j < N \<longrightarrow> key < st m (FDirMin j)"
        using assms(3) [of ?mid] gt by (metis le_neq_implies_less less_trans not_less)
      then show ?thesis using less.hyps [of ?mid lo] mid less.prems(2,3) r gt True by (subst dir_search.simps) (simp add: Let_def)
    qed
  qed
qed

lemma page_search_law:
  assumes "has P m" "0 < p" "p \<le> P" "n \<le> 64" "ascending (ents (st m) p n)"
    "lo \<le> hi" "hi \<le> n" "\<forall>j<lo. st m (FKey p j) < key" "\<forall>j. hi \<le> j \<and> j < n \<longrightarrow> key < st m (FKey p j)"
  shows "(\<exists>i<n. page_search_loop M m p key lo hi = Some (Inr i) \<and> st m (FKey p i) = key)
    \<or> (\<exists>i. page_search_loop M m p key lo hi = Some (Inl i) \<and> belongs key (ents (st m) p n) i)"
  using assms(6-9)
proof (induction "hi - lo" arbitrary: lo hi rule: less_induct)
  case less
  have mono: "st m (FKey p i) < st m (FKey p j)" if "i < j" "j < n" for i j using ascending_nth [OF assms(5), of i j] that by simp
  show ?case
  proof (cases "lo < hi")
    case False
    then have "page_search_loop M m p key lo hi = Some (Inl lo)" by (simp add: page_search_loop.simps)
    then show ?thesis using False less.prems by (auto simp: belongs_def)
  next
    case True
    let ?mid = "lo + (hi - lo) div 2"
    have mid: "lo \<le> ?mid" "?mid < hi" using True by linarith+
    have r: "read_page_entry M m p ?mid = Some (st m (FKey p ?mid), st m (FVal p ?mid))"
      using mid less.prems(2) assms(4) by (intro read_laws(9) [OF assms(1-3)]) linarith
    consider "st m (FKey p ?mid) = key" | "st m (FKey p ?mid) < key" | "key < st m (FKey p ?mid)" by linarith
    then show ?thesis
    proof cases
      case 1
      then have "page_search_loop M m p key lo hi = Some (Inr ?mid)" using True r by (subst page_search_loop.simps) (simp add: Let_def)
      then show ?thesis using 1 mid less.prems(2) by auto
    next
      case 2
      have "\<forall>j<?mid + 1. st m (FKey p j) < key"
      proof (intro allI impI)
        fix j assume "j < ?mid + 1"
        then consider "j = ?mid" | "j < ?mid" by linarith
        then show "st m (FKey p j) < key" using mono [of j ?mid] 2 mid(2) less.prems(2) by cases auto
      qed
      moreover have "page_search_loop M m p key lo hi = page_search_loop M m p key (?mid + 1) hi"
        using True r 2 by (subst page_search_loop.simps) (simp add: Let_def)
      ultimately show ?thesis using less.hyps [of hi "?mid + 1"] mid less.prems(2,4) True by simp
    next
      case 3
      have "\<forall>j. ?mid \<le> j \<and> j < n \<longrightarrow> key < st m (FKey p j)"
      proof (intro allI impI)
        fix j assume "?mid \<le> j \<and> j < n"
        then consider "j = ?mid" | "?mid < j" "j < n" by linarith
        then show "key < st m (FKey p j)" using mono [of ?mid j] 3 by cases auto
      qed
      moreover have "page_search_loop M m p key lo hi = page_search_loop M m p key lo ?mid"
        using True r 3 by (subst page_search_loop.simps) (simp add: Let_def)
      ultimately show ?thesis using less.hyps [of ?mid lo] mid less.prems(2,3) True by simp
    qed
  qed
qed

lemma page_upper_law:
  assumes "has P m" "0 < p" "p \<le> P" "n \<le> 64" "ascending (ents (st m) p n)"
    "lo \<le> hi" "hi \<le> n" "\<forall>j<lo. st m (FKey p j) \<le> key" "\<forall>j. hi \<le> j \<and> j < n \<longrightarrow> key < st m (FKey p j)"
  shows "\<exists>i\<le>n. page_upper_loop M m p key lo hi = Some i \<and> (\<forall>j<i. st m (FKey p j) \<le> key) \<and> (\<forall>j. i \<le> j \<and> j < n \<longrightarrow> key < st m (FKey p j))"
  using assms(6-9)
proof (induction "hi - lo" arbitrary: lo hi rule: less_induct)
  case less
  have mono: "st m (FKey p i) < st m (FKey p j)" if "i < j" "j < n" for i j using ascending_nth [OF assms(5), of i j] that by simp
  show ?case
  proof (cases "lo < hi")
    case False
    then have "page_upper_loop M m p key lo hi = Some lo" by (simp add: page_upper_loop.simps)
    then show ?thesis using False less.prems by auto
  next
    case True
    let ?mid = "lo + (hi - lo) div 2"
    have mid: "lo \<le> ?mid" "?mid < hi" using True by linarith+
    have r: "read_page_entry M m p ?mid = Some (st m (FKey p ?mid), st m (FVal p ?mid))"
      using mid less.prems(2) assms(4) by (intro read_laws(9) [OF assms(1-3)]) linarith
    show ?thesis
    proof (cases "st m (FKey p ?mid) \<le> key")
      case le: True
      have "\<forall>j<?mid + 1. st m (FKey p j) \<le> key"
      proof (intro allI impI)
        fix j assume "j < ?mid + 1"
        then consider "j = ?mid" | "j < ?mid" by linarith
        then show "st m (FKey p j) \<le> key" using mono [of j ?mid] le mid(2) less.prems(2) by cases auto
      qed
      moreover have "page_upper_loop M m p key lo hi = page_upper_loop M m p key (?mid + 1) hi"
        using True r le by (subst page_upper_loop.simps) (simp add: Let_def)
      ultimately show ?thesis using less.hyps [of hi "?mid + 1"] mid less.prems(2,4) True by simp
    next
      case gt: False
      have "\<forall>j. ?mid \<le> j \<and> j < n \<longrightarrow> key < st m (FKey p j)"
      proof (intro allI impI)
        fix j assume "?mid \<le> j \<and> j < n"
        then consider "j = ?mid" | "?mid < j" "j < n" by linarith
        then show "key < st m (FKey p j)" using mono [of ?mid j] gt by cases auto
      qed
      moreover have "page_upper_loop M m p key lo hi = page_upper_loop M m p key lo ?mid"
        using True r gt by (subst page_upper_loop.simps) (simp add: Let_def)
      ultimately show ?thesis using less.hyps [of ?mid lo] mid less.prems(2,3) True by simp
    qed
  qed
qed

lemma collect_split_law:
  assumes "has P m" "0 < p" "p \<le> P" "i + n \<le> 64" "es = drop i (ents (st m) p (i + n))"
  shows "collect_split M m p key v i n inserted acc = Some (acc @ (if inserted then es
    else takeWhile (\<lambda>e. \<not> key < fst e) es @ (key, v) # dropWhile (\<lambda>e. \<not> key < fst e) es))"
  using assms(4,5)
proof (induction n arbitrary: i inserted acc es)
  case (Suc n)
  let ?e = "(st m (FKey p i), st m (FVal p i))" and ?es = "drop (Suc i) (ents (st m) p (Suc i + n))"
  have r: "read_page_entry M m p i = Some ?e" using Suc.prems(1) by (intro read_laws(9) [OF assms(1-3)]) simp
  have es: "es = ?e # ?es" using Suc.prems(2) by (simp add: Cons_nth_drop_Suc [symmetric])
  have "Suc i + n \<le> 64" using Suc.prems(1) by simp
  note IH = Suc.IH [OF this refl]
  show ?case using r IH by (simp add: es del: drop_Suc_Cons)
qed simp

end

end
