(* ===== verification/Paged_Invariant.thy ===== *)
theory Paged_Invariant
  imports Paged_Stores
begin

text \<open>
  When a store holds an ordered map: its pages in key order with their entries, linked both ways and
  listed in the directory, and a free list of other pages. The lemmas say which changes of the store keep
  this, one for each way the operations change the pages.
\<close>

section \<open>The invariant\<close>

type_synonym pages = "(nat \<times> (nat \<times> nat) list) list"

definition page_at :: "store \<Rightarrow> nat \<Rightarrow> (nat \<times> nat) list \<Rightarrow> nat \<Rightarrow> nat \<Rightarrow> bool" where
  "page_at s p es prev nxt \<longleftrightarrow> s (FFlags p) = 1 \<and> s (FPageLen p) = length es \<and> s (FPrev p) = prev \<and> s (FNext p) = nxt
     \<and> es \<noteq> [] \<and> length es \<le> 64 \<and> ents s p (length es) = es"

definition head_id :: "pages \<Rightarrow> nat \<Rightarrow> nat" where
  "head_id ps nxt = (if ps = [] then nxt else fst (hd ps))"

definition last_id :: "nat \<Rightarrow> pages \<Rightarrow> nat" where
  "last_id prev ps = (if ps = [] then prev else fst (last ps))"

fun linked :: "store \<Rightarrow> nat \<Rightarrow> pages \<Rightarrow> nat \<Rightarrow> bool" where
  "linked s prev [] nxt \<longleftrightarrow> True"
| "linked s prev ((p, es) # ps) nxt \<longleftrightarrow> page_at s p es prev (head_id ps nxt) \<and> linked s p ps nxt"

fun free_chain :: "store \<Rightarrow> nat \<Rightarrow> nat list \<Rightarrow> bool" where
  "free_chain s q [] \<longleftrightarrow> q = 0"
| "free_chain s q (p # fl) \<longleftrightarrow> q = p \<and> s (FFlags p) = 0 \<and> free_chain s (s (FFreeNext p)) fl"

definition entries_of :: "pages \<Rightarrow> (nat \<times> nat) list" where
  "entries_of ps = concat (map snd ps)"

definition dir_of :: "nat \<times> (nat \<times> nat) list \<Rightarrow> nat \<times> nat" where
  "dir_of q = (fst (hd (snd q)), fst q)"

definition pom_core :: "store \<Rightarrow> pages \<Rightarrow> nat list \<Rightarrow> bool" where
  "pom_core s ps fl \<longleftrightarrow> s FMagic = from_le POM_MAGIC \<and> s FVersion = 1 \<and> s FDirCap = 8192
     \<and> s FDirLen = length ps \<and> length ps \<le> 8192 \<and> dirs s (length ps) = map dir_of ps \<and> linked s 0 ps 0
     \<and> s FFirst = head_id ps 0 \<and> s FLast = last_id 0 ps \<and> s FLen = length (entries_of ps) \<and> ascending (entries_of ps)
     \<and> free_chain s (s FFree) fl \<and> distinct (map fst ps @ fl) \<and> set (map fst ps @ fl) \<subseteq> {1..s FCount}"

text \<open>Between operations an empty map has no pages at all.\<close>

definition pom_inv :: "store \<Rightarrow> pages \<Rightarrow> nat list \<Rightarrow> bool" where
  "pom_inv s ps fl \<longleftrightarrow> pom_core s ps fl \<and> (ps = [] \<longrightarrow> s FCount = 0)"

section \<open>Frames\<close>

lemma ids_simps [simp]:
  "head_id [] n = n" "head_id (q # ps) n = fst q" "last_id n [] = n" "last_id n (ps @ [q]) = fst q"
  by (simp_all add: head_id_def last_id_def)

lemma last_id_Cons: "last_id n (q # ps) = last_id (fst q) ps"
  by (simp add: last_id_def)

lemma head_id_append: "head_id (ps @ qs) n = head_id ps (head_id qs n)"
  by (simp add: head_id_def)

lemma last_id_append: "last_id n (ps @ qs) = last_id (last_id n ps) qs"
  by (simp add: last_id_def)

lemma linked_append: "linked s prev (ps @ qs) nxt \<longleftrightarrow> linked s prev ps (head_id qs nxt) \<and> linked s (last_id prev ps) qs nxt"
proof (induction ps arbitrary: prev)
  case (Cons q ps)
  obtain p es where "q = (p, es)" by (cases q)
  then show ?case using Cons.IH [of p] by (simp add: head_id_append last_id_Cons)
qed simp

lemma entries_simps [simp]: "entries_of [] = []" "entries_of (q # ps) = snd q @ entries_of ps" "entries_of (ps @ qs) = entries_of ps @ entries_of qs"
  by (simp_all add: entries_of_def)

lemma page_at_cong: "(\<And>f. f_page f = p \<Longrightarrow> s' f = s f) \<Longrightarrow> page_at s' p es prev nxt = page_at s p es prev nxt"
  by (simp add: page_at_def ents_def)

lemma linked_cong: "(\<And>f. f_page f \<in> fst ` set ps \<Longrightarrow> s' f = s f) \<Longrightarrow> linked s' prev ps nxt = linked s prev ps nxt"
proof (induction ps arbitrary: prev)
  case (Cons q ps)
  obtain p es where q: "q = (p, es)" by (cases q)
  have "page_at s' p es prev (head_id ps nxt) = page_at s p es prev (head_id ps nxt)" using Cons.prems q by (intro page_at_cong) simp
  then show ?case using Cons q by simp
qed simp

lemma linked_next:
  assumes "linked s prev ps nxt" "ps \<noteq> []" "distinct (map fst ps)" "\<And>f. f_page f \<in> fst ` set ps \<Longrightarrow> f \<noteq> FNext (fst (last ps)) \<Longrightarrow> s' f = s f"
    "s' (FNext (fst (last ps))) = nxt'"
  shows "linked s' prev ps nxt'"
proof -
  obtain qs p es where ps: "ps = qs @ [(p, es)]" using assms(2) by (metis append_butlast_last_id surj_pair)
  have "s' f = s f" if "f_page f \<in> fst ` set qs" for f
  proof -
    have "f_page f \<noteq> p" using assms(3) ps that by auto
    then have "f \<noteq> FNext p" by auto
    then show ?thesis using assms(4) [of f] ps that by simp
  qed
  then have "linked s' prev qs p = linked s prev qs p" by (rule linked_cong)
  moreover have "page_at s' p es (last_id prev qs) nxt'"
  proof -
    have "ents s' p n = ents s p n" for n using assms(4) ps by (auto simp: ents_def)
    then show ?thesis using assms(1,4,5) ps by (simp add: linked_append page_at_def)
  qed
  ultimately show ?thesis using assms(1) ps by (simp add: linked_append)
qed

lemma linked_prev:
  assumes "linked s prev ps nxt" "ps \<noteq> []" "distinct (map fst ps)" "\<And>f. f_page f \<in> fst ` set ps \<Longrightarrow> f \<noteq> FPrev (fst (hd ps)) \<Longrightarrow> s' f = s f"
    "s' (FPrev (fst (hd ps))) = prev'"
  shows "linked s' prev' ps nxt"
proof -
  obtain qs p es where ps: "ps = (p, es) # qs" using assms(2) by (metis list.exhaust surj_pair)
  have "s' f = s f" if "f_page f \<in> fst ` set qs" for f
  proof -
    have "f_page f \<noteq> p" using assms(3) ps that by auto
    then have "f \<noteq> FPrev p" by auto
    then show ?thesis using assms(4) [of f] ps that by simp
  qed
  then have "linked s' p qs nxt = linked s p qs nxt" by (rule linked_cong)
  moreover have "page_at s' p es prev' (head_id qs nxt)"
  proof -
    have "ents s' p n = ents s p n" for n using assms(4) ps by (auto simp: ents_def)
    then show ?thesis using assms(1,4,5) ps by (simp add: page_at_def)
  qed
  ultimately show ?thesis using assms(1) ps by simp
qed

lemma free_chain_cong: "(\<And>p. p \<in> set fl \<Longrightarrow> s' (FFlags p) = s (FFlags p) \<and> s' (FFreeNext p) = s (FFreeNext p)) \<Longrightarrow> free_chain s' q fl = free_chain s q fl"
  by (induction fl arbitrary: q) auto

lemma dirs_cong: "(\<And>i. i < n \<Longrightarrow> s' (FDirMin i) = s (FDirMin i) \<and> s' (FDirPage i) = s (FDirPage i)) \<Longrightarrow> dirs s' n = dirs s n"
  by (simp add: dirs_def)

section \<open>A page in the middle\<close>

lemma core_facts:
  assumes "pom_core s ps fl"
  shows "s FMagic = from_le POM_MAGIC" "s FVersion = 1" "s FDirCap = 8192" "s FDirLen = length ps" "length ps \<le> 8192"
    "dirs s (length ps) = map dir_of ps" "linked s 0 ps 0" "s FFirst = head_id ps 0" "s FLast = last_id 0 ps" "s FLen = length (entries_of ps)"
    "ascending (entries_of ps)" "free_chain s (s FFree) fl" "distinct (map fst ps @ fl)" "set (map fst ps @ fl) \<subseteq> {1..s FCount}"
  using assms unfolding pom_core_def by - (elim conjE, assumption)+

lemma inv_page:
  assumes "pom_core s (A @ (p, es) # C) fl"
  shows "1 \<le> p" "p \<le> s FCount" "page_at s p es (last_id 0 A) (head_id C 0)" "ascending es"
    "\<forall>a\<in>set (entries_of A). \<forall>e\<in>set es. fst a < fst e" "\<forall>e\<in>set es. \<forall>c\<in>set (entries_of C). fst e < fst c"
    "\<forall>a\<in>set (entries_of A). \<forall>c\<in>set (entries_of C). fst a < fst c"
    "p \<notin> fst ` set A" "p \<notin> fst ` set C" "p \<notin> set fl" "s (FDirMin (length A)) = fst (hd es)" "s (FDirPage (length A)) = p"
    "length A < 8192"
proof -
  have i: "dirs s (length (A @ (p, es) # C)) = map dir_of (A @ (p, es) # C)" using assms by (simp add: pom_core_def)
  have "dirs s (length (A @ (p, es) # C)) ! length A = dir_of (p, es)" unfolding i by (simp add: nth_append)
  then show "s (FDirMin (length A)) = fst (hd es)" "s (FDirPage (length A)) = p" by (simp_all add: dir_of_def)
  show "1 \<le> p" "p \<le> s FCount" "page_at s p es (last_id 0 A) (head_id C 0)" "ascending es"
    "\<forall>a\<in>set (entries_of A). \<forall>e\<in>set es. fst a < fst e" "\<forall>e\<in>set es. \<forall>c\<in>set (entries_of C). fst e < fst c"
    "\<forall>a\<in>set (entries_of A). \<forall>c\<in>set (entries_of C). fst a < fst c"
    "p \<notin> fst ` set A" "p \<notin> fst ` set C" "p \<notin> set fl" "length A < 8192"
    using assms by (auto simp: pom_core_def linked_append ascending_append)
qed

lemma inv_replace:
  assumes "pom_core s (A @ (p, es) # C) fl" "es' \<noteq> []" "length es' \<le> 64" "ascending (entries_of A @ es' @ entries_of C)"
    "\<And>f. f_page f \<noteq> p \<Longrightarrow> f \<noteq> FLen \<Longrightarrow> f \<noteq> FDirMin (length A) \<Longrightarrow> s' f = s f"
    "s' (FFlags p) = 1" "s' (FPageLen p) = length es'" "s' (FPrev p) = s (FPrev p)" "s' (FNext p) = s (FNext p)"
    "ents s' p (length es') = es'" "s' FLen = length (entries_of A @ es' @ entries_of C)" "s' (FDirMin (length A)) = fst (hd es')"
  shows "pom_core s' (A @ (p, es') # C) fl"
proof -
  note P = inv_page [OF assms(1)] and I = core_facts [OF assms(1)]
  have p0: "p \<noteq> 0" using P(1) by simp
  have pos: "0 \<notin> fst ` set A" "0 \<notin> fst ` set C" "0 \<notin> set fl" using I(14) by auto
  have hd: "s' FMagic = s FMagic" "s' FVersion = s FVersion" "s' FDirCap = s FDirCap" "s' FDirLen = s FDirLen" "s' FFirst = s FFirst" "s' FLast = s FLast"
    "s' FCount = s FCount" "s' FFree = s FFree" using assms(5) p0 by simp_all
  have "dirs s' (length (A @ (p, es') # C)) = (dirs s (length (A @ (p, es) # C)))[length A := dir_of (p, es')]"
    using assms(5,12) p0 P(12) by (intro nth_equalityI) (auto simp: nth_list_update dir_of_def)
  also have "\<dots> = map dir_of (A @ (p, es') # C)" using I(6) by (simp add: list_update_append)
  finally have d: "dirs s' (length (A @ (p, es') # C)) = map dir_of (A @ (p, es') # C)" .
  have other: "s' f = s f" if "f_page f \<in> Q" "p \<notin> Q" "0 \<notin> Q" for f Q
  proof -
    have "f_page f \<noteq> 0" "f_page f \<noteq> p" using that by metis+
    then have "f \<noteq> FLen" "f \<noteq> FDirMin (length A)" by auto
    then show ?thesis using assms(5) \<open>f_page f \<noteq> p\<close> by blast
  qed
  have "linked s' 0 A p = linked s 0 A p" using P(8) pos(1) by (intro linked_cong) (rule other)
  moreover have "linked s' p C 0 = linked s p C 0" using P(9) pos(2) by (intro linked_cong) (rule other)
  ultimately have l: "linked s' 0 (A @ (p, es') # C) 0"
    using I(7) assms(2,3,6-10) P(3) by (simp add: linked_append page_at_def)
  have "free_chain s' (s FFree) fl = free_chain s (s FFree) fl" using P(10) pos(3) by (intro free_chain_cong conjI; intro other [of _ "set fl"]) simp_all
  then have f: "free_chain s' (s' FFree) fl" using I(12) hd(8) by simp
  have ids: "head_id (A @ (p, es') # C) 0 = head_id (A @ (p, es) # C) 0" "last_id 0 (A @ (p, es') # C) = last_id 0 (A @ (p, es) # C)"
    by (simp_all add: head_id_append last_id_append last_id_Cons)
  show ?thesis unfolding pom_core_def using I(1-5,8,9,13,14) assms(4,11) d l f hd ids by simp
qed

section \<open>Unlinking, splitting and the first page\<close>

text \<open>The store after a page is taken out of the chain and the directory and put on the free list.\<close>

definition unlinked :: "store \<Rightarrow> pages \<Rightarrow> nat \<Rightarrow> pages \<Rightarrow> store \<Rightarrow> bool" where
  "unlinked s A p C s' \<longleftrightarrow> (\<forall>f. f_page f \<noteq> 0 \<and> f_page f \<noteq> p \<and> \<not> (A \<noteq> [] \<and> f = FNext (last_id 0 A)) \<and> \<not> (C \<noteq> [] \<and> f = FPrev (head_id C 0)) \<longrightarrow> s' f = s f)
     \<and> (A \<noteq> [] \<longrightarrow> s' (FNext (last_id 0 A)) = head_id C 0) \<and> (C \<noteq> [] \<longrightarrow> s' (FPrev (head_id C 0)) = last_id 0 A)
     \<and> s' FFirst = head_id (A @ C) 0 \<and> s' FLast = last_id 0 (A @ C) \<and> s' (FFlags p) = 0 \<and> s' (FFreeNext p) = s FFree \<and> s' FFree = p
     \<and> dirs s' (length (A @ C)) = map dir_of (A @ C) \<and> s' FDirLen = length (A @ C) \<and> s' FCount = s FCount \<and> s' FLen = s FLen
     \<and> s' FMagic = s FMagic \<and> s' FVersion = s FVersion \<and> s' FDirCap = s FDirCap"

lemma core_unlinked:
  assumes "pom_core s (A @ (p, es) # C) fl" "unlinked s A p C s'"
  shows "pom_core (s'(FLen := length (entries_of (A @ C)))) (A @ C) (p # fl)"
proof -
  let ?s = "s'(FLen := length (entries_of (A @ C)))"
  note P = inv_page [OF assms(1)] and I = core_facts [OF assms(1)] and U = assms(2) [unfolded unlinked_def]
  have pos: "0 \<notin> fst ` set A" "0 \<notin> fst ` set C" "0 \<notin> set fl" using I(14) by auto
  have dis: "distinct (map fst A)" "distinct (map fst C)" "fst ` set A \<inter> fst ` set C = {}" using I(13) by auto
  have la: "last_id 0 A \<in> fst ` set A" if "A \<noteq> []" using that by (simp add: last_id_def)
  have hc: "head_id C 0 \<in> fst ` set C" if "C \<noteq> []" using that by (simp add: head_id_def)
  have keep: "?s f = s f" if "f_page f \<in> Q" "p \<notin> Q" "0 \<notin> Q" "A \<noteq> [] \<Longrightarrow> f \<noteq> FNext (last_id 0 A)" "C \<noteq> [] \<Longrightarrow> f \<noteq> FPrev (head_id C 0)" for f Q
  proof -
    have "f_page f \<noteq> 0" "f_page f \<noteq> p" using that(1-3) by metis+
    then have "s' f = s f" "f \<noteq> FLen" using U that(4,5) by auto
    then show ?thesis by simp
  qed
  have lA: "linked ?s 0 A (head_id C 0)"
  proof (cases "A = []")
    case False
    have "linked s 0 A p" using I(7) by (simp add: linked_append)
    then show ?thesis
    proof (rule linked_next [OF _ False dis(1)])
      show "?s (FNext (fst (last A))) = head_id C 0" using U False by (simp add: last_id_def)
      fix f assume f: "f_page f \<in> fst ` set A" "f \<noteq> FNext (fst (last A))"
      have "f \<noteq> FPrev (head_id C 0)" if "C \<noteq> []" using hc [OF that] f(1) dis(3) by (metis IntI empty_iff f_page.simps(3))
      then show "?s f = s f" using f False P(8) pos(1) by (intro keep [OF f(1)]) (simp_all add: last_id_def)
    qed
  qed simp
  have lC: "linked ?s (last_id 0 A) C 0"
  proof (cases "C = []")
    case False
    have "linked s p C 0" using I(7) by (simp add: linked_append)
    then show ?thesis
    proof (rule linked_prev [OF _ False dis(2)])
      show "?s (FPrev (fst (hd C))) = last_id 0 A" using U False by (simp add: head_id_def)
      fix f assume f: "f_page f \<in> fst ` set C" "f \<noteq> FPrev (fst (hd C))"
      have "f \<noteq> FNext (last_id 0 A)" if "A \<noteq> []" using la [OF that] f(1) dis(3) by (metis IntI empty_iff f_page.simps(4))
      then show "?s f = s f" using f False P(9) pos(2) by (intro keep [OF f(1)]) (simp_all add: head_id_def)
    qed
  qed simp
  have "free_chain ?s (s FFree) fl = free_chain s (s FFree) fl"
    using P(10) pos(3) by (intro free_chain_cong conjI; intro keep [of _ "set fl"]) auto
  then have f: "free_chain ?s (?s FFree) (p # fl)" using U I(12) by simp
  have "dirs ?s (length (A @ C)) = dirs s' (length (A @ C))" by (intro dirs_cong) simp
  then have d: "dirs ?s (length (A @ C)) = map dir_of (A @ C)" using U by simp
  have asc: "ascending (entries_of (A @ C))" using I(11) by (simp add: ascending_append)
  have l: "linked ?s 0 (A @ C) 0" using lA lC by (simp add: linked_append)
  have rest: "distinct (map fst (A @ C) @ p # fl)" "set (map fst (A @ C) @ p # fl) \<subseteq> {1..s FCount}" "length (A @ C) \<le> 8192"
    using I(5,13,14) by auto
  show ?thesis unfolding pom_core_def using I(1-3) U asc d l f rest by simp
qed

lemma core_split:
  assumes "pom_core s (A @ (p, es) # C) fl" "r \<notin> set (map fst (A @ (p, es) # C) @ fl)" "1 \<le> r" "r \<le> s FCount"
    "es1 \<noteq> []" "length es1 \<le> 64" "ascending (entries_of A @ es1 @ es2 @ entries_of C)" "length (A @ (p, es) # C) < 8192"
    "\<And>f. f_page f \<noteq> 0 \<Longrightarrow> f_page f \<noteq> p \<Longrightarrow> f_page f \<noteq> r \<Longrightarrow> \<not> (C \<noteq> [] \<and> f = FPrev (head_id C 0)) \<Longrightarrow> s' f = s f"
    "C \<noteq> [] \<Longrightarrow> s' (FPrev (head_id C 0)) = r" "s' FLast = last_id r C"
    "s' (FFlags p) = 1" "s' (FPageLen p) = length es1" "s' (FPrev p) = s (FPrev p)" "s' (FNext p) = r" "ents s' p (length es1) = es1"
    "page_at s' r es2 p (head_id C 0)" "dirs s' (length A + (length C + 2)) = map dir_of (A @ (p, es1) # (r, es2) # C)"
    "s' FDirLen = length A + (length C + 2)" "s' FLen = length (entries_of A @ es1 @ es2 @ entries_of C)"
    "\<And>f. f \<in> {FMagic, FVersion, FDirCap, FFirst, FFree, FCount} \<Longrightarrow> s' f = s f"
  shows "pom_core s' (A @ (p, es1) # (r, es2) # C) fl"
proof -
  note P = inv_page [OF assms(1)] and I = core_facts [OF assms(1)]
  have pos: "0 \<notin> fst ` set A" "0 \<notin> fst ` set C" "0 \<notin> set fl" using I(14) by auto
  have rn: "r \<noteq> p" "r \<notin> fst ` set A" "r \<notin> fst ` set C" "r \<notin> set fl" using assms(2) by auto
  have dis: "distinct (map fst C)" "fst ` set A \<inter> fst ` set C = {}" "fst ` set C \<inter> set fl = {}" using I(13) by auto
  have hc: "head_id C 0 \<in> fst ` set C" if "C \<noteq> []" using that by (simp add: head_id_def)
  have keep: "s' f = s f" if "f_page f \<in> Q" "p \<notin> Q" "r \<notin> Q" "0 \<notin> Q" "C \<noteq> [] \<Longrightarrow> f \<noteq> FPrev (head_id C 0)" for f Q
    using assms(9) that by metis
  have "s' f = s f" if f: "f_page f \<in> fst ` set A" for f
  proof -
    have "f \<noteq> FPrev (head_id C 0)" if "C \<noteq> []" using hc [OF that] f dis(2) by (metis IntI empty_iff f_page.simps(3))
    then show ?thesis using P(8) rn(2) pos(1) by (intro keep [OF f])
  qed
  then have "linked s' 0 A p = linked s 0 A p" by (rule linked_cong)
  then have lA: "linked s' 0 A p" using I(7) by (simp add: linked_append)
  have lC: "linked s' r C 0"
  proof (cases "C = []")
    case False
    have "linked s p C 0" using I(7) by (simp add: linked_append)
    then show ?thesis
    proof (rule linked_prev [OF _ False dis(1)])
      show "s' (FPrev (fst (hd C))) = r" using assms(10) False by (simp add: head_id_def)
      fix f assume f: "f_page f \<in> fst ` set C" "f \<noteq> FPrev (fst (hd C))"
      then show "s' f = s f" using P(9) pos(2) rn(3) by (intro keep [OF f(1)]) (simp_all add: head_id_def)
    qed
  qed simp
  have "page_at s' p es1 (last_id 0 A) r" using P(3) assms(5,6,12-16) by (simp add: page_at_def)
  then have l: "linked s' 0 (A @ (p, es1) # (r, es2) # C) 0" using lA lC assms(17) by (simp add: linked_append)
  have "free_chain s' (s FFree) fl = free_chain s (s FFree) fl"
    using P(10) pos(3) rn(4) by (intro free_chain_cong conjI; intro keep [of _ "set fl"]) auto
  then have f: "free_chain s' (s' FFree) fl" using I(12) assms(21) by simp
  have ids: "s' FFirst = head_id (A @ (p, es1) # (r, es2) # C) 0" "s' FLast = last_id 0 (A @ (p, es1) # (r, es2) # C)"
    using I(8) assms(11,21) by (simp_all add: head_id_append last_id_append last_id_Cons)
  have rest: "distinct (map fst (A @ (p, es1) # (r, es2) # C) @ fl)" "set (map fst (A @ (p, es1) # (r, es2) # C) @ fl) \<subseteq> {1..s' FCount}"
    using I(13,14) assms(2-4,21) by auto
  show ?thesis unfolding pom_core_def using I(1-3) assms(7,8,18-21) l f ids rest by simp
qed

lemma core_first:
  assumes "pom_core s [] fl" "r \<notin> set fl" "1 \<le> r" "r \<le> s FCount" "\<And>f. f_page f \<noteq> 0 \<Longrightarrow> f_page f \<noteq> r \<Longrightarrow> s' f = s f"
    "page_at s' r [e] 0 0" "dirs s' 1 = [(fst e, r)]" "s' FDirLen = 1" "s' FLen = 1" "s' FFirst = r" "s' FLast = r"
    "\<And>f. f \<in> {FMagic, FVersion, FDirCap, FFree, FCount} \<Longrightarrow> s' f = s f"
  shows "pom_core s' [(r, [e])] fl"
proof -
  note I = core_facts [OF assms(1)]
  have "s' (FFlags q) = s (FFlags q) \<and> s' (FFreeNext q) = s (FFreeNext q)" if "q \<in> set fl" for q
  proof -
    have "q \<noteq> 0" "q \<noteq> r" using that I(14) assms(2) by auto
    then show ?thesis using assms(5) [of "FFlags q"] assms(5) [of "FFreeNext q"] by simp
  qed
  then have "free_chain s' (s FFree) fl = free_chain s (s FFree) fl" by (rule free_chain_cong)
  then show ?thesis unfolding pom_core_def using I(1-3,12-14) assms(2-4,6-12) by (auto simp: dir_of_def ascending_def last_id_Cons)
qed

lemma core_empty: "pom_core s [] fl \<longleftrightarrow> s FMagic = from_le POM_MAGIC \<and> s FVersion = 1 \<and> s FDirCap = 8192 \<and> s FDirLen = 0 \<and> s FFirst = 0
    \<and> s FLast = 0 \<and> s FLen = 0 \<and> free_chain s (s FFree) fl \<and> distinct fl \<and> set fl \<subseteq> {1..s FCount}"
  by (auto simp: pom_core_def dirs_def)

end
