(* ===== verification/Spec2Isabelle.thy ===== *)
theory Spec2Isabelle
  imports Instruction_Budget Message_Sizing Auth_Properties TopK Pending_Log Paged_Invariant
begin

text \<open>
  A verification library for gleaph, a graph database that runs in canisters of the Internet Computer.
  The program is a Rust workspace (\<open>src/crates\<close>). Its canisters keep their data in stable memory, which
  survives upgrades, and split long work over messages under an instruction limit. The library covers
  the layers the canisters are built on: the stable-memory manager and the deque that live in raw memory,
  the codecs and query engine of the full-text postings, authorization with its grant index, and the
  policies that bound the work and the size of a message.

  \<^bold>\<open>Conventions.\<close> Every theory translates its source in the order of the source. A panic of the code is
  \<open>None\<close>, a \<open>Result\<close> is a sum with the error on the left, state is passed explicitly. Integers keep their
  width: words where bits matter, otherwise naturals with the operations \<open>add64\<close>, \<open>mul64\<close> and \<open>sub64\<close> that
  wrap as a release build does, and \<open>checked_\<close> and \<open>sat_\<close> variants. \<open>usize\<close> has 64 bits. Packages outside the
  workspace are records of operations with their contract as a locale: the \<open>Memory\<close> trait
  (\<open>stable_memory\<close>), \<open>Storable\<close> (\<open>storable_laws\<close>), \<open>StableBTreeMap\<close> (\<open>stable_btree\<close>), \<open>Vec\<close> (\<open>stable_vec\<close>) and
  \<open>Principal\<close> (\<open>principal_api\<close>); each has an instance that shows the contract can be met.

  \<^bold>\<open>Theories.\<close>
  \<^item> \<open>Prelude\<close>: machine integers, little-endian codecs, slices, shared lemmas.
  \<^item> \<open>Instruction_Budget\<close> (\<open>instruction-budget/src/lib.rs\<close>, with the resumable loop of the graph canister and
    the chunk guard of the router): admission, cutoff and per-operation estimates; a resumed batch stays
    within its ceiling as long as the operations stay within their estimates.
  \<^item> \<open>Message_Sizing\<close> (\<open>message-sizing/src/lib.rs\<close>): the adaptive search for a prefix that fits a message. The
    search ends; what it returns fits, and it gives up only when one item is too large.
  \<^item> \<open>Auth_Codec\<close>, \<open>Auth_Rows\<close>, \<open>Stable_BTree\<close>, \<open>Auth_State\<close>, \<open>Auth_Properties\<close> (\<open>auth/src/lib.rs\<close>): canonical
    keys, stored rows with compiled predicates, capability and grant state with revocation, expiry and the
    sweeper. The encodings are faithful, every operation keeps the invariant of the index, and grants,
    revocations, visibility and sweeps have exactly their specified effect.
  \<^item> \<open>Posting_Reader\<close>, \<open>Skip_Index\<close>, \<open>Delta_Varint\<close>, \<open>Bit_Stream\<close>, \<open>Frame_Codec\<close>, \<open>Elias_Fano\<close>,
    \<open>Partitioned_EF\<close>, \<open>Any_Reader\<close>, \<open>Merge\<close>, \<open>TopK\<close> (\<open>ic-stable-text-postings/src\<close>): the reader trait as a
    locale (\<open>posting_reader\<close>, \<open>docid_reader\<close>) that each codec interprets with its own bytes. All codecs answer
    alike, a merge may be interrupted and resumed at any output, and the pruned top-k search returns what an
    exhaustive search returns.
  \<^item> \<open>Stable_Memory\<close>, \<open>Memory_Manager\<close>, \<open>Manager_Invariant\<close>, \<open>Manager_Properties\<close>
    (\<open>ic-stable-variable-memory-manager/src/lib.rs\<close>): the header, the extent table, growth and the cached
    segmented accesses of 255 virtual memories in one memory. The manager refines 255 independent byte
    arrays, reopening restores its state, and each virtual memory meets the \<open>Memory\<close> contract again, by
    the sublocale \<open>virt\<close>, so that every other structure may be placed in one.
  \<^item> \<open>Vec_Deque\<close>, \<open>Deque_Invariant\<close>, \<open>Deque_Laws\<close>, \<open>Deque_Growth\<close>, \<open>Deque_Operations\<close>, \<open>Deque_Properties\<close>
    (\<open>ic-stable-vec-deque/src\<close>): a ring of blocks with a directory and a free list. \<open>dq_ok\<close> says which bytes
    hold which list; every stage of every operation keeps it, so the deque refines a list on any memory
    and any bounded element type, with its arithmetic in range, and leaves the other virtual memories of a
    manager alone.
  \<^item> \<open>Blob_Arena\<close>, \<open>Pending_Log\<close> (\<open>text-canister/src/state/arena.rs\<close>, \<open>state.rs\<close>): blobs of any length in the
    chunks of a shared arena, and the pending log made of it and the deque: a FIFO queue of operations, also
    under the writes of the other users of the arena and across upgrades.
  \<^item> \<open>Paged_Map\<close>, \<open>Paged_Fields\<close>, \<open>Sorted_Pairs\<close>, \<open>Paged_Stores\<close>, \<open>Paged_Invariant\<close>
    (\<open>ic-stable-paged-ordered-map/src/lib.rs\<close>): an ordered map in sorted pages with a directory. The bytes are
    a store of named fields, the loops are updates of the store, and the invariant relates the store to
    the sorted list of pairs.

  \<^bold>\<open>Bounds and termination.\<close> The sweep of the grants takes fuel, and its theorem asks for more than the rows
  of the index; no other definition does. Loops of the code are structural or have a termination
  proof; the loops that end only on well-formed memory (the collecting loop of \<open>to_vec\<close>, the iteration and the
  free-list scan of the ordered map) are partial functions, and the theorems state that they return. Two bounds enter the contracts: a memory has fewer than
  2^63 bytes, as no address space of the platform is larger, and a blob has fewer than 2^32 bytes, as its
  locator stores the length in 32 bits. The posting codecs are stated for lists that fit their 32-bit
  offsets (\<open>postings_fit\<close>).

  \<^bold>\<open>Not modelled.\<close> The GQL front end and planner, the graph, router, index and vector canisters, the LARA
  adjacency store, the other stable maps, the morphological dictionary, wire types, tools and user interfaces;
  the manifest lists each with its reason. Of the text canister, the analyzers and the index that pending
  operations are applied to are not modelled. Asynchronous calls between canisters do not occur in the modelled
  parts, whose methods run to completion within a message.
\<close>

end
